(* ===== verification/Peerbus_Prelude.thy ===== *)
theory Peerbus_Prelude
  imports Main "HOL-Library.Char_ord" "HOL-Library.List_Lexorder"
begin

text \<open>
  Shared vocabulary of the development.  Go strings and byte slices are both
  sequences of bytes; a HOL \<^typ>\<open>char\<close> is exactly one byte, so both are
  \<^typ>\<open>string\<close> here.  The theory holds the collections of rewrite rules the
  components add to, the byte-level helpers of the Go standard library that
  several components call (hexadecimal coding, 64-bit wrap-around,
  constant-time comparison), and generic facts on lists.
\<close>

named_theorems json_run \<open>scanner runs over printed JSON\<close>
named_theorems store_simps \<open>effect of store operations on the tables\<close>
named_theorems broker_simps \<open>effect of broker handlers on the broker state\<close>

type_synonym bytes = string

abbreviation byte :: "char \<Rightarrow> nat" where
  "byte c \<equiv> of_char c"

section \<open>Results\<close>

text \<open>Go's pair of a value and an error: \<^const>\<open>Inl\<close> is the error.\<close>

type_synonym ('e, 'a) result = "'e + 'a"

definition is_ok :: "('e, 'a) result \<Rightarrow> bool" where
  "is_ok r = (case r of Inl _ \<Rightarrow> False | Inr _ \<Rightarrow> True)"

lemma is_ok_simps [simp]: "is_ok (Inr x)" "\<not> is_ok (Inl e)"
  by (simp_all add: is_ok_def)

lemma is_ok_iff: "is_ok r \<longleftrightarrow> (\<exists>x. r = Inr x)"
  by (cases r) auto

section \<open>Signed 64-bit integers\<close>

text \<open>Go's \<open>int64\<close> addition wraps around; the value range is written out.\<close>

definition wrap64 :: "int \<Rightarrow> int" where
  "wrap64 x = (x + 2 ^ 63) mod 2 ^ 64 - 2 ^ 63"

lemma wrap64_id [simp]: "- (2 ^ 63) \<le> x \<Longrightarrow> x < 2 ^ 63 \<Longrightarrow> wrap64 x = x"
  by (simp add: wrap64_def)

lemma wrap64_range: "- (2 ^ 63) \<le> wrap64 x \<and> wrap64 x < 2 ^ 63"
proof -
  have "0 \<le> (x + 2 ^ 63) mod 2 ^ 64" "(x + 2 ^ 63) mod 2 ^ 64 < 2 ^ 64"
    by (rule pos_mod_sign pos_mod_bound, simp)+
  then show ?thesis by (simp add: wrap64_def)
qed

section \<open>Hexadecimal coding (encoding/hex)\<close>

definition hex_digit :: "nat \<Rightarrow> char" where
  "hex_digit n = ''0123456789abcdef'' ! (n mod 16)"

fun hex_encode :: "bytes \<Rightarrow> string" where
  "hex_encode [] = []"
| "hex_encode (c # cs) = hex_digit (byte c div 16) # hex_digit (byte c mod 16) # hex_encode cs"

text \<open>\<open>fromHexChar\<close>: both letter cases are accepted on decoding.\<close>

definition hex_value :: "char \<Rightarrow> nat option" where
  "hex_value c =
     (let b = byte c in
      if 48 \<le> b \<and> b \<le> 57 then Some (b - 48)
      else if 97 \<le> b \<and> b \<le> 102 then Some (b - 87)
      else if 65 \<le> b \<and> b \<le> 70 then Some (b - 55)
      else None)"

fun hex_decode :: "string \<Rightarrow> bytes option" where
  "hex_decode [] = Some []"
| "hex_decode [c] = None"
| "hex_decode (c # d # cs) =
     (case (hex_value c, hex_value d, hex_decode cs) of
        (Some h, Some l, Some bs) \<Rightarrow> Some (char_of (16 * h + l) # bs)
      | _ \<Rightarrow> None)"

lemma hex_value_hex_digit: "hex_value (hex_digit n) = Some (n mod 16)"
proof -
  have "list_all (\<lambda>k. hex_value (hex_digit k) = Some k) [0..<16]"
    by (simp add: upt_rec hex_digit_def hex_value_def)
  moreover have "n mod 16 \<in> set [0..<16]" by simp
  ultimately have "hex_value (hex_digit (n mod 16)) = Some (n mod 16)" by (simp only: list_all_iff)
  then show ?thesis by (simp add: hex_digit_def)
qed

lemma byte_lt [simp]: "byte c < 256"
  using of_char_mod_256 [of c, where 'a = nat] mod_less_divisor [of 256 "byte c"] by simp

lemma hex_decode_encode [simp]: "hex_decode (hex_encode bs) = Some bs"
proof (induction bs)
  case (Cons c cs)
  have "byte c div 16 < 16" using byte_lt [of c] by linarith
  then have "16 * (byte c div 16 mod 16) + byte c mod 16 mod 16 = byte c" by simp
  then show ?case using Cons by (simp add: hex_value_hex_digit)
qed simp

lemma length_hex_encode [simp]: "length (hex_encode bs) = 2 * length bs"
  by (induction bs) auto

lemma hex_encode_inj: "hex_encode a = hex_encode b \<longleftrightarrow> a = b"
  by (metis hex_decode_encode option.inject)

lemma hex_encode_eq_Nil [simp]: "hex_encode bs = [] \<longleftrightarrow> bs = []"
  by (cases bs) auto

section \<open>Constant-time comparison (crypto/subtle)\<close>

text \<open>
  \<open>ConstantTimeCompare\<close> returns 0 at once on different lengths and otherwise folds
  the exclusive-or of all byte pairs; it is 1 exactly when no pair differs.
\<close>

definition ConstantTimeCompare :: "bytes \<Rightarrow> bytes \<Rightarrow> nat" where
  "ConstantTimeCompare x y =
     (if length x \<noteq> length y then 0
      else if foldl (\<lambda>d (a, b). d \<or> a \<noteq> b) False (zip x y) then 0 else 1)"

lemma foldl_differs: "foldl (\<lambda>d (a, b). d \<or> a \<noteq> b) d ps \<longleftrightarrow> d \<or> (\<exists>(a, b) \<in> set ps. a \<noteq> b)"
  by (induction ps arbitrary: d) auto

lemma ConstantTimeCompare_eq [simp]: "ConstantTimeCompare x y = 1 \<longleftrightarrow> x = y"
proof -
  have "length x = length y \<Longrightarrow> (\<exists>(a, b) \<in> set (zip x y). a \<noteq> b) \<longleftrightarrow> x \<noteq> y"
    by (auto simp: set_zip list_eq_iff_nth_eq)
  then show ?thesis by (auto simp: ConstantTimeCompare_def foldl_differs)
qed

lemmas ConstantTimeCompare_eq_Suc [simp] = ConstantTimeCompare_eq [unfolded One_nat_def]

section \<open>Tables that only grow\<close>

text \<open>
  A state with a table of rows in which a step may change a row only upwards in the
  order \<open>le\<close>: what holds of a row survives every later step.  The store's message, peer and
  audit tables and the broker's state are instances.
\<close>

locale growing_table =
  fixes step :: "'s \<Rightarrow> 's \<Rightarrow> bool"
    and row :: "'s \<Rightarrow> 'k \<Rightarrow> 'v option"
    and le :: "'v \<Rightarrow> 'v \<Rightarrow> bool"
  assumes le_refl: "le v v"
    and le_trans: "le u v \<Longrightarrow> le v w \<Longrightarrow> le u w"
    and step_row: "step s s' \<Longrightarrow> row s k = Some v \<Longrightarrow> \<exists>v'. row s' k = Some v' \<and> le v v'"
begin

lemma steps_row:
  assumes "step\<^sup>*\<^sup>* s s'" "row s k = Some v"
  shows "\<exists>v'. row s' k = Some v' \<and> le v v'"
  using assms
proof (induction rule: rtranclp_induct)
  case base
  then show ?case using le_refl by blast
next
  case (step t u)
  then obtain v1 where "row t k = Some v1" "le v v1" by blast
  with step_row [OF step.hyps(2), of k v1] show ?case using le_trans by blast
qed

lemma steps_dom: "step\<^sup>*\<^sup>* s s' \<Longrightarrow> dom (row s) \<subseteq> dom (row s')"
  using steps_row by blast

end

section \<open>Lists\<close>

lemma sorted_wrt_map_key:
  "sorted_wrt P (map f xs) \<longleftrightarrow> sorted_wrt (\<lambda>x y. P (f x) (f y)) xs"
  by (rule sorted_wrt_map)

lemma map_update_where:
  "(\<forall>x\<in>set xs. P x \<longrightarrow> f (g x) = f x) \<Longrightarrow> map f (map (\<lambda>x. if P x then g x else x) xs) = map f xs"
  by simp

end
