(* ===== verification/Json_Scanner.thy ===== *)
theory Json_Scanner
  imports Peerbus_Prelude
begin

text \<open>
  The JSON scanner of Go's \<open>encoding/json\<close> (version 1 of the package), which every
  \<open>json.Unmarshal\<close> runs over its whole input and every \<open>json.RawMessage\<close> is
  run through on \<open>json.Marshal\<close>.  It is a pushdown automaton: a step state, a stack
  of parse states and one operation code per byte.  The theory defines the automaton,
  the validity check \<open>checkValid\<close>, the compaction \<open>appendCompact\<close> with HTML
  escaping, and the splitting of one value off the front of a text; it proves that the
  automaton composes over nested values and that compaction is idempotent and keeps
  validity.  The nesting limit is a parameter \<open>m\<close> so that a value scanned on its own
  and the same value scanned inside an object can be related; Go's limit is
  \<open>maxNestingDepth\<close>.
\<close>

section \<open>The automaton\<close>

datatype sstep =
    BeginValue | BeginValueOrEmpty | BeginString | BeginStringOrEmpty | EndValue | EndTop
  | InString | InStringEsc | InStringEscU | InStringEscU1 | InStringEscU12 | InStringEscU123
  | StateNeg | State1 | State0 | StateDot | StateDot0 | StateE | StateESign | StateE0
  | StateT | StateTr | StateTru | StateF | StateFa | StateFal | StateFals
  | StateN | StateNu | StateNul | StateError

datatype pstate = ParseObjectKey | ParseObjectValue | ParseArrayValue

datatype scanop =
    ScanContinue | ScanBeginLiteral | ScanBeginObject | ScanObjectKey | ScanObjectValue
  | ScanEndObject | ScanBeginArray | ScanArrayValue | ScanEndArray | ScanSkipSpace
  | ScanEnd | ScanError

type_synonym scanner = "sstep \<times> pstate list"

definition maxNestingDepth :: nat where
  "maxNestingDepth = 10000"

definition isSpace :: "char \<Rightarrow> bool" where
  "isSpace c \<longleftrightarrow> c = CHR '' '' \<or> c = CHR 0x09 \<or> c = CHR 0x0D \<or> c = CHR 0x0A"

definition is_digit :: "char \<Rightarrow> bool" where
  "is_digit c \<longleftrightarrow> 48 \<le> byte c \<and> byte c \<le> 57"

definition is_digit19 :: "char \<Rightarrow> bool" where
  "is_digit19 c \<longleftrightarrow> 49 \<le> byte c \<and> byte c \<le> 57"

definition is_hex :: "char \<Rightarrow> bool" where
  "is_hex c \<longleftrightarrow> hex_value c \<noteq> None"

definition scan_err :: "pstate list \<Rightarrow> scanner \<times> scanop" where
  "scan_err st = ((StateError, st), ScanError)"

definition push_ps :: "nat \<Rightarrow> pstate \<Rightarrow> sstep \<Rightarrow> pstate list \<Rightarrow> scanop \<Rightarrow> scanner \<times> scanop" where
  "push_ps m p q st op =
     (if length st < m then ((q, p # st), op) else scan_err (p # st))"

definition pop_ps :: "pstate list \<Rightarrow> scanner" where
  "pop_ps st = (if st = [] then (EndTop, []) else (EndValue, st))"

fun end_top :: "char \<Rightarrow> pstate list \<Rightarrow> scanner \<times> scanop" where
  "end_top c st = (if isSpace c then ((EndTop, st), ScanEnd) else ((StateError, st), ScanEnd))"

fun end_value :: "char \<Rightarrow> pstate list \<Rightarrow> scanner \<times> scanop" where
  "end_value c [] = end_top c []"
| "end_value c (p # st) =
     (if isSpace c then ((EndValue, p # st), ScanSkipSpace)
      else case p of
        ParseObjectKey \<Rightarrow>
          if c = CHR '':'' then ((BeginValue, ParseObjectValue # st), ScanObjectKey)
          else scan_err (p # st)
      | ParseObjectValue \<Rightarrow>
          if c = CHR '','' then ((BeginString, ParseObjectKey # st), ScanObjectValue)
          else if c = CHR ''}'' then (pop_ps st, ScanEndObject)
          else scan_err (p # st)
      | ParseArrayValue \<Rightarrow>
          if c = CHR '','' then ((BeginValue, p # st), ScanArrayValue)
          else if c = CHR '']'' then (pop_ps st, ScanEndArray)
          else scan_err (p # st))"

definition begin_value :: "nat \<Rightarrow> char \<Rightarrow> pstate list \<Rightarrow> sstep \<Rightarrow> scanner \<times> scanop" where
  "begin_value m c st q =
     (if isSpace c then ((q, st), ScanSkipSpace)
      else if c = CHR ''{'' then push_ps m ParseObjectKey BeginStringOrEmpty st ScanBeginObject
      else if c = CHR ''['' then push_ps m ParseArrayValue BeginValueOrEmpty st ScanBeginArray
      else if c = CHR 0x22 then ((InString, st), ScanBeginLiteral)
      else if c = CHR ''-'' then ((StateNeg, st), ScanBeginLiteral)
      else if c = CHR ''0'' then ((State0, st), ScanBeginLiteral)
      else if c = CHR ''t'' then ((StateT, st), ScanBeginLiteral)
      else if c = CHR ''f'' then ((StateF, st), ScanBeginLiteral)
      else if c = CHR ''n'' then ((StateN, st), ScanBeginLiteral)
      else if is_digit19 c then ((State1, st), ScanBeginLiteral)
      else scan_err st)"

definition begin_string :: "char \<Rightarrow> pstate list \<Rightarrow> sstep \<Rightarrow> scanner \<times> scanop" where
  "begin_string c st q =
     (if isSpace c then ((q, st), ScanSkipSpace)
      else if c = CHR 0x22 then ((InString, st), ScanBeginLiteral)
      else scan_err st)"

definition expect :: "bool \<Rightarrow> sstep \<Rightarrow> pstate list \<Rightarrow> scanner \<times> scanop" where
  "expect ok q st = (if ok then ((q, st), ScanContinue) else scan_err st)"

fun scan_step :: "nat \<Rightarrow> char \<Rightarrow> scanner \<Rightarrow> scanner \<times> scanop" where
  "scan_step m c (BeginValue, st) = begin_value m c st BeginValue"
| "scan_step m c (BeginValueOrEmpty, st) =
     (if c = CHR '']'' then end_value c st else begin_value m c st BeginValueOrEmpty)"
| "scan_step m c (BeginString, st) = begin_string c st BeginString"
| "scan_step m c (BeginStringOrEmpty, st) =
     (if c = CHR ''}'' then end_value c (ParseObjectValue # tl st)
      else begin_string c st BeginStringOrEmpty)"
| "scan_step m c (EndValue, st) = end_value c st"
| "scan_step m c (EndTop, st) = end_top c st"
| "scan_step m c (InString, st) =
     (if c = CHR 0x22 then ((EndValue, st), ScanContinue)
      else if c = CHR 0x5C then ((InStringEsc, st), ScanContinue)
      else expect (\<not> byte c < 32) InString st)"
| "scan_step m c (InStringEsc, st) =
     (if c = CHR ''u'' then ((InStringEscU, st), ScanContinue)
      else expect (c \<in> set [CHR ''b'', CHR ''f'', CHR ''n'', CHR ''r'', CHR ''t'',
        CHR 0x5C, CHR ''/'', CHR 0x22]) InString st)"
| "scan_step m c (InStringEscU, st) = expect (is_hex c) InStringEscU1 st"
| "scan_step m c (InStringEscU1, st) = expect (is_hex c) InStringEscU12 st"
| "scan_step m c (InStringEscU12, st) = expect (is_hex c) InStringEscU123 st"
| "scan_step m c (InStringEscU123, st) = expect (is_hex c) InString st"
| "scan_step m c (StateNeg, st) =
     (if c = CHR ''0'' then ((State0, st), ScanContinue) else expect (is_digit19 c) State1 st)"
| "scan_step m c (State1, st) =
     (if is_digit c then ((State1, st), ScanContinue)
      else if c = CHR ''.'' then ((StateDot, st), ScanContinue)
      else if c = CHR ''e'' \<or> c = CHR ''E'' then ((StateE, st), ScanContinue)
      else end_value c st)"
| "scan_step m c (State0, st) =
     (if c = CHR ''.'' then ((StateDot, st), ScanContinue)
      else if c = CHR ''e'' \<or> c = CHR ''E'' then ((StateE, st), ScanContinue)
      else end_value c st)"
| "scan_step m c (StateDot, st) = expect (is_digit c) StateDot0 st"
| "scan_step m c (StateDot0, st) =
     (if is_digit c then ((StateDot0, st), ScanContinue)
      else if c = CHR ''e'' \<or> c = CHR ''E'' then ((StateE, st), ScanContinue)
      else end_value c st)"
| "scan_step m c (StateE, st) =
     (if c = CHR ''+'' \<or> c = CHR ''-'' then ((StateESign, st), ScanContinue)
      else expect (is_digit c) StateE0 st)"
| "scan_step m c (StateESign, st) = expect (is_digit c) StateE0 st"
| "scan_step m c (StateE0, st) =
     (if is_digit c then ((StateE0, st), ScanContinue) else end_value c st)"
| "scan_step m c (StateT, st) = expect (c = CHR ''r'') StateTr st"
| "scan_step m c (StateTr, st) = expect (c = CHR ''u'') StateTru st"
| "scan_step m c (StateTru, st) = expect (c = CHR ''e'') EndValue st"
| "scan_step m c (StateF, st) = expect (c = CHR ''a'') StateFa st"
| "scan_step m c (StateFa, st) = expect (c = CHR ''l'') StateFal st"
| "scan_step m c (StateFal, st) = expect (c = CHR ''s'') StateFals st"
| "scan_step m c (StateFals, st) = expect (c = CHR ''e'') EndValue st"
| "scan_step m c (StateN, st) = expect (c = CHR ''u'') StateNu st"
| "scan_step m c (StateNu, st) = expect (c = CHR ''l'') StateNul st"
| "scan_step m c (StateNul, st) = expect (c = CHR ''l'') EndValue st"
| "scan_step m c (StateError, st) = scan_err st"

definition scan_eof :: "nat \<Rightarrow> scanner \<Rightarrow> bool" where
  "scan_eof m s \<longleftrightarrow> fst s \<noteq> StateError \<and>
     (fst s = EndTop \<or> fst (fst (scan_step m (CHR '' '') s)) = EndTop)"

fun scan_ok :: "nat \<Rightarrow> scanner \<Rightarrow> bytes \<Rightarrow> bool" where
  "scan_ok m s [] = scan_eof m s"
| "scan_ok m s (c # cs) =
     (case scan_step m c s of (s', op) \<Rightarrow> op \<noteq> ScanError \<and> scan_ok m s' cs)"

definition checkValid_at :: "nat \<Rightarrow> bytes \<Rightarrow> bool" where
  "checkValid_at m bs = scan_ok m (BeginValue, []) bs"

definition checkValid :: "bytes \<Rightarrow> bool" where
  "checkValid bs = checkValid_at maxNestingDepth bs"

section \<open>Compaction\<close>

definition u_escape :: "char \<Rightarrow> bytes" where
  "u_escape c = [CHR 0x5C, CHR ''u'', CHR ''0'', CHR ''0'', hex_digit (byte c div 16),
     hex_digit (byte c mod 16)]"

definition is_html :: "char \<Rightarrow> bool" where
  "is_html c \<longleftrightarrow> c = CHR ''<'' \<or> c = CHR ''>'' \<or> c = CHR ''&''"

text \<open>The UTF-8 encodings of U+2028 and U+2029 and their escapes.\<close>

definition starts_2028 :: "bytes \<Rightarrow> bool" where
  "starts_2028 bs \<longleftrightarrow> (case bs of
      a # b # c # _ \<Rightarrow> a = CHR 0xE2 \<and> b = CHR 0x80 \<and> (c = CHR 0xA8 \<or> c = CHR 0xA9)
    | _ \<Rightarrow> False)"

definition escape_2028 :: "bytes \<Rightarrow> bytes" where
  "escape_2028 bs = [CHR 0x5C, CHR ''u'', CHR ''2'', CHR ''0'', CHR ''2'',
     hex_digit (byte (bs ! 2) mod 16)]"

text \<open>
  \<open>appendCompact\<close> with \<open>escape = true\<close>; \<open>k\<close> counts the bytes that a preceding
  three-byte escape has already accounted for.
\<close>

fun compact_from :: "nat \<Rightarrow> nat \<Rightarrow> scanner \<Rightarrow> bytes \<Rightarrow> bytes option" where
  "compact_from m k s [] = (if scan_eof m s then Some [] else None)"
| "compact_from m k s (c # cs) =
     (case scan_step m c s of (s', op) \<Rightarrow>
        if op = ScanError then None
        else if op = ScanSkipSpace \<or> op = ScanEnd then compact_from m (k - 1) s' cs
        else if 0 < k then compact_from m (k - 1) s' cs
        else if is_html c then map_option ((@) (u_escape c)) (compact_from m 0 s' cs)
        else if starts_2028 (c # cs)
          then map_option ((@) (escape_2028 (c # cs))) (compact_from m 2 s' cs)
        else map_option ((#) c) (compact_from m 0 s' cs))"

definition json_compact_at :: "nat \<Rightarrow> bytes \<Rightarrow> bytes option" where
  "json_compact_at m bs = compact_from m 0 (BeginValue, []) bs"

definition json_compact :: "bytes \<Rightarrow> bytes option" where
  "json_compact bs = json_compact_at maxNestingDepth bs"

section \<open>Splitting one value off a text\<close>

text \<open>
  The decoder advances over one value with the scanner until the scanner reports that
  the value ended before the current byte.
\<close>

fun take_value_from :: "nat \<Rightarrow> scanner \<Rightarrow> bytes \<Rightarrow> bytes \<times> bytes" where
  "take_value_from m s [] = ([], [])"
| "take_value_from m s (c # cs) =
     (case scan_step m c s of (s', op) \<Rightarrow>
        if op = ScanEnd \<or> op = ScanError then ([], c # cs)
        else (case take_value_from m s' cs of (v, r) \<Rightarrow> (c # v, r)))"

definition take_value :: "bytes \<Rightarrow> bytes \<times> bytes" where
  "take_value bs = take_value_from maxNestingDepth (BeginValue, []) bs"

lemma take_value_from_append: "take_value_from m s bs = (v, r) \<Longrightarrow> v @ r = bs"
  by (induction m s bs arbitrary: v r rule: take_value_from.induct)
    (auto split: prod.splits if_splits)

lemma take_value_append: "take_value bs = (v, r) \<Longrightarrow> v @ r = bs"
  by (simp add: take_value_def take_value_from_append)

section \<open>Compact texts\<close>

text \<open>
  A run over bytes none of which is skipped, ends the top-level value or is an error.
\<close>

fun scan_all :: "nat \<Rightarrow> scanner \<Rightarrow> bytes \<Rightarrow> scanner option" where
  "scan_all m s [] = Some s"
| "scan_all m s (c # cs) =
     (case scan_step m c s of (s', op) \<Rightarrow>
        if op = ScanSkipSpace \<or> op = ScanEnd \<or> op = ScanError then None
        else scan_all m s' cs)"

definition number_end :: "sstep \<Rightarrow> bool" where
  "number_end q \<longleftrightarrow> q = State1 \<or> q = State0 \<or> q = StateDot0 \<or> q = StateE0"

definition value_end :: "sstep \<Rightarrow> bool" where
  "value_end q \<longleftrightarrow> q = EndValue \<or> number_end q"

definition complete :: "scanner \<Rightarrow> bool" where
  "complete s \<longleftrightarrow> snd s = [] \<and> (value_end (fst s) \<or> fst s = EndTop)"

definition json_text :: "nat \<Rightarrow> bytes \<Rightarrow> bool" where
  "json_text m v \<longleftrightarrow> (case scan_all m (BeginValue, []) v of None \<Rightarrow> False | Some s \<Rightarrow> complete s)"

lemma scan_all_append:
  "scan_all m s (xs @ ys) = (case scan_all m s xs of None \<Rightarrow> None | Some s' \<Rightarrow> scan_all m s' ys)"
  by (induction xs arbitrary: s) (auto split: prod.splits)

lemma scan_all_appendI [json_run]:
  "scan_all m s xs = Some s' \<Longrightarrow> scan_all m s (xs @ ys) = scan_all m s' ys"
  by (simp add: scan_all_append)

lemma json_textE:
  assumes "json_text m v"
  obtains s where "scan_all m (BeginValue, []) v = Some s" "complete s"
  using assms by (auto simp: json_text_def split: option.splits)

lemma json_textI: "scan_all m (BeginValue, []) v = Some s \<Longrightarrow> complete s \<Longrightarrow> json_text m v"
  by (simp add: json_text_def)


section \<open>Scanning inside an enclosing value\<close>

lemmas step_defs = begin_value_def begin_string_def push_ps_def pop_ps_def scan_err_def expect_def

definition wf_scan :: "scanner \<Rightarrow> bool" where
  "wf_scan s \<longleftrightarrow> (fst s = BeginStringOrEmpty \<longrightarrow> snd s \<noteq> [])"

definition lift_scan :: "pstate list \<Rightarrow> scanner \<Rightarrow> scanner" where
  "lift_scan base s = (if fst s = EndTop then EndValue else fst s, snd s @ base)"

lemma end_value_lift:
  assumes "base \<noteq> []" "end_value c st = (s', op)" "op \<noteq> ScanEnd"
  shows "end_value c (st @ base) = (lift_scan base s', op)"
  using assms by (cases st) (auto simp: step_defs lift_scan_def split: if_splits pstate.splits)

lemma begin_value_lift:
  assumes "begin_value m c st q = (s', op)" "op \<noteq> ScanError" "q \<noteq> EndTop"
  shows "begin_value (m + length base) c (st @ base) q = (lift_scan base s', op)"
proof -
  have "begin_value (m + length base) c (st @ base) q
      = map_prod (lift_scan base) id (begin_value m c st q)"
    using assms(3) unfolding begin_value_def push_ps_def scan_err_def
    by (simp add: lift_scan_def if_distrib)
  with assms(1) show ?thesis by simp
qed

lemma begin_string_lift:
  assumes "begin_string c st q = (s', op)" "op \<noteq> ScanError" "q \<noteq> EndTop"
  shows "begin_string c (st @ base) q = (lift_scan base s', op)"
  using assms by (auto simp: step_defs lift_scan_def split: if_splits)

lemma expect_lift:
  assumes "expect ok q st = (s', op)" "op \<noteq> ScanError" "q \<noteq> EndTop"
  shows "expect ok q (st @ base) = (lift_scan base s', op)"
  using assms by (auto simp: step_defs lift_scan_def split: if_splits)

lemma scan_step_lift:
  assumes "base \<noteq> []" "wf_scan s" "scan_step m c s = (s', op)" "op \<noteq> ScanEnd" "op \<noteq> ScanError"
  shows "scan_step (m + length base) c (lift_scan base s) = (lift_scan base s', op)"
proof -
  obtain q st where s: "s = (q, st)" by (cases s)
  have tl: "st \<noteq> [] \<Longrightarrow> ParseObjectValue # tl (st @ base) = (ParseObjectValue # tl st) @ base" by simp
  note lifts = end_value_lift [OF assms(1)] begin_value_lift begin_string_lift expect_lift
  show ?thesis
  proof (cases "q = BeginStringOrEmpty \<and> c = CHR ''}''")
    case True
    with assms s show ?thesis
      by (auto simp: wf_scan_def lift_scan_def tl pop_ps_def isSpace_def)
  next
    case False
    with assms s show ?thesis
      by (cases q) (auto simp: lift_scan_def [of _ "(_, _)"] split: if_splits dest: lifts simp: scan_err_def simp del: end_value.simps)
  qed
qed

lemma wf_scan_step: "scan_step m c s = (s', op) \<Longrightarrow> op \<noteq> ScanError \<Longrightarrow> wf_scan s \<Longrightarrow> wf_scan s'"
proof -
  assume a: "scan_step m c s = (s', op)" "op \<noteq> ScanError" "wf_scan s"
  obtain q st where s: "s = (q, st)" by (cases s)
  have ev: "end_value c xs = (s', op) \<Longrightarrow> wf_scan s'" for xs
    by (cases xs) (auto simp: wf_scan_def step_defs split: if_splits pstate.splits)
  have bv: "begin_value m c xs r = (s', op) \<Longrightarrow> r \<noteq> BeginStringOrEmpty \<Longrightarrow> wf_scan s'" for xs r
    using a(2) by (auto simp: wf_scan_def step_defs split: if_splits)
  show ?thesis
    using a s by (cases q)
      (auto simp: begin_string_def expect_def scan_err_def wf_scan_def [of "(_, _)"]
        split: if_splits intro: ev bv simp del: end_value.simps)
qed

lemma scan_all_lift:
  "base \<noteq> [] \<Longrightarrow> wf_scan s \<Longrightarrow> scan_all m s v = Some s' \<Longrightarrow>
    scan_all (m + length base) (lift_scan base s) v = Some (lift_scan base s')"
proof (induction v arbitrary: s)
  case (Cons c v)
  obtain t op where step: "scan_step m c s = (t, op)" by (cases "scan_step m c s")
  with Cons.prems have ok: "op \<noteq> ScanSkipSpace" "op \<noteq> ScanEnd" "op \<noteq> ScanError"
    and run: "scan_all m t v = Some s'" by (auto split: if_splits)
  have "wf_scan t" using step ok Cons.prems(2) by (blast intro: wf_scan_step)
  with run Cons.IH Cons.prems(1) scan_step_lift [OF Cons.prems(1,2) step ok(2,3)] ok
  show ?case by simp
qed simp

lemma json_text_inside:
  assumes "json_text m v" "base \<noteq> []"
  obtains q where "value_end q" "scan_all (m + length base) (BeginValue, base) v = Some (q, base)"
proof -
  from assms(1) obtain s where s: "scan_all m (BeginValue, []) v = Some s" "complete s"
    by (rule json_textE)
  have "scan_all (m + length base) (BeginValue, base) v = Some (lift_scan base s)"
    using scan_all_lift [OF assms(2) _ s(1)] by (simp add: wf_scan_def lift_scan_def)
  moreover have "value_end (fst (lift_scan base s))" "snd (lift_scan base s) = base"
    using s(2) by (auto simp: complete_def lift_scan_def value_end_def)
  ultimately show thesis using that by (cases "lift_scan base s") auto
qed

definition is_delim :: "char \<Rightarrow> bool" where
  "is_delim c \<longleftrightarrow> c = CHR '','' \<or> c = CHR ''}'' \<or> c = CHR '']'' \<or> c = CHR '':'' \<or> isSpace c"

lemma scan_step_value_end:
  "value_end q \<Longrightarrow> is_delim c \<Longrightarrow> scan_step m c (q, st) = end_value c st"
  by (auto simp: value_end_def number_end_def is_delim_def isSpace_def is_digit_def
      simp del: end_value.simps)

lemma complete_delim: "complete s \<Longrightarrow> is_delim c \<Longrightarrow> snd (scan_step m c s) = ScanEnd"
proof (cases s)
  case (Pair q st)
  assume "complete s" "is_delim c"
  with Pair show ?thesis
    using scan_step_value_end [of q c m st] by (auto simp: complete_def)
qed

lemma complete_eof: "complete s \<Longrightarrow> scan_eof m s"
proof (cases s)
  case (Pair q st)
  assume "complete s"
  moreover have "is_delim (CHR '' '')" by (simp add: is_delim_def isSpace_def)
  ultimately show ?thesis
    using Pair scan_step_value_end [of q "CHR '' ''" m st]
    by (auto simp: complete_def scan_eof_def value_end_def number_end_def isSpace_def)
qed

lemma scan_all_ok: "scan_all m s v = Some s' \<Longrightarrow> scan_ok m s (v @ w) = scan_ok m s' w"
  by (induction v arbitrary: s) (auto split: prod.splits if_splits)

lemma json_text_checkValid: "json_text m v \<Longrightarrow> checkValid_at m v"
proof (elim json_textE)
  fix s assume "scan_all m (BeginValue, []) v = Some s" "complete s"
  then show ?thesis using scan_all_ok [of m _ v s "[]"] by (simp add: checkValid_at_def complete_eof)
qed

section \<open>A larger nesting limit changes nothing\<close>

lemma scan_step_mono:
  assumes "scan_step m c s = (s', op)" "op \<noteq> ScanError" "m \<le> m'"
  shows "scan_step m' c s = (s', op)"
proof -
  obtain q st where s: "s = (q, st)" by (cases s)
  have "begin_value m c st r = (s', op) \<Longrightarrow> begin_value m' c st r = (s', op)" for r
  proof -
    assume bv: "begin_value m c st r = (s', op)"
    have "length st < m \<Longrightarrow> length st < m'" using assms(3) by simp
    with bv assms(2) show ?thesis unfolding begin_value_def push_ps_def scan_err_def
      by (auto split: if_splits)
  qed
  with assms(1) s show ?thesis by (cases q) (auto split: if_splits simp del: end_value.simps)
qed

lemma scan_all_mono: "scan_all m s v = Some s' \<Longrightarrow> m \<le> m' \<Longrightarrow> scan_all m' s v = Some s'"
proof (induction v arbitrary: s)
  case (Cons c v)
  obtain t op where step: "scan_step m c s = (t, op)" by (cases "scan_step m c s")
  with Cons.prems have "op \<noteq> ScanError" "scan_all m t v = Some s'" by (auto split: if_splits)
  with Cons step show ?case using scan_step_mono [OF step] by (auto split: if_splits)
qed simp

lemma json_text_mono: "json_text m v \<Longrightarrow> m \<le> m' \<Longrightarrow> json_text m' v"
  by (auto simp: json_text_def split: option.splits dest: scan_all_mono)

lemma take_value_from_run:
  "scan_all m s v = Some s' \<Longrightarrow> complete s' \<Longrightarrow> r = [] \<or> is_delim (hd r) \<Longrightarrow>
    take_value_from m s (v @ r) = (v, r)"
proof (induction v arbitrary: s)
  case Nil
  then show ?case using complete_delim [of s' "hd r" m] by (cases r) (auto split: prod.splits)
next
  case (Cons c v)
  obtain t op where step: "scan_step m c s = (t, op)" by (cases "scan_step m c s")
  with Cons show ?case by (auto split: if_splits)
qed

lemma take_value_json_text:
  assumes "json_text m v" "m \<le> maxNestingDepth" "r = [] \<or> is_delim (hd r)"
  shows "take_value (v @ r) = (v, r)"
proof -
  from json_text_mono [OF assms(1,2)] obtain s
    where "scan_all maxNestingDepth (BeginValue, []) v = Some s" "complete s" by (rule json_textE)
  then show ?thesis unfolding take_value_def using assms(3) by (rule take_value_from_run)
qed

section \<open>Compaction\<close>

lemma compact_from_Some_iff: "(\<exists>out. compact_from m k s bs = Some out) \<longleftrightarrow> scan_ok m s bs"
  by (induction bs arbitrary: k s) (auto split: prod.splits)

lemma json_compact_at_iff: "(\<exists>out. json_compact_at m bs = Some out) \<longleftrightarrow> checkValid_at m bs"
  by (simp add: json_compact_at_def checkValid_at_def compact_from_Some_iff)

text \<open>
  The scanner over the compacted text trails the scanner over the original: it may
  still be at the end of a literal when the original has already moved past spaces.
\<close>

definition sim_scan :: "scanner \<Rightarrow> scanner \<Rightarrow> bool" where
  "sim_scan s t \<longleftrightarrow> (fst s = EndTop \<longrightarrow> snd s = []) \<and>
     (s = t \<or> snd s = snd t \<and> value_end (fst t) \<and> (fst s = EndValue \<or> fst s = EndTop))"

lemma scan_step_top:
  assumes "scan_step m c (q, st) = (s', op)" "q = EndTop \<longrightarrow> st = []"
  shows "fst s' = EndTop \<longrightarrow> snd s' = []"
proof -
  have ev: "end_value d xs = (s', op) \<Longrightarrow> ?thesis" for d xs
    by (cases xs) (auto simp: step_defs split: if_splits pstate.splits)
  have bv: "begin_value m c st r = (s', op) \<Longrightarrow> r \<noteq> EndTop \<Longrightarrow> ?thesis" for r
    unfolding begin_value_def push_ps_def scan_err_def by (auto split: if_splits)
  show ?thesis using assms
    by (cases q) (auto simp: begin_string_def expect_def scan_err_def
        split: if_splits simp del: end_value.simps dest: ev bv)
qed

lemma skipped_step:
  assumes "scan_step m c (q, st) = (s', op)" "op = ScanSkipSpace \<or> op = ScanEnd"
    "fst s' \<noteq> StateError"
  shows "s' = (q, st) \<or> snd s' = st \<and> value_end q \<and> (fst s' = EndValue \<or> fst s' = EndTop)"
proof -
  have ev: "end_value c st = (s', op) \<Longrightarrow> isSpace c \<and> snd s' = st \<and> (fst s' = EndValue \<or> fst s' = EndTop)"
    using assms(2,3) by (cases st) (auto simp: step_defs split: if_splits pstate.splits)
  have bv: "begin_value m c st r = (s', op) \<Longrightarrow> s' = (r, st)" for r
    using assms(2) unfolding begin_value_def push_ps_def scan_err_def by (auto split: if_splits)
  show ?thesis
  proof (cases "(q = BeginStringOrEmpty \<and> c = CHR ''}'') \<or> (q = BeginValueOrEmpty \<and> c = CHR '']'')")
    case True
    then show ?thesis using assms ev
      by (auto simp: isSpace_def step_defs split: if_splits)
  next
    case False
    then show ?thesis using assms ev bv
      by (cases q) (auto simp: begin_string_def expect_def scan_err_def value_end_def number_end_def
          split: if_splits simp del: end_value.simps)
  qed
qed

lemma sim_skip:
  assumes "sim_scan s t" "scan_step m c s = (s', op)" "op = ScanSkipSpace \<or> op = ScanEnd"
    "fst s' \<noteq> StateError"
  shows "sim_scan s' t"
proof -
  obtain q st where s: "s = (q, st)" by (cases s)
  have top: "fst s' = EndTop \<longrightarrow> snd s' = []"
    using scan_step_top assms(1,2) s by (auto simp: sim_scan_def)
  from skipped_step [OF assms(2) [unfolded s] assms(3,4)] assms(1) s top show ?thesis
    by (cases t) (auto simp: sim_scan_def)
qed

lemma sim_keep:
  assumes "sim_scan s t" "scan_step m c s = (s', op)" "op \<noteq> ScanSkipSpace" "op \<noteq> ScanEnd" "op \<noteq> ScanError"
  shows "scan_step m c t = (s', op)" "sim_scan s' s'"
proof -
  obtain q st where s: "s = (q, st)" by (cases s)
  obtain r ut where t: "t = (r, ut)" by (cases t)
  show "sim_scan s' s'" using scan_step_top assms(1,2) s by (auto simp: sim_scan_def)
  show "scan_step m c t = (s', op)"
  proof (cases "s = t")
    case True with assms show ?thesis by simp
  next
    case False
    with assms(1) s t have *: "ut = st" "value_end r" "q = EndValue \<or> q = EndTop"
      by (auto simp: sim_scan_def)
    from *(3) assms(2-5) s have ev: "end_value c st = (s', op)" by (auto split: if_splits)
    then have "is_delim c" using assms(3-5)
      by (cases st) (auto simp: is_delim_def step_defs split: if_splits pstate.splits)
    with * t ev show ?thesis by (simp add: scan_step_value_end)
  qed
qed

lemma in_string_byte:
  assumes "scan_step m c s = (s', op)" "op \<noteq> ScanSkipSpace" "op \<noteq> ScanEnd" "op \<noteq> ScanError"
    "is_html c \<or> 128 \<le> byte c"
  shows "\<exists>st. s = (InString, st) \<and> s' = s"
proof -
  obtain q st where s: "s = (q, st)" by (cases s)
  have c: "\<not> isSpace c" "\<not> is_digit c" "\<not> is_digit19 c" "\<not> is_hex c" "\<not> is_delim c"
    "c \<notin> set ''{[-0tfnrueals.E+'' " "c \<noteq> CHR 0x22" "c \<noteq> CHR 0x5C"
    "c \<notin> set [CHR ''b'', CHR ''f'', CHR ''n'', CHR ''r'', CHR ''t'', CHR 0x5C, CHR ''/'', CHR 0x22]"
    using assms(5) by (auto simp: is_html_def isSpace_def is_digit_def is_digit19_def is_hex_def
        is_delim_def hex_value_def Let_def)
  have ev: "end_value c xs = (s', op) \<Longrightarrow> False" for xs
    using c(1,5) assms(2-4) by (cases xs) (auto simp: is_delim_def step_defs split: if_splits pstate.splits)
  have bv: "begin_value m c xs r = (s', op) \<Longrightarrow> False" for xs r
    using c assms(2-4) unfolding begin_value_def push_ps_def scan_err_def by (auto split: if_splits)
  show ?thesis
    using assms(1-4) s c ev bv
    by (cases q) (auto simp: begin_string_def expect_def scan_err_def is_delim_def
        split: if_splits simp del: end_value.simps)
qed


lemma scan_u_escape: "is_html c \<Longrightarrow> scan_all m (InString, st) (u_escape c @ w) = scan_all m (InString, st) w"
  by (auto simp: is_html_def u_escape_def expect_def is_hex_def hex_digit_def hex_value_def)

lemma starts_2028_Cons:
  "starts_2028 bs \<longleftrightarrow> (\<exists>d w. bs = CHR 0xE2 # CHR 0x80 # d # w \<and> (d = CHR 0xA8 \<or> d = CHR 0xA9))"
  by (auto simp: starts_2028_def split: list.splits)

lemma scan_escape_2028:
  "starts_2028 bs \<Longrightarrow> scan_all m (InString, st) (escape_2028 bs @ w) = scan_all m (InString, st) w"
  by (auto simp: starts_2028_Cons escape_2028_def expect_def is_hex_def hex_digit_def hex_value_def)

lemma compact_2028_rest:
  "d = CHR 0xA8 \<or> d = CHR 0xA9 \<Longrightarrow>
    compact_from m 2 (InString, st) (CHR 0x80 # d # w) = compact_from m 0 (InString, st) w"
  by (auto simp: expect_def)

fun no_2028 :: "bytes \<Rightarrow> bool" where
  "no_2028 [] = True"
| "no_2028 (c # cs) = (\<not> starts_2028 (c # cs) \<and> no_2028 cs)"

definition escaped :: "bytes \<Rightarrow> bool" where
  "escaped v \<longleftrightarrow> (\<forall>c \<in> set v. \<not> is_html c) \<and> no_2028 v"

lemma no_2028_ascii: "\<forall>c \<in> set v. c \<noteq> CHR 0xE2 \<Longrightarrow> no_2028 (v @ w) = no_2028 w"
  by (induction v) (auto simp: starts_2028_Cons)

lemma escaped_append_ascii:
  "list_all (\<lambda>c. \<not> is_html c \<and> c \<noteq> CHR 0xE2) v \<Longrightarrow> escaped (v @ w) = escaped w"
  using no_2028_ascii [of v w] by (auto simp: escaped_def list_all_iff)

lemma escaped_u_escape:
  assumes "is_html c"
  shows "escaped (u_escape c @ w) = escaped w"
proof (rule escaped_append_ascii)
  from assms have "c = CHR ''<'' \<or> c = CHR ''>'' \<or> c = CHR ''&''" by (simp add: is_html_def)
  then show "list_all (\<lambda>c. \<not> is_html c \<and> c \<noteq> CHR 0xE2) (u_escape c)"
    by (elim disjE) (simp_all add: is_html_def u_escape_def hex_digit_def)
qed

lemma escaped_escape_2028:
  assumes "starts_2028 bs"
  shows "escaped (escape_2028 bs @ w) = escaped w"
proof (rule escaped_append_ascii)
  from assms obtain d u where "bs = CHR 0xE2 # CHR 0x80 # d # u" "d = CHR 0xA8 \<or> d = CHR 0xA9"
    by (auto simp: starts_2028_Cons)
  then show "list_all (\<lambda>c. \<not> is_html c \<and> c \<noteq> CHR 0xE2) (escape_2028 bs)"
    by (elim disjE) (simp_all add: is_html_def escape_2028_def hex_digit_def)
qed

lemma scan_eof_complete: "scan_eof m s \<Longrightarrow> sim_scan s t \<Longrightarrow> complete t"
proof -
  assume a: "scan_eof m s" "sim_scan s t"
  obtain q st where s: "s = (q, st)" by (cases s)
  have sp: "isSpace (CHR '' '')" "\<not> is_digit (CHR '' '')" by (simp_all add: isSpace_def is_digit_def)
  have ev: "fst (fst (end_value (CHR '' '') st)) = EndTop \<Longrightarrow> st = []"
    using sp by (cases st) auto
  have "complete s" using a s sp ev
    by (cases q) (auto simp: scan_eof_def sim_scan_def complete_def value_end_def number_end_def
        begin_value_def begin_string_def expect_def scan_err_def is_hex_def hex_value_def is_digit19_def
        split: if_splits simp del: end_value.simps)
  with a(2) s show ?thesis by (cases t) (auto simp: sim_scan_def complete_def)
qed

lemma compact_from_error: "fst s = StateError \<Longrightarrow> compact_from m k s bs = None"
  by (cases s; cases bs) (auto simp: scan_eof_def scan_err_def)

lemma compact_first_byte:
  assumes "compact_from m 0 (InString, st) bs = Some (b # out)" "128 \<le> byte b"
  shows "\<exists>w. bs = b # w \<and> compact_from m 0 (InString, st) w = Some out"
  using assms
  by (cases bs) (auto simp: expect_def scan_err_def u_escape_def escape_2028_def scan_eof_def
      split: if_splits)

lemma compact_no_new_2028:
  assumes "compact_from m 0 (InString, st) bs = Some out" "starts_2028 (CHR 0xE2 # out)"
  shows "starts_2028 (CHR 0xE2 # bs)"
proof -
  from assms(2) obtain d w where out: "out = CHR 0x80 # d # w" and d: "d = CHR 0xA8 \<or> d = CHR 0xA9"
    by (auto simp: starts_2028_Cons)
  from compact_first_byte [of m st bs "CHR 0x80" "d # w"] assms(1) out obtain u
    where u: "bs = CHR 0x80 # u" "compact_from m 0 (InString, st) u = Some (d # w)" by auto
  from compact_first_byte [OF u(2)] d u(1) show ?thesis by (auto simp: starts_2028_Cons)
qed

lemma compact_from_text:
  "compact_from m 0 s bs = Some out \<Longrightarrow> sim_scan s t \<Longrightarrow>
    (\<exists>t'. scan_all m t out = Some t' \<and> complete t') \<and> escaped out"
proof (induction "length bs" arbitrary: s t bs out rule: less_induct)
  case less
  show ?case
  proof (cases bs)
    case Nil
    with less.prems have "scan_eof m s" "out = []" by (auto split: if_splits)
    with less.prems(2) show ?thesis by (simp add: escaped_def scan_eof_complete [of m s t])
  next
    case (Cons c cs)
    obtain s' op where step: "scan_step m c s = (s', op)" by (cases "scan_step m c s")
    have noerr: "op \<noteq> ScanError" using less.prems(1) Cons step by (auto split: if_splits)
    show ?thesis
    proof (cases "op = ScanSkipSpace \<or> op = ScanEnd")
      case True
      then have rest: "compact_from m 0 s' cs = Some out"
        using less.prems(1) Cons step by (auto split: if_splits)
      then have "fst s' \<noteq> StateError" using compact_from_error by fastforce
      with sim_skip less.prems(2) step True have "sim_scan s' t" by blast
      with less.hyps [of cs] Cons rest show ?thesis by simp
    next
      case False
      then have keep: "scan_step m c t = (s', op)" "sim_scan s' s'"
        using sim_keep less.prems(2) step noerr by blast+
      consider (html) w where "is_html c" "compact_from m 0 s' cs = Some w" "out = u_escape c @ w"
        | (esc) w where "starts_2028 (c # cs)" "compact_from m 2 s' cs = Some w"
            "out = escape_2028 (c # cs) @ w"
        | (plain) w where "\<not> is_html c" "\<not> starts_2028 (c # cs)" "compact_from m 0 s' cs = Some w"
            "out = c # w"
        using less.prems(1) Cons step False noerr by (auto split: if_splits)
      then show ?thesis
      proof cases
        case html
        with in_string_byte [OF keep(1)] False noerr obtain st where t: "t = (InString, st)" "s' = t"
          by auto
        with less.hyps [of cs s'] html keep(2) Cons show ?thesis
          by (auto simp: scan_u_escape escaped_u_escape)
      next
        case esc
        then obtain d u where cs: "c = CHR 0xE2" "cs = CHR 0x80 # d # u" "d = CHR 0xA8 \<or> d = CHR 0xA9"
          by (auto simp: starts_2028_Cons)
        with in_string_byte [OF keep(1)] False noerr obtain st where t: "t = (InString, st)" "s' = t"
          by auto
        with esc cs have "compact_from m 0 (InString, st) u = Some w"
          using compact_2028_rest by metis
        with less.hyps [of u s'] t cs Cons keep(2) esc show ?thesis
          by (auto simp: scan_escape_2028 escaped_escape_2028)
      next
        case plain
        from less.hyps [of cs, OF _ plain(3) keep(2)] Cons
        have ih: "\<exists>t'. scan_all m s' w = Some t' \<and> complete t'" "escaped w" by auto
        have "\<not> starts_2028 (c # w)"
        proof
          assume a: "starts_2028 (c # w)"
          then have "c = CHR 0xE2" by (auto simp: starts_2028_Cons)
          with in_string_byte [OF keep(1)] False noerr obtain st where "s' = (InString, st)" by auto
          with compact_no_new_2028 plain(2,3) a \<open>c = CHR 0xE2\<close> show False by blast
        qed
        with ih plain keep(1) False noerr show ?thesis by (auto simp: escaped_def)
      qed
    qed
  qed
qed

lemma compact_from_escaped:
  "scan_all m s v = Some s' \<Longrightarrow> complete s' \<Longrightarrow> escaped v \<Longrightarrow> compact_from m 0 s v = Some v"
proof (induction v arbitrary: s)
  case Nil
  then show ?case by (simp add: complete_eof)
next
  case (Cons c v)
  then show ?case by (auto simp: escaped_def split: prod.splits if_splits)
qed

lemma json_compact_text: "json_compact_at m b = Some v \<Longrightarrow> json_text m v"
  using compact_from_text [of m "(BeginValue, [])" b v "(BeginValue, [])"]
  by (auto simp: json_compact_at_def sim_scan_def json_text_def)

lemma json_compact_escaped: "json_compact_at m b = Some v \<Longrightarrow> escaped v"
  using compact_from_text [of m "(BeginValue, [])" b v "(BeginValue, [])"]
  by (auto simp: json_compact_at_def sim_scan_def)

lemma json_compact_idem: "json_compact_at m b = Some v \<Longrightarrow> m \<le> m' \<Longrightarrow> json_compact_at m' v = Some v"
proof -
  assume a: "json_compact_at m b = Some v" "m \<le> m'"
  from json_text_mono [OF json_compact_text [OF a(1)] a(2)] obtain s
    where "scan_all m' (BeginValue, []) v = Some s" "complete s" by (rule json_textE)
  with json_compact_escaped [OF a(1)] show ?thesis
    by (simp add: json_compact_at_def compact_from_escaped)
qed

lemma json_compact_mono:
  "json_compact_at m b = Some v \<Longrightarrow> m \<le> m' \<Longrightarrow> json_compact_at m' b = Some v"
proof -
  have "compact_from m k s b = Some v \<Longrightarrow> m \<le> m' \<Longrightarrow> compact_from m' k s b = Some v" for k s
  proof (induction b arbitrary: k s v)
    case Nil
    obtain t op where step: "scan_step m (CHR '' '') s = (t, op)" by (cases "scan_step m (CHR '' '') s")
    have "scan_eof m' s" if "scan_eof m s"
    proof (cases "op = ScanError")
      case True
      have "fst t \<noteq> EndTop" if "fst s \<noteq> EndTop"
        using step True that by (cases s; cases "fst s"; cases "snd s")
          (auto simp: begin_value_def begin_string_def expect_def scan_err_def isSpace_def is_digit_def
            split: if_splits pstate.splits)
      with \<open>scan_eof m s\<close> step show ?thesis by (auto simp: scan_eof_def)
    next
      case False
      with \<open>scan_eof m s\<close> step scan_step_mono [OF step _ Nil(2)] show ?thesis
        by (auto simp: scan_eof_def)
    qed
    with Nil show ?case by (auto split: if_splits)
  next
    case (Cons c b)
    obtain t op where step: "scan_step m c s = (t, op)" by (cases "scan_step m c s")
    with Cons.prems have "op \<noteq> ScanError" by (auto split: if_splits)
    with step Cons.prems(2) have step': "scan_step m' c s = (t, op)" using scan_step_mono by blast
    have IH: "compact_from m k t b = Some v \<Longrightarrow> compact_from m' k t b = Some v" for k v
      using Cons.IH Cons.prems(2) by blast
    from Cons.prems(1) step step' show ?case by (auto split: if_splits dest: IH)
  qed
  then show "json_compact_at m b = Some v \<Longrightarrow> m \<le> m' \<Longrightarrow> ?thesis"
    by (simp add: json_compact_at_def)
qed

end
