(* ===== verification/Json_Codec.thy ===== *)
theory Json_Codec
  imports Json_Scanner
begin

text \<open>
  The parts of Go's \<open>encoding/json\<close> that read and write values: the string encoder
  (\<open>appendString\<close> with HTML escaping) and decoder (\<open>unquoteBytes\<close>), the printing of
  struct values in declaration order and of string slices, the splitting of objects and
  arrays into members, the case-insensitive field lookup, and the decoding of string,
  \<open>json.RawMessage\<close> and \<open>[]string\<close> fields with the package's rule that a member of
  the wrong type is recorded as an error while decoding goes on.  The lemmas give the
  round trips the wire formats rest on.
\<close>

section \<open>UTF-8 (unicode/utf8)\<close>

definition utf8_cont :: "char \<Rightarrow> bool" where
  "utf8_cont c \<longleftrightarrow> 128 \<le> byte c \<and> byte c \<le> 191"

text \<open>
  Size of the well-formed encoding at the front of a byte sequence; \<^const>\<open>None\<close> where
  \<open>DecodeRune\<close> returns \<open>(RuneError, 1)\<close> (and for the empty sequence).
\<close>

definition utf8_second_ok :: "nat \<Rightarrow> char \<Rightarrow> bool" where
  "utf8_second_ok x b \<longleftrightarrow>
     (if x = 0xE0 then 160 \<le> byte b \<and> byte b \<le> 191
      else if x = 0xED then 128 \<le> byte b \<and> byte b \<le> 159
      else if x = 0xF0 then 144 \<le> byte b \<and> byte b \<le> 191
      else if x = 0xF4 then 128 \<le> byte b \<and> byte b \<le> 143
      else utf8_cont b)"

fun utf8_len :: "bytes \<Rightarrow> nat option" where
  "utf8_len [] = None"
| "utf8_len (c # cs) =
     (let x = byte c in
      if x < 128 then Some 1
      else if 0xC2 \<le> x \<and> x \<le> 0xDF then
        (case cs of b # _ \<Rightarrow> if utf8_cont b then Some 2 else None | _ \<Rightarrow> None)
      else if 0xE0 \<le> x \<and> x \<le> 0xEF then
        (case cs of b # d # _ \<Rightarrow> if utf8_second_ok x b \<and> utf8_cont d then Some 3 else None | _ \<Rightarrow> None)
      else if 0xF0 \<le> x \<and> x \<le> 0xF4 then
        (case cs of b # d # e # _ \<Rightarrow>
            if utf8_second_ok x b \<and> utf8_cont d \<and> utf8_cont e then Some 4 else None
         | _ \<Rightarrow> None)
      else None)"

definition rune_error :: bytes where
  "rune_error = [CHR 0xEF, CHR 0xBF, CHR 0xBD]"

definition utf8_encode :: "nat \<Rightarrow> bytes" where
  "utf8_encode r =
     (if r < 0x80 then [char_of r]
      else if r < 0x800 then [char_of (0xC0 + r div 64), char_of (0x80 + r mod 64)]
      else if 0xD800 \<le> r \<and> r \<le> 0xDFFF \<or> 0x10FFFF < r then rune_error
      else if r < 0x10000
        then [char_of (0xE0 + r div 4096), char_of (0x80 + r div 64 mod 64), char_of (0x80 + r mod 64)]
      else [char_of (0xF0 + r div 262144), char_of (0x80 + r div 4096 mod 64),
            char_of (0x80 + r div 64 mod 64), char_of (0x80 + r mod 64)])"

fun to_valid_utf8 :: "bytes \<Rightarrow> bytes" where
  "to_valid_utf8 [] = []"
| "to_valid_utf8 (c # cs) =
     (case utf8_len (c # cs) of
        None \<Rightarrow> rune_error @ to_valid_utf8 cs
      | Some n \<Rightarrow> take n (c # cs) @ to_valid_utf8 (drop (n - 1) cs))"

definition valid_utf8 :: "bytes \<Rightarrow> bool" where
  "valid_utf8 s \<longleftrightarrow> to_valid_utf8 s = s"

section \<open>Strings\<close>

definition quote_ascii :: "char \<Rightarrow> bytes" where
  "quote_ascii c =
     (if c = CHR 0x5C \<or> c = CHR 0x22 then [CHR 0x5C, c]
      else if c = CHR 0x08 then [CHR 0x5C, CHR ''b'']
      else if c = CHR 0x0C then [CHR 0x5C, CHR ''f'']
      else if c = CHR 0x0A then [CHR 0x5C, CHR ''n'']
      else if c = CHR 0x0D then [CHR 0x5C, CHR ''r'']
      else if c = CHR 0x09 then [CHR 0x5C, CHR ''t'']
      else if byte c < 32 \<or> is_html c then u_escape c
      else [c])"

definition ufffd :: bytes where
  "ufffd = [CHR 0x5C, CHR ''u'', CHR ''f'', CHR ''f'', CHR ''f'', CHR ''d'']"

fun quote_body :: "bytes \<Rightarrow> bytes" where
  "quote_body [] = []"
| "quote_body (c # cs) =
     (if byte c < 128 then quote_ascii c @ quote_body cs
      else case utf8_len (c # cs) of
        None \<Rightarrow> ufffd @ quote_body cs
      | Some n \<Rightarrow>
          (if starts_2028 (c # cs) then escape_2028 (c # cs) else take n (c # cs))
          @ quote_body (drop (n - 1) cs))"

definition json_quote :: "bytes \<Rightarrow> bytes" where
  "json_quote s = CHR 0x22 # quote_body s @ [CHR 0x22]"

definition getu4 :: "bytes \<Rightarrow> nat option" where
  "getu4 bs =
     (case bs of
        a # u # w # x # y # z # _ \<Rightarrow>
          if a = CHR 0x5C \<and> u = CHR ''u'' then
            (case (hex_value w, hex_value x, hex_value y, hex_value z) of
               (Some i, Some j, Some k, Some l) \<Rightarrow> Some (4096 * i + 256 * j + 16 * k + l)
             | _ \<Rightarrow> None)
          else None
      | _ \<Rightarrow> None)"

definition is_surrogate :: "nat \<Rightarrow> bool" where
  "is_surrogate r \<longleftrightarrow> 0xD800 \<le> r \<and> r < 0xE000"

definition surrogate_pair :: "nat \<Rightarrow> nat option \<Rightarrow> nat option" where
  "surrogate_pair r r1 =
     (case r1 of
        Some l \<Rightarrow> if 0xD800 \<le> r \<and> r < 0xDC00 \<and> 0xDC00 \<le> l \<and> l < 0xE000
                  then Some (1024 * (r - 0xD800) + (l - 0xDC00) + 0x10000) else None
      | None \<Rightarrow> None)"

fun unquote_body :: "bytes \<Rightarrow> bytes option" where
  "unquote_body [] = Some []"
| "unquote_body (c # cs) =
     (if c = CHR 0x5C then
        (case cs of
           [] \<Rightarrow> None
         | d # ds \<Rightarrow>
             if d = CHR 0x22 \<or> d = CHR 0x5C \<or> d = CHR ''/'' \<or> d = CHR 0x27
               then map_option ((#) d) (unquote_body ds)
             else if d = CHR ''b'' then map_option ((#) (CHR 0x08)) (unquote_body ds)
             else if d = CHR ''f'' then map_option ((#) (CHR 0x0C)) (unquote_body ds)
             else if d = CHR ''n'' then map_option ((#) (CHR 0x0A)) (unquote_body ds)
             else if d = CHR ''r'' then map_option ((#) (CHR 0x0D)) (unquote_body ds)
             else if d = CHR ''t'' then map_option ((#) (CHR 0x09)) (unquote_body ds)
             else if d = CHR ''u'' then
               (case getu4 (c # cs) of
                  None \<Rightarrow> None
                | Some r \<Rightarrow>
                    if is_surrogate r then
                      (case surrogate_pair r (getu4 (drop 4 ds)) of
                         Some p \<Rightarrow> map_option ((@) (utf8_encode p)) (unquote_body (drop 10 ds))
                       | None \<Rightarrow> map_option ((@) rune_error) (unquote_body (drop 4 ds)))
                    else map_option ((@) (utf8_encode r)) (unquote_body (drop 4 ds)))
             else None)
      else if c = CHR 0x22 \<or> byte c < 32 then None
      else if byte c < 128 then map_option ((#) c) (unquote_body cs)
      else (case utf8_len (c # cs) of
              None \<Rightarrow> map_option ((@) rune_error) (unquote_body cs)
            | Some n \<Rightarrow> map_option ((@) (take n (c # cs))) (unquote_body (drop (n - 1) cs))))"

definition unquote :: "bytes \<Rightarrow> bytes option" where
  "unquote raw =
     (if 2 \<le> length raw \<and> hd raw = CHR 0x22 \<and> last raw = CHR 0x22
      then unquote_body (butlast (tl raw)) else None)"

section \<open>Objects and arrays\<close>

fun join_comma :: "bytes list \<Rightarrow> bytes" where
  "join_comma [] = []"
| "join_comma [v] = v"
| "join_comma (v # w # vs) = v @ CHR '','' # join_comma (w # vs)"

definition print_member :: "string \<times> bytes \<Rightarrow> bytes" where
  "print_member kv = json_quote (fst kv) @ CHR '':'' # snd kv"

text \<open>A struct prints its fields in declaration order.\<close>

definition print_object :: "(string \<times> bytes) list \<Rightarrow> bytes" where
  "print_object kvs = CHR ''{'' # join_comma (map print_member kvs) @ ''}''"

definition print_array :: "bytes list \<Rightarrow> bytes" where
  "print_array vs = CHR ''['' # join_comma vs @ '']''"

definition skip_ws :: "bytes \<Rightarrow> bytes" where
  "skip_ws bs = dropWhile isSpace bs"

lemma length_skip_ws: "length (skip_ws bs) \<le> length bs"
  by (simp add: skip_ws_def length_dropWhile_le)

lemma length_take_value: "length (snd (take_value bs)) \<le> length bs"
  using take_value_append [of bs] by (metis length_append le_add2 prod.collapse)

function member_list :: "bytes \<Rightarrow> (bytes \<times> bytes) list option" where
  "member_list bs =
     (let kr = take_value (skip_ws bs) in
      case skip_ws (snd kr) of
        [] \<Rightarrow> None
      | c # r2 \<Rightarrow>
          if c \<noteq> CHR '':'' then None
          else let vr = take_value (skip_ws r2) in
            (case skip_ws (snd vr) of
               [] \<Rightarrow> None
             | d # r4 \<Rightarrow>
                 if d = CHR '','' then map_option ((#) (fst kr, fst vr)) (member_list r4)
                 else if d = CHR ''}'' then Some [(fst kr, fst vr)]
                 else None))"
  by pat_completeness auto
termination
proof (relation "measure length", goal_cases)
  case (2 bs kr c r2 vr d r4)
  have "length (d # r4) \<le> length r2"
    using length_skip_ws [of "snd vr"] length_take_value [of "skip_ws r2"] length_skip_ws [of r2] 2
    by auto
  moreover have "length (c # r2) \<le> length bs"
    using length_skip_ws [of "snd kr"] length_take_value [of "skip_ws bs"] length_skip_ws [of bs] 2
    by auto
  ultimately show ?case by simp
qed simp

declare member_list.simps [simp del]

function elem_list :: "bytes \<Rightarrow> bytes list option" where
  "elem_list bs =
     (let vr = take_value (skip_ws bs) in
      case skip_ws (snd vr) of
        [] \<Rightarrow> None
      | d # r \<Rightarrow>
          if d = CHR '','' then map_option ((#) (fst vr)) (elem_list r)
          else if d = CHR '']'' then Some [fst vr]
          else None)"
  by pat_completeness auto
termination
proof (relation "measure length", goal_cases)
  case (2 bs vr d r)
  then show ?case
    using length_skip_ws [of "snd vr"] length_take_value [of "skip_ws bs"] length_skip_ws [of bs]
    by auto
qed simp

declare elem_list.simps [simp del]

datatype jkind = JObject | JArray | JString | JNull | JOther

definition json_kind :: "bytes \<Rightarrow> jkind" where
  "json_kind raw =
     (case raw of
        [] \<Rightarrow> JOther
      | c # _ \<Rightarrow> if c = CHR ''{'' then JObject else if c = CHR ''['' then JArray
                 else if c = CHR 0x22 then JString else if c = CHR ''n'' then JNull else JOther)"

definition json_members :: "bytes \<Rightarrow> (string \<times> bytes) list" where
  "json_members raw =
     (if skip_ws (tl raw) = [] \<or> hd (skip_ws (tl raw)) = CHR ''}'' then []
      else case member_list (tl raw) of
        None \<Rightarrow> []
      | Some ms \<Rightarrow> map (\<lambda>(k, v). (case unquote k of None \<Rightarrow> [] | Some s \<Rightarrow> s, v)) ms)"

definition json_elems :: "bytes \<Rightarrow> bytes list" where
  "json_elems raw =
     (if skip_ws (tl raw) = [] \<or> hd (skip_ws (tl raw)) = CHR '']'' then []
      else case elem_list (tl raw) of None \<Rightarrow> [] | Some vs \<Rightarrow> vs)"

section \<open>Decoding into struct fields\<close>

text \<open>
  Field names are matched exactly first and then under simple case folding
  (\<open>foldName\<close>).  All field names of this program are ASCII, and the only non-ASCII runes
  that fold to ASCII letters are U+017F (to \<open>S\<close>) and U+212A (to \<open>K\<close>); every other
  non-ASCII byte is kept, which never equals a folded field name.
\<close>

definition upper_ascii :: "char \<Rightarrow> char" where
  "upper_ascii c = (if 97 \<le> byte c \<and> byte c \<le> 122 then char_of (byte c - 32) else c)"

fun fold_name :: "bytes \<Rightarrow> bytes" where
  "fold_name [] = []"
| "fold_name (c # cs) =
     (if byte c < 128 then upper_ascii c # fold_name cs
      else if take 2 (c # cs) = [CHR 0xC5, CHR 0xBF] then CHR ''S'' # fold_name (drop 1 cs)
      else if take 3 (c # cs) = [CHR 0xE2, CHR 0x84, CHR 0xAA] then CHR ''K'' # fold_name (drop 2 cs)
      else c # fold_name cs)"

definition find_field :: "string list \<Rightarrow> string \<Rightarrow> string option" where
  "find_field names key =
     (if key \<in> set names then Some key
      else find (\<lambda>f. fold_name f = fold_name key) names)"

definition field_raws :: "string list \<Rightarrow> (string \<times> bytes) list \<Rightarrow> string \<Rightarrow> bytes list" where
  "field_raws names ms f = map snd (filter (\<lambda>kv. find_field names (fst kv) = Some f) ms)"

text \<open>
  Members are stored into their fields in order.  A string field keeps its value on
  \<open>null\<close> and records a type error on any other kind; the flag is that error.
\<close>

fun dec_string :: "bytes list \<Rightarrow> string \<Rightarrow> string \<times> bool" where
  "dec_string [] v = (v, False)"
| "dec_string (raw # raws) v =
     (case json_kind raw of
        JString \<Rightarrow> dec_string raws (case unquote raw of None \<Rightarrow> v | Some s \<Rightarrow> s)
      | JNull \<Rightarrow> dec_string raws v
      | _ \<Rightarrow> (fst (dec_string raws v), True))"

definition dec_raw :: "bytes list \<Rightarrow> bytes \<Rightarrow> bytes" where
  "dec_raw raws v = (if raws = [] then v else last raws)"

text \<open>A \<open>[]string\<close> field; \<^const>\<open>None\<close> is the nil slice.\<close>

fun dec_strings :: "bytes list \<Rightarrow> string list option \<Rightarrow> string list option \<times> bool" where
  "dec_strings [] v = (v, False)"
| "dec_strings (raw # raws) v =
     (case json_kind raw of
        JNull \<Rightarrow> dec_strings raws None
      | JArray \<Rightarrow>
          (let es = map (\<lambda>r. dec_string [r] []) (json_elems raw);
               rest = dec_strings raws (Some (map fst es))
           in (fst rest, list_ex snd es \<or> snd rest))
      | _ \<Rightarrow> (fst (dec_strings raws v), True))"

datatype json_error = SyntaxError | UnmarshalTypeError

definition dec_struct :: "((string \<times> bytes) list \<Rightarrow> 'a \<Rightarrow> 'a \<times> bool) \<Rightarrow> bytes \<Rightarrow> 'a \<Rightarrow> 'a \<times> bool" where
  "dec_struct upd raw x =
     (case json_kind raw of
        JObject \<Rightarrow> upd (json_members raw) x
      | JNull \<Rightarrow> (x, False)
      | _ \<Rightarrow> (x, True))"

definition unmarshal :: "(bytes \<Rightarrow> 'a \<Rightarrow> 'a \<times> bool) \<Rightarrow> 'a \<Rightarrow> bytes \<Rightarrow> (json_error, 'a) result" where
  "unmarshal dec z bs =
     (if \<not> checkValid bs then Inl SyntaxError
      else case dec (skip_ws bs) z of (x, e) \<Rightarrow> if e then Inl UnmarshalTypeError else Inr x)"

section \<open>Strings round-trip\<close>

lemma utf8_len_bounds: "utf8_len bs = Some n \<Longrightarrow> 1 \<le> n \<and> n \<le> length bs"
  by (cases bs) (auto simp: Let_def split: if_splits list.splits)

lemma utf8_len_take: "utf8_len bs = Some n \<Longrightarrow> utf8_len (take n bs @ w) = Some n"
  by (cases bs) (auto simp: Let_def split: if_splits list.splits)

lemma utf8_len_bytes: "utf8_len bs = Some n \<Longrightarrow> 128 \<le> byte (hd bs) \<Longrightarrow> b \<in> set (take n bs) \<Longrightarrow> 128 \<le> byte b"
  by (cases bs) (auto simp: Let_def utf8_cont_def utf8_second_ok_def split: if_splits list.splits)

lemma starts_2028_len: "starts_2028 bs \<Longrightarrow> utf8_len bs = Some 3"
  by (auto simp: starts_2028_Cons utf8_second_ok_def utf8_cont_def)

lemma starts_2028_take: "starts_2028 bs \<Longrightarrow> utf8_encode (0x2020 + byte (bs ! 2) mod 16) = take 3 bs"
  by (auto simp: starts_2028_Cons utf8_encode_def char_of_def bit_0)

lemma hex_pair: "byte c < 128 \<Longrightarrow> getu4 (u_escape c @ w) = Some (byte c)"
proof -
  assume "byte c < 128"
  then have "byte c div 16 < 16" by linarith
  moreover have "hex_value (CHR ''0'') = Some 0" by (simp add: hex_value_def)
  ultimately show ?thesis by (simp add: getu4_def u_escape_def hex_value_hex_digit)
qed

lemma unquote_u_escape:
  assumes "byte c < 128"
  shows "unquote_body (u_escape c @ w) = map_option ((#) c) (unquote_body w)"
proof -
  have "utf8_encode (byte c) = [c]" using assms by (simp add: utf8_encode_def)
  moreover have "\<not> is_surrogate (byte c)" using assms by (simp add: is_surrogate_def)
  ultimately show ?thesis using hex_pair [OF assms, of w]
    by (cases "unquote_body w") (simp_all add: u_escape_def)
qed

lemma unquote_quote_ascii:
  assumes "byte c < 128"
  shows "unquote_body (quote_ascii c @ w) = map_option ((#) c) (unquote_body w)"
proof (cases "byte c < 32 \<or> is_html c")
  case True
  with unquote_u_escape [OF assms, of w] show ?thesis
    by (simp add: quote_ascii_def del: unquote_body.simps(2)) simp
next
  case False
  then have "c \<noteq> CHR 0x08 \<and> c \<noteq> CHR 0x09 \<and> c \<noteq> CHR 0x0A \<and> c \<noteq> CHR 0x0C \<and> c \<noteq> CHR 0x0D"
    by auto
  with False assms show ?thesis by (auto simp: quote_ascii_def)
qed

lemma unquote_escape_2028:
  assumes "starts_2028 bs"
  shows "unquote_body (escape_2028 bs @ w) = map_option ((@) (take 3 bs)) (unquote_body w)"
proof -
  from assms obtain d u where "bs = CHR 0xE2 # CHR 0x80 # d # u" "d = CHR 0xA8 \<or> d = CHR 0xA9"
    by (auto simp: starts_2028_Cons)
  then show ?thesis
    by (elim disjE) (simp_all add: escape_2028_def getu4_def hex_value_def hex_digit_def
        is_surrogate_def utf8_encode_def char_of_def bit_0)
qed

lemma unquote_ufffd: "unquote_body (ufffd @ w) = map_option ((@) rune_error) (unquote_body w)"
  by (simp add: ufffd_def getu4_def hex_value_def is_surrogate_def utf8_encode_def rune_error_def char_of_def bit_0)

lemma unquote_multibyte:
  assumes "utf8_len (c # cs) = Some n" "128 \<le> byte c"
  shows "unquote_body (take n (c # cs) @ w) = map_option ((@) (take n (c # cs))) (unquote_body w)"
proof -
  from utf8_len_bounds [OF assms(1)] obtain k where n: "n = Suc k" "k \<le> length cs" by (cases n) auto
  have "utf8_len (c # (take k cs @ w)) = Some n" using utf8_len_take [OF assms(1), of w] n by simp
  moreover have "c \<noteq> CHR 0x5C" "c \<noteq> CHR 0x22" using assms(2) by auto
  ultimately show ?thesis using assms(2) n by simp
qed

lemma unquote_body_quote_body: "unquote_body (quote_body s) = Some (to_valid_utf8 s)"
proof (induction s rule: quote_body.induct)
  case (2 c cs)
  show ?case
  proof (cases "byte c < 128")
    case True
    with 2 show ?thesis by (simp add: unquote_quote_ascii)
  next
    case False
    with 2 show ?thesis
      by (cases "utf8_len (c # cs)")
        (auto simp: unquote_ufffd unquote_escape_2028 unquote_multibyte starts_2028_len
          simp del: utf8_len.simps unquote_body.simps)
  qed
qed simp

lemma unquote_json_quote [simp]: "unquote (json_quote s) = Some (to_valid_utf8 s)"
  by (simp add: unquote_def json_quote_def unquote_body_quote_body butlast_append)

section \<open>Printed values are compact texts\<close>

lemma scan_high_bytes:
  "\<forall>b \<in> set v. 128 \<le> byte b \<Longrightarrow> scan_all m (InString, st) (v @ w) = scan_all m (InString, st) w"
  by (induction v) (auto simp: expect_def)

lemma scan_u_escape_ascii:
  "scan_all m (InString, st) (u_escape c @ w) = scan_all m (InString, st) w"
  by (simp add: u_escape_def expect_def is_hex_def hex_value_hex_digit hex_value_def [of "CHR ''0''"])

lemma scan_quote_ascii:
  "byte c < 128 \<Longrightarrow> scan_all m (InString, st) (quote_ascii c @ w) = scan_all m (InString, st) w"
  unfolding quote_ascii_def by (auto simp: scan_u_escape_ascii expect_def)

lemma scan_ufffd: "scan_all m (InString, st) (ufffd @ w) = scan_all m (InString, st) w"
  by (simp add: ufffd_def expect_def is_hex_def hex_value_def)

lemma scan_quote_body: "scan_all m (InString, st) (quote_body s @ w) = scan_all m (InString, st) w"
proof (induction s rule: quote_body.induct)
  case (2 c cs)
  have high: "scan_all m (InString, st) (take n (c # cs) @ w) = scan_all m (InString, st) w"
    if "utf8_len (c # cs) = Some n" "\<not> byte c < 128" for n w
    using that scan_high_bytes [of "take n (c # cs)"] utf8_len_bytes [of "c # cs" n] by auto
  show ?case
    using 2 by (cases "utf8_len (c # cs)")
      (auto simp: scan_quote_ascii scan_ufffd scan_escape_2028 high
        simp del: utf8_len.simps scan_all.simps take_Suc_Cons)
qed simp

lemma scan_json_quote:
  assumes "q = BeginValue \<or> q = BeginString \<or> q = BeginStringOrEmpty \<or> q = BeginValueOrEmpty"
  shows "scan_all m (q, st) (json_quote s) = Some (EndValue, st)"
  using assms scan_quote_body [of m st s "[CHR 0x22]"]
  by (auto simp: json_quote_def begin_value_def begin_string_def isSpace_def)

lemma json_text_quote [simp]: "json_text m (json_quote s)"
  by (rule json_textI [OF scan_json_quote]) (auto simp: complete_def value_end_def)

lemma json_text_null [simp]: "json_text m ''null''"
  by (rule json_textI [of _ _ "(EndValue, [])"])
    (simp_all add: begin_value_def isSpace_def expect_def complete_def value_end_def)

lemma member_run:
  assumes "json_text m v" "q = BeginString \<or> q = BeginStringOrEmpty"
  obtains r where "value_end r"
    "scan_all (Suc m) (q, [ParseObjectKey]) (print_member (k, v)) = Some (r, [ParseObjectValue])"
proof -
  obtain r where r: "value_end r"
    "scan_all (Suc m) (BeginValue, [ParseObjectValue]) v = Some (r, [ParseObjectValue])"
    using json_text_inside [OF assms(1), of "[ParseObjectValue]"] by auto
  have "scan_all (Suc m) (q, [ParseObjectKey]) (json_quote k) = Some (EndValue, [ParseObjectKey])"
    using assms(2) by (intro scan_json_quote) auto
  with that [of r] r show ?thesis
    by (simp add: print_member_def scan_all_appendI isSpace_def)
qed

lemma value_end_comma:
  "value_end r \<Longrightarrow> scan_step m (CHR '','') (r, st) = end_value (CHR '','') st"
  by (rule scan_step_value_end) (simp_all add: is_delim_def)

lemma members_run:
  assumes "kvs \<noteq> []" "list_all (\<lambda>kv. json_text m (snd kv)) kvs" "q = BeginString \<or> q = BeginStringOrEmpty"
  shows "\<exists>r. value_end r \<and>
    scan_all (Suc m) (q, [ParseObjectKey]) (join_comma (map print_member kvs)) = Some (r, [ParseObjectValue])"
  using assms
proof (induction kvs arbitrary: q rule: induct_list012)
  case (2 kv)
  then show ?case by (cases kv) (auto intro: member_run)
next
  case (3 kv kw kvs)
  obtain k v where kv: "kv = (k, v)" by (cases kv)
  obtain r where r: "value_end r"
    "scan_all (Suc m) (q, [ParseObjectKey]) (print_member kv) = Some (r, [ParseObjectValue])"
    using 3(4,5) kv by (auto elim: member_run)
  from 3(2) [of BeginString] 3(4) obtain t where t: "value_end t"
    "scan_all (Suc m) (BeginString, [ParseObjectKey]) (join_comma (map print_member (kw # kvs)))
      = Some (t, [ParseObjectValue])" by auto
  with r show ?case by (auto simp: scan_all_appendI value_end_comma isSpace_def)
qed simp

lemma json_text_object:
  assumes "list_all (\<lambda>kv. json_text m (snd kv)) kvs"
  shows "json_text (Suc m) (print_object kvs)"
proof (cases "kvs = []")
  case True
  then show ?thesis
    by (intro json_textI [of _ _ "(EndTop, [])"])
      (simp_all add: print_object_def begin_value_def isSpace_def push_ps_def pop_ps_def complete_def)
next
  case False
  from members_run [OF this assms, of BeginStringOrEmpty] obtain r where r: "value_end r"
    "scan_all (Suc m) (BeginStringOrEmpty, [ParseObjectKey]) (join_comma (map print_member kvs))
      = Some (r, [ParseObjectValue])" by auto
  have "scan_step (Suc m) (CHR ''}'') (r, [ParseObjectValue]) = ((EndTop, []), ScanEndObject)"
    using scan_step_value_end [OF r(1), of "CHR ''}''"] by (simp add: is_delim_def isSpace_def pop_ps_def)
  with r show ?thesis
    by (intro json_textI [of _ _ "(EndTop, [])"])
      (simp_all add: print_object_def begin_value_def isSpace_def push_ps_def complete_def scan_all_appendI)
qed

lemma elems_run:
  assumes "vs \<noteq> []" "list_all (json_text m) vs"
  shows "\<exists>r. value_end r \<and>
    scan_all (Suc m) (BeginValue, [ParseArrayValue]) (join_comma vs) = Some (r, [ParseArrayValue])"
  using assms
proof (induction vs rule: induct_list012)
  case (2 v)
  then show ?case using json_text_inside [of m v "[ParseArrayValue]"] by auto
next
  case (3 v w vs)
  obtain r where r: "value_end r" "scan_all (Suc m) (BeginValue, [ParseArrayValue]) v = Some (r, [ParseArrayValue])"
    using 3(4) json_text_inside [of m v "[ParseArrayValue]"] by auto
  from 3(2,4) obtain t where "value_end t"
    "scan_all (Suc m) (BeginValue, [ParseArrayValue]) (join_comma (w # vs)) = Some (t, [ParseArrayValue])"
    by auto
  with r show ?case by (auto simp: scan_all_appendI value_end_comma isSpace_def)
qed simp

lemma json_text_head: "json_text m v \<Longrightarrow> v \<noteq> [] \<and> \<not> isSpace (hd v) \<and> hd v \<noteq> CHR ''}'' \<and> hd v \<noteq> CHR '']''"
proof (elim json_textE)
  fix s assume a: "scan_all m (BeginValue, []) v = Some s" "complete s"
  have d: "\<not> is_digit19 (CHR ''}'')" "\<not> is_digit19 (CHR '']'')" by (simp_all add: is_digit19_def)
  show ?thesis
  proof (cases v)
    case Nil with a show ?thesis by (auto simp: complete_def value_end_def number_end_def)
  next
    case (Cons c cs)
    with a(1) d show ?thesis
      by (auto simp: begin_value_def scan_err_def split: if_splits)
  qed
qed

lemma join_comma_head:
  "vs \<noteq> [] \<Longrightarrow> hd vs \<noteq> [] \<Longrightarrow> join_comma vs \<noteq> [] \<and> hd (join_comma vs) = hd (hd vs)"
  by (induction vs rule: induct_list012) auto

lemma json_text_array:
  assumes "list_all (json_text m) vs"
  shows "json_text (Suc m) (print_array vs)"
proof (cases "vs = []")
  case True
  then show ?thesis
    by (intro json_textI [of _ _ "(EndTop, [])"])
      (simp_all add: print_array_def begin_value_def isSpace_def push_ps_def pop_ps_def complete_def)
next
  case False
  from elems_run [OF this assms] obtain r where r: "value_end r"
    "scan_all (Suc m) (BeginValue, [ParseArrayValue]) (join_comma vs) = Some (r, [ParseArrayValue])"
    by auto
  have hd: "join_comma vs \<noteq> []" "hd (join_comma vs) \<noteq> CHR '']''" "\<not> isSpace (hd (join_comma vs))"
    using False assms json_text_head [of m "hd vs"] join_comma_head [of vs] by (cases vs; auto)+
  then have "scan_all (Suc m) (BeginValueOrEmpty, [ParseArrayValue]) (join_comma vs)
      = scan_all (Suc m) (BeginValue, [ParseArrayValue]) (join_comma vs)"
    by (cases "join_comma vs") (simp_all add: begin_value_def)
  moreover have "scan_step (Suc m) (CHR '']'') (r, [ParseArrayValue]) = ((EndTop, []), ScanEndArray)"
    using scan_step_value_end [OF r(1), of "CHR '']''"] by (simp add: is_delim_def isSpace_def pop_ps_def)
  ultimately show ?thesis using r
    by (intro json_textI [of _ _ "(EndTop, [])"])
      (simp_all add: print_array_def begin_value_def isSpace_def push_ps_def complete_def scan_all_appendI)
qed

section \<open>Splitting printed values\<close>

lemma skip_ws_nonspace: "bs = [] \<or> \<not> isSpace (hd bs) \<Longrightarrow> skip_ws bs = bs"
  by (cases bs) (auto simp: skip_ws_def)

lemma skip_ws_text: "json_text m v \<Longrightarrow> skip_ws (v @ w) = v @ w"
  using json_text_head [of m v] by (intro skip_ws_nonspace) (cases v; auto)

lemma take_value_quote: "is_delim c \<Longrightarrow> take_value (json_quote k @ c # w) = (json_quote k, c # w)"
  by (rule take_value_json_text [OF json_text_quote [of 0]]) auto

lemma member_list_step:
  assumes "json_text m v" "m \<le> maxNestingDepth" "d = CHR '','' \<or> d = CHR ''}''"
  shows "member_list (print_member (k, v) @ d # w) =
    (if d = CHR '','' then map_option ((#) (json_quote k, v)) (member_list w) else Some [(json_quote k, v)])"
proof -
  have k: "take_value (skip_ws (print_member (k, v) @ d # w)) = (json_quote k, CHR '':'' # v @ d # w)"
    using take_value_quote [of "CHR '':''" k "v @ d # w"]
    by (simp add: print_member_def skip_ws_text [OF json_text_quote [of 0]] is_delim_def)
  have v: "take_value (skip_ws (v @ d # w)) = (v, d # w)"
    using skip_ws_text [OF assms(1)] take_value_json_text [OF assms(1,2), of "d # w"] assms(3)
    by (auto simp: is_delim_def)
  have ns: "skip_ws (CHR '':'' # v @ d # w) = CHR '':'' # v @ d # w" "skip_ws (d # w) = d # w"
    using assms(3) by (auto intro: skip_ws_nonspace simp: isSpace_def)
  show ?thesis using assms(3) by (subst member_list.simps) (auto simp: k v ns)
qed

lemma member_list_print:
  "kvs \<noteq> [] \<Longrightarrow> list_all (\<lambda>kv. json_text m (snd kv)) kvs \<Longrightarrow> m \<le> maxNestingDepth \<Longrightarrow>
    member_list (join_comma (map print_member kvs) @ CHR ''}'' # w)
      = Some (map (\<lambda>(k, v). (json_quote k, v)) kvs)"
proof (induction kvs rule: induct_list012)
  case (2 kv)
  then show ?case using member_list_step [of m "snd kv" "CHR ''}''" "fst kv" w] by (cases kv) simp
next
  case (3 kv kw kvs)
  then show ?case
    using member_list_step [of m "snd kv" "CHR '',''" "fst kv"] by (cases kv) simp
qed simp

lemma json_kind_object [simp]: "json_kind (print_object kvs) = JObject"
  by (simp add: json_kind_def print_object_def)

lemma json_kind_quote [simp]: "json_kind (json_quote s) = JString"
  by (simp add: json_kind_def json_quote_def)

lemma json_kind_array [simp]: "json_kind (print_array vs) = JArray"
  by (simp add: json_kind_def print_array_def)

lemma json_kind_null [simp]: "json_kind ''null'' = JNull"
  by (simp add: json_kind_def)

lemma print_member_head: "print_member kv \<noteq> [] \<and> hd (print_member kv) = CHR 0x22"
  by (simp add: print_member_def json_quote_def)

lemma json_members_object:
  assumes "list_all (\<lambda>kv. json_text m (snd kv)) kvs" "m \<le> maxNestingDepth"
  shows "json_members (print_object kvs) = map (\<lambda>(k, v). (to_valid_utf8 k, v)) kvs"
proof (cases "kvs = []")
  case True
  then show ?thesis by (simp add: json_members_def print_object_def skip_ws_def isSpace_def)
next
  case False
  let ?t = "join_comma (map print_member kvs) @ ''}''"
  have "?t \<noteq> [] \<and> hd ?t = CHR 0x22"
    using False join_comma_head [of "map print_member kvs"] print_member_head [of "hd kvs"]
    by (cases kvs) auto
  then have "skip_ws ?t = ?t" "hd ?t \<noteq> CHR ''}''" "?t \<noteq> []"
    by (auto intro: skip_ws_nonspace simp: isSpace_def)
  with member_list_print [OF False assms, of "[]"] show ?thesis
    by (simp add: json_members_def print_object_def case_prod_unfold)
qed

lemma elem_list_print:
  "vs \<noteq> [] \<Longrightarrow> list_all (json_text m) vs \<Longrightarrow> m \<le> maxNestingDepth \<Longrightarrow>
    elem_list (join_comma vs @ CHR '']'' # w) = Some vs"
proof (induction vs rule: induct_list012)
  case (2 v)
  have "take_value (skip_ws (v @ CHR '']'' # w)) = (v, CHR '']'' # w)"
    using 2 take_value_json_text [of m v "CHR '']'' # w"] by (simp add: skip_ws_text is_delim_def)
  then show ?case by (subst elem_list.simps) (simp add: skip_ws_def isSpace_def)
next
  case (3 v u vs)
  have "take_value (skip_ws (v @ CHR '','' # r)) = (v, CHR '','' # r)" for r
    using 3(4,5) take_value_json_text [of m v "CHR '','' # r"] skip_ws_text [of m v]
    by (simp add: is_delim_def)
  with 3 show ?case by (subst elem_list.simps) (simp add: skip_ws_def isSpace_def)
qed simp

lemma json_elems_array:
  assumes "list_all (json_text m) vs" "m \<le> maxNestingDepth"
  shows "json_elems (print_array vs) = vs"
proof (cases "vs = []")
  case True
  then show ?thesis by (simp add: json_elems_def print_array_def skip_ws_def isSpace_def)
next
  case False
  let ?t = "join_comma vs @ '']''"
  have hd: "hd ?t \<noteq> CHR '']''" "\<not> isSpace (hd ?t)"
    using False assms(1) json_text_head [of m "hd vs"] join_comma_head [of vs] by (cases vs; auto)+
  then have "skip_ws ?t = ?t" by (auto intro: skip_ws_nonspace)
  with hd elem_list_print [OF False assms, of "[]"] show ?thesis
    by (simp add: json_elems_def print_array_def)
qed

lemma checkValid_text: "json_text m v \<Longrightarrow> m \<le> maxNestingDepth \<Longrightarrow> checkValid v"
  unfolding checkValid_def by (rule json_text_checkValid) (rule json_text_mono)

lemma dec_string_quote [simp]: "valid_utf8 s \<Longrightarrow> dec_string [json_quote s] v = (s, False)"
  by (simp add: valid_utf8_def)

lemma dec_strings_array [simp]:
  "list_all valid_utf8 ns \<Longrightarrow> dec_strings [print_array (map json_quote ns)] v = (Some ns, False)"
proof -
  assume ns: "list_all valid_utf8 ns"
  have "json_elems (print_array (map json_quote ns)) = map json_quote ns"
    by (rule json_elems_array [of 0]) (simp_all add: list.pred_map o_def list.pred_True)
  moreover have "\<forall>s \<in> set ns. dec_string [json_quote s] [] = (s, False)"
    using ns by (auto simp: list_all_iff valid_utf8_def)
  ultimately show ?thesis
    by (simp add: o_def list_ex_iff del: dec_string.simps cong: map_cong)
qed

lemma valid_utf8_Cons_ascii: "byte c < 128 \<Longrightarrow> valid_utf8 (c # cs) = valid_utf8 cs"
  by (simp add: valid_utf8_def)

lemma valid_utf8_Nil [simp]: "valid_utf8 []"
  by (simp add: valid_utf8_def)

lemma valid_utf8_ascii: "list_all (\<lambda>c. byte c < 128) s \<Longrightarrow> valid_utf8 s"
  by (induction s) (auto simp: valid_utf8_Cons_ascii)

lemma json_members_print:
  assumes "list_all (\<lambda>kv. json_text m (snd kv)) kvs" "m \<le> maxNestingDepth"
    "list_all (\<lambda>kv. valid_utf8 (fst kv)) kvs"
  shows "json_members (print_object kvs) = kvs"
proof -
  have "map (\<lambda>(k, v). (to_valid_utf8 k, v)) kvs = kvs"
    using assms(3) by (induction kvs) (auto simp: valid_utf8_def)
  then show ?thesis using json_members_object [OF assms(1,2)] by simp
qed

lemma dec_struct_print:
  assumes "list_all (\<lambda>kv. json_text m (snd kv)) kvs" "m \<le> maxNestingDepth"
    "list_all (\<lambda>kv. valid_utf8 (fst kv)) kvs"
  shows "dec_struct upd (print_object kvs) x = upd kvs x"
  by (simp add: dec_struct_def json_members_print [OF assms])

lemma unmarshal_print:
  assumes "list_all (\<lambda>kv. json_text m (snd kv)) kvs" "m < maxNestingDepth"
    "list_all (\<lambda>kv. valid_utf8 (fst kv)) kvs"
  shows "unmarshal (dec_struct upd) z (print_object kvs) =
    (case upd kvs z of (x, e) \<Rightarrow> if e then Inl UnmarshalTypeError else Inr x)"
proof -
  have "json_text (Suc m) (print_object kvs)" by (rule json_text_object [OF assms(1)])
  then have "checkValid (print_object kvs)" "skip_ws (print_object kvs) = print_object kvs"
    using assms(2) skip_ws_text [of "Suc m" "print_object kvs" "[]"] by (auto intro: checkValid_text)
  then show ?thesis
    using dec_struct_print [OF assms(1) _ assms(3), of upd z] assms(2) by (simp add: unmarshal_def)
qed

section \<open>Decoded strings\<close>

text \<open>Every string that comes out of the decoder is well-formed UTF-8, so that it is printed and read
  back unchanged.\<close>

lemma valid_utf8_rune:
  assumes "utf8_len bs = Some n" "valid_utf8 w"
  shows "valid_utf8 (take n bs @ w)"
proof -
  obtain c cs where bs: "bs = c # cs" using assms(1) by (cases bs) auto
  from utf8_len_bounds [OF assms(1)] bs obtain k where n: "n = Suc k" "k \<le> length cs" by (cases n) auto
  have "utf8_len (c # take k cs @ w) = Some n" using utf8_len_take [OF assms(1), of w] bs n by simp
  then show ?thesis using assms(2) bs n by (simp add: valid_utf8_def del: utf8_len.simps)
qed

lemma valid_utf8_error: "valid_utf8 w \<Longrightarrow> valid_utf8 (rune_error @ w)"
  using valid_utf8_rune [of "rune_error" 3 w] by (simp add: rune_error_def utf8_second_ok_def utf8_cont_def)

lemma byte_char_of: "n < 256 \<Longrightarrow> byte (char_of n) = n"
  by simp

lemma utf8_len_encode: "utf8_len (utf8_encode r) = Some (length (utf8_encode r))"
proof -
  consider "r < 0x80" | "0x80 \<le> r" "r < 0x800" | "0x800 \<le> r" "0xD800 \<le> r \<and> r \<le> 0xDFFF \<or> 0x10FFFF < r"
    | "0x800 \<le> r" "r < 0x10000" "\<not> (0xD800 \<le> r \<and> r \<le> 0xDFFF)" | "0x10000 \<le> r" "r \<le> 0x10FFFF" by linarith
  then show ?thesis
  proof cases
    case 2
    then have "2 \<le> r div 64" "r div 64 < 32" by linarith+
    with 2 show ?thesis by (simp add: utf8_encode_def utf8_cont_def byte_char_of Let_def)
  next
    case 3
    then show ?thesis by (auto simp: utf8_encode_def rune_error_def utf8_second_ok_def utf8_cont_def)
  next
    case 4
    then have d: "r div 4096 < 16" "r div 64 mod 64 < 64" "r mod 64 < 64" by linarith+
    have q: "r div 4096 = r div 64 div 64" by (simp add: div_mult2_eq [symmetric])
    have "32 \<le> r div 64" "r div 64 < 864 \<or> 896 \<le> r div 64" using 4 by linarith+
    then have "r div 4096 = 0 \<Longrightarrow> 32 \<le> r div 64 mod 64" "r div 4096 = 13 \<Longrightarrow> r div 64 mod 64 \<le> 31"
      using div_mult_mod_eq [of "r div 64" 64] unfolding q by linarith+
    with 4 d show ?thesis
      by (auto simp: utf8_encode_def utf8_cont_def utf8_second_ok_def byte_char_of Let_def)
  next
    case 5
    then have d: "r div 262144 \<le> 4" "r div 4096 mod 64 < 64" "r div 64 mod 64 < 64" "r mod 64 < 64" by linarith+
    have q: "r div 262144 = r div 4096 div 64" by (simp add: div_mult2_eq [symmetric])
    have "16 \<le> r div 4096" "r div 4096 < 272" using 5 by linarith+
    then have "r div 262144 = 0 \<Longrightarrow> 16 \<le> r div 4096 mod 64" "r div 262144 = 4 \<Longrightarrow> r div 4096 mod 64 \<le> 15"
      using div_mult_mod_eq [of "r div 4096" 64] unfolding q by linarith+
    with 5 d show ?thesis
      by (auto simp: utf8_encode_def utf8_cont_def utf8_second_ok_def byte_char_of Let_def)
  qed (simp add: utf8_encode_def byte_char_of)
qed

lemma valid_utf8_encode: "valid_utf8 w \<Longrightarrow> valid_utf8 (utf8_encode r @ w)"
  using valid_utf8_rune [OF utf8_len_encode [of r]] by simp

lemma unquote_body_u:
  assumes "unquote_body (CHR 0x5C # CHR ''u'' # ds) = Some s" "getu4 (CHR 0x5C # CHR ''u'' # ds) = Some r"
  shows "\<exists>k t x. unquote_body (drop k ds) = Some t \<and> (s = utf8_encode x @ t \<or> s = rune_error @ t)"
proof -
  have e: "unquote_body (CHR 0x5C # CHR ''u'' # ds) =
     (if is_surrogate r then
        (case surrogate_pair r (getu4 (drop 4 ds)) of
           Some p \<Rightarrow> map_option ((@) (utf8_encode p)) (unquote_body (drop 10 ds))
         | None \<Rightarrow> map_option ((@) rune_error) (unquote_body (drop 4 ds)))
      else map_option ((@) (utf8_encode r)) (unquote_body (drop 4 ds)))"
    using assms(2) by simp
  have m: "map_option ((@) a) (unquote_body (drop k ds)) = Some s \<Longrightarrow>
      \<exists>t. unquote_body (drop k ds) = Some t \<and> s = a @ t" for a k by auto
  show ?thesis
  proof (cases "is_surrogate r")
    case True
    then show ?thesis
      using assms(1) m [of rune_error 4] m [of "utf8_encode (the (surrogate_pair r (getu4 (drop 4 ds))))" 10] unfolding e
      by (cases "surrogate_pair r (getu4 (drop 4 ds))") (simp_all only: if_True option.case option.sel, blast+)
  next
    case False
    then show ?thesis using assms(1) m [of "utf8_encode r" 4] unfolding e by (simp only: if_False) blast
  qed
qed

lemma unquote_body_escape:
  assumes "unquote_body (CHR 0x5C # d # ds) = Some s" "d \<noteq> CHR ''u''"
  shows "\<exists>x t. unquote_body ds = Some t \<and> s = x # t \<and> byte x < 128"
proof -
  have m: "map_option ((#) x) (unquote_body ds) = Some s \<Longrightarrow> \<exists>t. unquote_body ds = Some t \<and> s = x # t" for x by auto
  have "\<exists>x \<in> set [d, CHR 0x08, CHR 0x0C, CHR 0x0A, CHR 0x0D, CHR 0x09]. (x = d \<longrightarrow> d \<in> set [CHR 0x22, CHR 0x5C, CHR ''/'', CHR 0x27]) \<and>
      map_option ((#) x) (unquote_body ds) = Some s"
    using assms(1) unfolding unquote_body.simps(2) if_True list.case using assms(2)
    by (simp del: unquote_body.simps split: if_splits)
  then obtain x where x: "x \<in> set [d, CHR 0x08, CHR 0x0C, CHR 0x0A, CHR 0x0D, CHR 0x09]"
    "x = d \<Longrightarrow> d \<in> set [CHR 0x22, CHR 0x5C, CHR ''/'', CHR 0x27]" "map_option ((#) x) (unquote_body ds) = Some s" by blast
  then have "byte x < 128" by auto
  with m [OF x(3)] show ?thesis by blast
qed

lemma unquote_body_valid: "unquote_body bs = Some s \<Longrightarrow> valid_utf8 s"
proof (induction "length bs" arbitrary: bs s rule: less_induct)
  case less
  show ?case
  proof (cases bs)
    case (Cons c cs)
    have IH: "length ys < length bs \<Longrightarrow> unquote_body ys = Some t \<Longrightarrow> valid_utf8 t" for ys t by (rule less.hyps)
    note P = less.prems [unfolded Cons unquote_body.simps(2)]
    show ?thesis
    proof (cases "c = CHR 0x5C")
      case True
      then obtain d ds where cs: "cs = d # ds" using P by (cases cs) auto
      have one: "valid_utf8 s" if "unquote_body ds = Some t" "s = x # t" "byte x < 128" for t x
        using IH [of ds t] that cs Cons by (simp add: valid_utf8_Cons_ascii)
      have many: "valid_utf8 s" if "unquote_body (drop k ds) = Some t" "s = utf8_encode x @ t \<or> s = rune_error @ t" for k t x
        using IH [of "drop k ds" t] that cs Cons valid_utf8_encode valid_utf8_error by auto
      show ?thesis
      proof (cases "d = CHR ''u''")
        case u: True
        then obtain r where r: "getu4 (c # d # ds) = Some r" using P True cs by (cases "getu4 (c # d # ds)") simp_all
        obtain k t x where "unquote_body (drop k ds) = Some t" "s = utf8_encode x @ t \<or> s = rune_error @ t"
          using unquote_body_u [OF less.prems [unfolded Cons cs True u] r [unfolded True u]] by blast
        then show ?thesis by (rule many)
      next
        case u: False
        obtain x t where "unquote_body ds = Some t" "s = x # t" "byte x < 128"
          using unquote_body_escape [OF less.prems [unfolded Cons cs True] u] by blast
        then show ?thesis by (rule one)
      qed
    next
      case False
      show ?thesis
      proof (cases "byte c < 128")
        case True
        then obtain t where "unquote_body cs = Some t" "s = c # t"
          using P False by (auto simp del: unquote_body.simps split: if_splits)
        then show ?thesis using IH [of cs t] Cons True by (simp add: valid_utf8_Cons_ascii)
      next
        case high: False
        show ?thesis
        proof (cases "utf8_len (c # cs)")
          case None
          then obtain t where "unquote_body cs = Some t" "s = rune_error @ t"
            using P False high by (auto simp del: unquote_body.simps utf8_len.simps split: if_splits)
          then show ?thesis using IH [of cs t] Cons by (simp add: valid_utf8_error)
        next
          case (Some n)
          then obtain t where "unquote_body (drop (n - 1) cs) = Some t" "s = take n (c # cs) @ t"
            using P False high by (auto simp del: unquote_body.simps utf8_len.simps take_Suc_Cons split: if_splits)
          then show ?thesis using IH [of "drop (n - 1) cs" t] Cons valid_utf8_rune [OF Some] by simp
        qed
      qed
    qed
  qed (use less.prems in simp)
qed

lemma dec_string_valid: "valid_utf8 v \<Longrightarrow> valid_utf8 (fst (dec_string raws v))"
  by (induction raws arbitrary: v) (auto simp: unquote_def split: jkind.splits option.splits if_splits dest: unquote_body_valid)

lemma valid_utf8_append: "valid_utf8 s \<Longrightarrow> valid_utf8 w \<Longrightarrow> valid_utf8 (s @ w)"
proof (induction "length s" arbitrary: s rule: less_induct)
  case less
  show ?case
  proof (cases s)
    case (Cons c cs)
    show ?thesis
    proof (cases "utf8_len s")
      case None
      then have "s = rune_error @ to_valid_utf8 cs" using less.prems(1) Cons by (simp add: valid_utf8_def del: utf8_len.simps)
      then have "utf8_len s = utf8_len (rune_error @ to_valid_utf8 cs)" by simp
      also have "\<dots> = Some 3" by (simp add: rune_error_def utf8_second_ok_def utf8_cont_def)
      finally show ?thesis using None by simp
    next
      case (Some n)
      have n: "1 \<le> n" "n \<le> length s" using utf8_len_bounds [OF Some] by auto
      then have d: "drop (n - 1) cs = drop n s" using Cons by (cases n) simp_all
      have "take n s @ to_valid_utf8 (drop n s) = s" using less.prems(1) Cons Some d by (simp add: valid_utf8_def del: utf8_len.simps)
      then have "valid_utf8 (drop n s)" unfolding valid_utf8_def by (metis append_take_drop_id same_append_eq)
      moreover have "length (drop n s) < length s" using n by simp
      ultimately have "valid_utf8 (drop n s @ w)" using less.hyps less.prems(2) by blast
      from valid_utf8_rune [OF Some this] show ?thesis by (simp add: append.assoc [symmetric] del: append.assoc)
    qed
  qed (use less.prems in simp)
qed

end
