(* ===== verification/Wire.thy ===== *)
theory Wire
  imports Json_Codec
begin

text \<open>
  Package \<open>internal/wire\<close>: the message envelope (\<open>envelope.go\<close>), the control frames
  (\<open>control.go\<close>) and the canonical form that is signed (\<open>codec.go\<close>), with the JSON
  printing and reading that \<open>json.Marshal\<close> and \<open>json.Unmarshal\<close> derive from the struct
  tags.  An empty body is Go's nil \<open>json.RawMessage\<close>.
\<close>

section \<open>Envelopes and control frames\<close>

definition KindMsg :: string where
  "KindMsg = ''msg''"

definition KindBroadcast :: string where
  "KindBroadcast = ''broadcast''"

record envelope =
  env_ProtocolVersion :: string
  env_ID :: string
  env_From :: string
  env_To :: string
  env_TS :: string
  env_Source :: string
  env_Kind :: string
  env_Body :: bytes
  env_HMAC :: string

definition ControlRegister :: string where
  "ControlRegister = ''register''"

definition ControlAck :: string where
  "ControlAck = ''ack''"

definition ControlPeers :: string where
  "ControlPeers = ''peers''"

definition ControlDeliver :: string where
  "ControlDeliver = ''deliver''"

record register_frame =
  reg_ProtocolVersion :: string
  reg_Type :: string
  reg_Token :: string
  reg_Name :: string

record ack_frame =
  ack_ProtocolVersion :: string
  ack_Type :: string
  ack_ID :: string

record peers_frame =
  peers_ProtocolVersion :: string
  peers_Type :: string
  peers_Names :: "string list option"

record deliver_frame =
  del_ProtocolVersion :: string
  del_Type :: string
  del_DeliveryKey :: string
  del_Envelope :: envelope

definition zero_envelope :: envelope where
  "zero_envelope = \<lparr>env_ProtocolVersion = [], env_ID = [], env_From = [], env_To = [], env_TS = [],
     env_Source = [], env_Kind = [], env_Body = [], env_HMAC = []\<rparr>"

section \<open>codec.go\<close>

definition ProtocolVersion :: string where
  "ProtocolVersion = ''v1''"

definition MaxFrameBytes :: nat where
  "MaxFrameBytes = 2 ^ 20"

datatype wire_error = ErrUnsupportedVersion string | CanonicalError

definition CheckVersion :: "string \<Rightarrow> (wire_error, unit) result" where
  "CheckVersion v = (if v \<noteq> ProtocolVersion then Inl (ErrUnsupportedVersion v) else Inr ())"

text \<open>Marshalling a \<open>json.RawMessage\<close>: nil prints \<open>null\<close>, anything else is compacted.\<close>

definition marshal_raw :: "bytes \<Rightarrow> bytes option" where
  "marshal_raw b = (if b = [] then Some ''null'' else json_compact b)"

definition canonicalEnvelope :: "envelope \<Rightarrow> bytes \<Rightarrow> (string \<times> bytes) list" where
  "canonicalEnvelope env body =
     [(''protocol_version'', json_quote (env_ProtocolVersion env)),
      (''id'', json_quote (env_ID env)),
      (''from'', json_quote (env_From env)),
      (''to'', json_quote (env_To env)),
      (''ts'', json_quote (env_TS env)),
      (''source'', json_quote (env_Source env)),
      (''kind'', json_quote (env_Kind env)),
      (''body'', body)]"

definition Canonical :: "envelope \<Rightarrow> (wire_error, bytes) result" where
  "Canonical env =
     (let body = (if length (env_Body env) = 0 then ''null'' else env_Body env) in
      case marshal_raw body of
        None \<Rightarrow> Inl CanonicalError
      | Some b \<Rightarrow> Inr (print_object (canonicalEnvelope env b)))"

text \<open>
  What the WebSocket library, which is not part of this repository, reports of a write: it
  succeeded, it failed, or it failed after the frame had been sent.
\<close>

datatype write_outcome = Written | WriteFailed | FailedAfterSend

section \<open>Marshalling and unmarshalling the frames\<close>

definition marshal_envelope :: "envelope \<Rightarrow> bytes option" where
  "marshal_envelope env =
     map_option (\<lambda>b. print_object (canonicalEnvelope env b @ [(''hmac'', json_quote (env_HMAC env))]))
       (marshal_raw (env_Body env))"

definition marshal_register :: "register_frame \<Rightarrow> bytes" where
  "marshal_register r = print_object
     [(''protocol_version'', json_quote (reg_ProtocolVersion r)), (''type'', json_quote (reg_Type r)),
      (''token'', json_quote (reg_Token r)), (''name'', json_quote (reg_Name r))]"

definition marshal_ack :: "ack_frame \<Rightarrow> bytes" where
  "marshal_ack a = print_object
     [(''protocol_version'', json_quote (ack_ProtocolVersion a)), (''type'', json_quote (ack_Type a)),
      (''id'', json_quote (ack_ID a))]"

definition marshal_strings :: "string list option \<Rightarrow> bytes" where
  "marshal_strings ns = (case ns of None \<Rightarrow> ''null'' | Some xs \<Rightarrow> print_array (map json_quote xs))"

definition marshal_peers :: "peers_frame \<Rightarrow> bytes" where
  "marshal_peers p = print_object
     [(''protocol_version'', json_quote (peers_ProtocolVersion p)), (''type'', json_quote (peers_Type p)),
      (''names'', marshal_strings (peers_Names p))]"

definition marshal_deliver :: "deliver_frame \<Rightarrow> bytes option" where
  "marshal_deliver d =
     map_option (\<lambda>e. print_object
       [(''protocol_version'', json_quote (del_ProtocolVersion d)), (''type'', json_quote (del_Type d)),
        (''delivery_key'', json_quote (del_DeliveryKey d)), (''envelope'', e)])
       (marshal_envelope (del_Envelope d))"

definition envelope_names :: "string list" where
  "envelope_names = [''protocol_version'', ''id'', ''from'', ''to'', ''ts'', ''source'', ''kind'', ''body'', ''hmac'']"

definition upd_envelope :: "(string \<times> bytes) list \<Rightarrow> envelope \<Rightarrow> envelope \<times> bool" where
  "upd_envelope ms env =
     (let r = field_raws envelope_names ms;
          pv = dec_string (r ''protocol_version'') (env_ProtocolVersion env);
          i = dec_string (r ''id'') (env_ID env);
          f = dec_string (r ''from'') (env_From env);
          t = dec_string (r ''to'') (env_To env);
          ts = dec_string (r ''ts'') (env_TS env);
          s = dec_string (r ''source'') (env_Source env);
          k = dec_string (r ''kind'') (env_Kind env);
          h = dec_string (r ''hmac'') (env_HMAC env)
      in (\<lparr>env_ProtocolVersion = fst pv, env_ID = fst i, env_From = fst f, env_To = fst t,
           env_TS = fst ts, env_Source = fst s, env_Kind = fst k,
           env_Body = dec_raw (r ''body'') (env_Body env), env_HMAC = fst h\<rparr>,
          list_ex snd [pv, i, f, t, ts, s, k, h]))"

definition unmarshal_envelope :: "bytes \<Rightarrow> (json_error, envelope) result" where
  "unmarshal_envelope = unmarshal (dec_struct upd_envelope) zero_envelope"

definition register_names :: "string list" where
  "register_names = [''protocol_version'', ''type'', ''token'', ''name'']"

definition upd_register :: "(string \<times> bytes) list \<Rightarrow> register_frame \<Rightarrow> register_frame \<times> bool" where
  "upd_register ms x =
     (let r = field_raws register_names ms;
          pv = dec_string (r ''protocol_version'') (reg_ProtocolVersion x);
          t = dec_string (r ''type'') (reg_Type x);
          k = dec_string (r ''token'') (reg_Token x);
          n = dec_string (r ''name'') (reg_Name x)
      in (\<lparr>reg_ProtocolVersion = fst pv, reg_Type = fst t, reg_Token = fst k, reg_Name = fst n\<rparr>,
          list_ex snd [pv, t, k, n]))"

definition unmarshal_register :: "bytes \<Rightarrow> (json_error, register_frame) result" where
  "unmarshal_register = unmarshal (dec_struct upd_register)
     \<lparr>reg_ProtocolVersion = [], reg_Type = [], reg_Token = [], reg_Name = []\<rparr>"

definition ack_names :: "string list" where
  "ack_names = [''protocol_version'', ''type'', ''id'']"

definition upd_ack :: "(string \<times> bytes) list \<Rightarrow> ack_frame \<Rightarrow> ack_frame \<times> bool" where
  "upd_ack ms x =
     (let r = field_raws ack_names ms;
          pv = dec_string (r ''protocol_version'') (ack_ProtocolVersion x);
          t = dec_string (r ''type'') (ack_Type x);
          i = dec_string (r ''id'') (ack_ID x)
      in (\<lparr>ack_ProtocolVersion = fst pv, ack_Type = fst t, ack_ID = fst i\<rparr>, list_ex snd [pv, t, i]))"

definition unmarshal_ack :: "bytes \<Rightarrow> (json_error, ack_frame) result" where
  "unmarshal_ack = unmarshal (dec_struct upd_ack)
     \<lparr>ack_ProtocolVersion = [], ack_Type = [], ack_ID = []\<rparr>"

definition peers_names :: "string list" where
  "peers_names = [''protocol_version'', ''type'', ''names'']"

definition upd_peers :: "(string \<times> bytes) list \<Rightarrow> peers_frame \<Rightarrow> peers_frame \<times> bool" where
  "upd_peers ms x =
     (let r = field_raws peers_names ms;
          pv = dec_string (r ''protocol_version'') (peers_ProtocolVersion x);
          t = dec_string (r ''type'') (peers_Type x);
          n = dec_strings (r ''names'') (peers_Names x)
      in (\<lparr>peers_ProtocolVersion = fst pv, peers_Type = fst t, peers_Names = fst n\<rparr>,
          snd pv \<or> snd t \<or> snd n))"

definition unmarshal_peers :: "bytes \<Rightarrow> (json_error, peers_frame) result" where
  "unmarshal_peers = unmarshal (dec_struct upd_peers)
     \<lparr>peers_ProtocolVersion = [], peers_Type = [], peers_Names = None\<rparr>"

definition deliver_names :: "string list" where
  "deliver_names = [''protocol_version'', ''type'', ''delivery_key'', ''envelope'']"

text \<open>A repeated \<open>envelope\<close> member is decoded into the envelope read so far.\<close>

fun dec_envelopes :: "bytes list \<Rightarrow> envelope \<Rightarrow> envelope \<times> bool" where
  "dec_envelopes [] env = (env, False)"
| "dec_envelopes (raw # raws) env =
     (case dec_struct upd_envelope raw env of (env', e) \<Rightarrow>
        case dec_envelopes raws env' of (env'', e') \<Rightarrow> (env'', e \<or> e'))"

definition upd_deliver :: "(string \<times> bytes) list \<Rightarrow> deliver_frame \<Rightarrow> deliver_frame \<times> bool" where
  "upd_deliver ms x =
     (let r = field_raws deliver_names ms;
          pv = dec_string (r ''protocol_version'') (del_ProtocolVersion x);
          t = dec_string (r ''type'') (del_Type x);
          k = dec_string (r ''delivery_key'') (del_DeliveryKey x);
          e = dec_envelopes (r ''envelope'') (del_Envelope x)
      in (\<lparr>del_ProtocolVersion = fst pv, del_Type = fst t, del_DeliveryKey = fst k, del_Envelope = fst e\<rparr>,
          snd pv \<or> snd t \<or> snd k \<or> snd e))"

definition zero_deliver :: deliver_frame where
  "zero_deliver = \<lparr>del_ProtocolVersion = [], del_Type = [], del_DeliveryKey = [], del_Envelope = zero_envelope\<rparr>"

definition unmarshal_deliver :: "bytes \<Rightarrow> (json_error, deliver_frame) result" where
  "unmarshal_deliver = unmarshal (dec_struct upd_deliver) zero_deliver"

text \<open>\<open>ControlTypeOf\<close> peeks at the \<open>type\<close> member through \<open>rawControl\<close>.\<close>

definition upd_rawControl :: "(string \<times> bytes) list \<Rightarrow> string \<Rightarrow> string \<times> bool" where
  "upd_rawControl ms t = dec_string (field_raws [''type''] ms ''type'') t"

definition ControlTypeOf :: "bytes \<Rightarrow> (json_error, string) result" where
  "ControlTypeOf b = (case unmarshal (dec_struct upd_rawControl) [] b of Inl e \<Rightarrow> Inl e | Inr t \<Rightarrow> Inr t)"


section \<open>Well-formed text\<close>

text \<open>
  The string fields of an envelope that hold well-formed UTF-8 (every string that came
  out of \<open>json.Unmarshal\<close> does), and bodies whose nesting leaves room for the
  \<open>d\<close> levels of the frame around them.
\<close>

definition wf_strings :: "envelope \<Rightarrow> bool" where
  "wf_strings env \<longleftrightarrow> list_all valid_utf8
     [env_ProtocolVersion env, env_ID env, env_From env, env_To env, env_TS env, env_Source env,
      env_Kind env, env_HMAC env]"

definition body_fits :: "nat \<Rightarrow> bytes \<Rightarrow> bool" where
  "body_fits d b \<longleftrightarrow> b = [] \<or> checkValid_at (maxNestingDepth - d) b"

definition norm_body :: "bytes \<Rightarrow> bytes" where
  "norm_body b = (case marshal_raw b of None \<Rightarrow> b | Some b' \<Rightarrow> b')"

definition norm_envelope :: "envelope \<Rightarrow> envelope" where
  "norm_envelope env = env\<lparr>env_Body := norm_body (env_Body env)\<rparr>"

lemma body_fits_text:
  assumes "body_fits d b"
  shows "marshal_raw b = Some (norm_body b)" "json_text (maxNestingDepth - d) (norm_body b)"
proof -
  show a: "marshal_raw b = Some (norm_body b)"
  proof (cases "b = []")
    case False
    with assms obtain v where "json_compact_at (maxNestingDepth - d) b = Some v"
      by (auto simp: body_fits_def simp flip: json_compact_at_iff)
    then show ?thesis
      using False json_compact_mono [of _ b v maxNestingDepth]
      by (simp add: marshal_raw_def norm_body_def json_compact_def)
  qed (simp add: marshal_raw_def norm_body_def)
  show "json_text (maxNestingDepth - d) (norm_body b)"
  proof (cases "b = []")
    case False
    with assms obtain v where v: "json_compact_at (maxNestingDepth - d) b = Some v"
      by (auto simp: body_fits_def simp flip: json_compact_at_iff)
    then have "norm_body b = v"
      using False a json_compact_mono [of _ b v maxNestingDepth]
      by (simp add: marshal_raw_def json_compact_def)
    with json_compact_text [OF v] show ?thesis by simp
  qed (simp add: norm_body_def marshal_raw_def)
qed

lemma norm_body_idem: "marshal_raw b = Some b' \<Longrightarrow> marshal_raw b' = Some b'"
proof -
  assume a: "marshal_raw b = Some b'"
  have "json_compact b' = Some b'"
  proof (cases "b = []")
    case True
    with a have "b' = ''null''" by (simp add: marshal_raw_def)
    moreover have "escaped ''null''" by (simp add: escaped_def is_html_def starts_2028_Cons)
    moreover from json_text_null obtain s
      where "scan_all maxNestingDepth (BeginValue, []) ''null'' = Some s" "complete s" by (rule json_textE)
    ultimately show ?thesis
      by (simp add: json_compact_def json_compact_at_def compact_from_escaped
          del: scan_all.simps compact_from.simps)
  next
    case False
    with a show ?thesis by (auto simp: marshal_raw_def json_compact_def intro: json_compact_idem)
  qed
  then show ?thesis by (cases "b' = []") (auto simp: marshal_raw_def json_compact_def
      json_compact_at_def scan_eof_def begin_value_def isSpace_def)
qed

lemma body_fits_norm: "body_fits d b \<Longrightarrow> body_fits d (norm_body b)"
  using body_fits_text(2) [of d b] by (simp add: body_fits_def json_text_checkValid)

lemma body_fits_less: "body_fits d b \<Longrightarrow> d' \<le> d \<Longrightarrow> body_fits d' b"
proof -
  assume a: "body_fits d b" "d' \<le> d"
  show ?thesis
  proof (cases "b = []")
    case False
    with a(1) obtain v where "json_compact_at (maxNestingDepth - d) b = Some v"
      by (auto simp: body_fits_def simp flip: json_compact_at_iff)
    with a(2) have "json_compact_at (maxNestingDepth - d') b = Some v"
      by (auto intro: json_compact_mono)
    then show ?thesis by (auto simp: body_fits_def simp flip: json_compact_at_iff)
  qed (simp add: body_fits_def)
qed

lemma Canonical_eq:
  "Canonical env = (case marshal_raw (env_Body env) of
      None \<Rightarrow> Inl CanonicalError | Some b \<Rightarrow> Inr (print_object (canonicalEnvelope env b)))"
  using norm_body_idem [of "[]" "''null''"] by (auto simp: Canonical_def marshal_raw_def Let_def)

section \<open>Round trips\<close>

lemmas names_defs = envelope_names_def register_names_def ack_names_def peers_names_def deliver_names_def

lemma names_utf8 [simp]:
  "valid_utf8 ''protocol_version''" "valid_utf8 ''id''" "valid_utf8 ''from''" "valid_utf8 ''to''"
  "valid_utf8 ''ts''" "valid_utf8 ''source''" "valid_utf8 ''kind''" "valid_utf8 ''body''"
  "valid_utf8 ''hmac''" "valid_utf8 ''type''" "valid_utf8 ''token''" "valid_utf8 ''name''"
  "valid_utf8 ''names''" "valid_utf8 ''delivery_key''" "valid_utf8 ''envelope''" "valid_utf8 ''v1''"
  "valid_utf8 ''register''" "valid_utf8 ''ack''" "valid_utf8 ''peers''" "valid_utf8 ''deliver''"
  by (simp_all add: valid_utf8_Cons_ascii)

lemma upd_envelope_print:
  assumes "wf_strings env" "upd = canonicalEnvelope env b @ [(''hmac'', json_quote (env_HMAC env))]"
  shows "upd_envelope upd z = (env\<lparr>env_Body := b\<rparr>, False)"
proof -
  have r: "field_raws envelope_names upd f =
      (if f = ''protocol_version'' then [json_quote (env_ProtocolVersion env)]
       else if f = ''id'' then [json_quote (env_ID env)]
       else if f = ''from'' then [json_quote (env_From env)]
       else if f = ''to'' then [json_quote (env_To env)]
       else if f = ''ts'' then [json_quote (env_TS env)]
       else if f = ''source'' then [json_quote (env_Source env)]
       else if f = ''kind'' then [json_quote (env_Kind env)]
       else if f = ''body'' then [b]
       else if f = ''hmac'' then [json_quote (env_HMAC env)] else [])" for f
    unfolding assms(2) by (simp add: field_raws_def find_field_def canonicalEnvelope_def names_defs)
  show ?thesis
    using assms(1) by (simp add: upd_envelope_def r Let_def wf_strings_def dec_raw_def
        del: dec_string.simps)
qed

lemma envelope_members_text:
  "json_text m b \<Longrightarrow> list_all (\<lambda>kv. json_text m (snd kv) \<and> valid_utf8 (fst kv))
     (canonicalEnvelope env b @ [(''hmac'', json_quote (env_HMAC env))])"
  by (simp add: canonicalEnvelope_def)

lemma list_all_conj: "list_all (\<lambda>x. P x \<and> Q x) xs \<longleftrightarrow> list_all P xs \<and> list_all Q xs"
  by (auto simp: list_all_iff)

lemma marshal_envelope_text:
  assumes "body_fits (Suc d) (env_Body env)" "Suc d \<le> maxNestingDepth"
  obtains fr where "marshal_envelope env = Some fr" "json_text (maxNestingDepth - d) fr"
    "fr = print_object (canonicalEnvelope env (norm_body (env_Body env)) @ [(''hmac'', json_quote (env_HMAC env))])"
proof -
  let ?kvs = "canonicalEnvelope env (norm_body (env_Body env)) @ [(''hmac'', json_quote (env_HMAC env))]"
  from body_fits_text [OF assms(1)] have b: "marshal_raw (env_Body env) = Some (norm_body (env_Body env))"
    "json_text (maxNestingDepth - Suc d) (norm_body (env_Body env))" by auto
  from json_text_object [of "maxNestingDepth - Suc d" ?kvs] envelope_members_text [OF b(2)] assms(2)
  have "json_text (maxNestingDepth - d) (print_object ?kvs)"
    by (simp add: list_all_conj Suc_diff_Suc)
  with b that show ?thesis by (simp add: marshal_envelope_def)
qed

lemma dec_struct_envelope:
  assumes "wf_strings env" "body_fits d (env_Body env)" "marshal_envelope env = Some fr"
  shows "dec_struct upd_envelope fr z = (norm_envelope env, False)"
proof -
  let ?kvs = "canonicalEnvelope env (norm_body (env_Body env)) @ [(''hmac'', json_quote (env_HMAC env))]"
  from body_fits_text [OF assms(2)] have b: "marshal_raw (env_Body env) = Some (norm_body (env_Body env))"
    "json_text (maxNestingDepth - d) (norm_body (env_Body env))" by auto
  with assms(3) have "fr = print_object ?kvs" by (simp add: marshal_envelope_def)
  with dec_struct_print [of "maxNestingDepth - d" ?kvs upd_envelope z] envelope_members_text [OF b(2)]
    upd_envelope_print [OF assms(1) refl, of "norm_body (env_Body env)" z]
  show ?thesis by (simp add: list_all_conj norm_envelope_def)
qed

lemma unmarshal_envelope_print:
  assumes "wf_strings env" "body_fits 1 (env_Body env)"
  shows "\<exists>fr. marshal_envelope env = Some fr \<and> unmarshal_envelope fr = Inr (norm_envelope env)"
proof -
  obtain fr where fr: "marshal_envelope env = Some fr" "json_text maxNestingDepth fr"
    using assms(2) by (auto intro: marshal_envelope_text [of 0] simp: maxNestingDepth_def)
  then have "checkValid fr" "skip_ws fr = fr"
    using skip_ws_text [OF fr(2), of "[]"] by (auto intro: checkValid_text)
  with fr(1) dec_struct_envelope [OF assms fr(1)] show ?thesis
    by (simp add: unmarshal_envelope_def unmarshal_def)
qed

lemma norm_envelope_simps [simp]:
  "env_HMAC (norm_envelope env) = env_HMAC env" "env_ID (norm_envelope env) = env_ID env"
  "env_From (norm_envelope env) = env_From env" "env_To (norm_envelope env) = env_To env"
  "env_Kind (norm_envelope env) = env_Kind env" "env_Body (norm_envelope env) = norm_body (env_Body env)"
  "env_Source (norm_envelope env) = env_Source env" "env_TS (norm_envelope env) = env_TS env"
  "env_ProtocolVersion (norm_envelope env) = env_ProtocolVersion env"
  by (simp_all add: norm_envelope_def)

lemma wf_strings_norm [simp]: "wf_strings (norm_envelope env) = wf_strings env"
  by (simp add: wf_strings_def)

lemma Canonical_norm: "Canonical (norm_envelope env) = Canonical env"
proof (cases "marshal_raw (env_Body env)")
  case (Some b)
  then have "norm_body (env_Body env) = b" "marshal_raw b = Some b"
    by (simp_all add: norm_body_def norm_body_idem)
  with Some show ?thesis by (simp add: Canonical_eq canonicalEnvelope_def)
qed (simp add: norm_envelope_def norm_body_def)

lemma deliver_members_text:
  "json_text m e \<Longrightarrow> list_all (\<lambda>kv. json_text m (snd kv) \<and> valid_utf8 (fst kv))
     [(''protocol_version'', json_quote pv), (''type'', json_quote t),
      (''delivery_key'', json_quote k), (''envelope'', e)]"
  by simp

lemma unmarshal_deliver_print:
  assumes "wf_strings (del_Envelope d)" "body_fits 2 (env_Body (del_Envelope d))"
    "list_all valid_utf8 [del_ProtocolVersion d, del_Type d, del_DeliveryKey d]"
  shows "\<exists>fr. marshal_deliver d = Some fr \<and>
    unmarshal_deliver fr = Inr (d\<lparr>del_Envelope := norm_envelope (del_Envelope d)\<rparr>)"
proof -
  obtain e where e: "marshal_envelope (del_Envelope d) = Some e" "json_text (maxNestingDepth - 1) e"
    using assms(2) by (auto intro: marshal_envelope_text [of 1] simp: maxNestingDepth_def numeral_2_eq_2)
  let ?kvs = "[(''protocol_version'', json_quote (del_ProtocolVersion d)), (''type'', json_quote (del_Type d)),
      (''delivery_key'', json_quote (del_DeliveryKey d)), (''envelope'', e)]"
  have "upd_deliver ?kvs zero_deliver = (d\<lparr>del_Envelope := norm_envelope (del_Envelope d)\<rparr>, False)"
    using assms(3) dec_struct_envelope [OF assms(1,2) e(1)]
    by (simp add: upd_deliver_def field_raws_def find_field_def names_defs Let_def del: dec_string.simps)
  moreover have "maxNestingDepth - 1 < maxNestingDepth" by (simp add: maxNestingDepth_def)
  ultimately show ?thesis
    using unmarshal_print [of "maxNestingDepth - 1" ?kvs upd_deliver zero_deliver] e
      deliver_members_text [OF e(2)]
    by (simp add: marshal_deliver_def unmarshal_deliver_def list_all_conj)
qed

lemma upd_envelope_canonical:
  assumes "wf_strings env"
  shows "upd_envelope (canonicalEnvelope env b) zero_envelope = (env\<lparr>env_Body := b, env_HMAC := []\<rparr>, False)"
  using assms
  by (simp add: upd_envelope_def canonicalEnvelope_def field_raws_def find_field_def names_defs
      Let_def wf_strings_def dec_raw_def zero_envelope_def del: dec_string.simps(2))

lemma Canonical_fields:
  assumes "Canonical e1 = Inr c" "Canonical e2 = Inr c" "wf_strings e1" "wf_strings e2"
    "body_fits 1 (env_Body e1)" "body_fits 1 (env_Body e2)"
  shows "(norm_envelope e1)\<lparr>env_HMAC := []\<rparr> = (norm_envelope e2)\<lparr>env_HMAC := []\<rparr>"
proof -
  have "unmarshal_envelope c = Inr ((norm_envelope e)\<lparr>env_HMAC := []\<rparr>)"
    if "Canonical e = Inr c" "wf_strings e" "body_fits 1 (env_Body e)" for e
  proof -
    from body_fits_text [OF that(3)] have b: "marshal_raw (env_Body e) = Some (norm_body (env_Body e))"
      "json_text (maxNestingDepth - 1) (norm_body (env_Body e))" by auto
    let ?kvs = "canonicalEnvelope e (norm_body (env_Body e))"
    have "c = print_object ?kvs" using that(1) b(1) by (simp add: Canonical_eq)
    moreover have "maxNestingDepth - 1 < maxNestingDepth" by (simp add: maxNestingDepth_def)
    moreover have "list_all (\<lambda>kv. json_text (maxNestingDepth - 1) (snd kv)) ?kvs"
      "list_all (\<lambda>kv. valid_utf8 (fst kv)) ?kvs"
      using envelope_members_text [OF b(2), of e] by (simp_all add: list_all_conj)
    ultimately show ?thesis
      using unmarshal_print [of "maxNestingDepth - 1" ?kvs upd_envelope zero_envelope]
        upd_envelope_canonical [OF that(2), of "norm_body (env_Body e)"]
      by (simp add: unmarshal_envelope_def norm_envelope_def)
  qed
  from this [OF assms(1,3,5)] this [OF assms(2,4,6)] show ?thesis by simp
qed

lemma ControlTypeOf_print:
  assumes "list_all (\<lambda>kv. json_text m (snd kv) \<and> valid_utf8 (fst kv)) kvs" "m < maxNestingDepth"
  shows "ControlTypeOf (print_object kvs) =
    (case upd_rawControl kvs [] of (t, e) \<Rightarrow> if e then Inl UnmarshalTypeError else Inr t)"
  using unmarshal_print [of m kvs upd_rawControl "[]"] assms
  by (auto simp: ControlTypeOf_def list_all_conj split: prod.splits)

lemma ControlTypeOf_envelope:
  assumes "body_fits 1 (env_Body env)" "marshal_envelope env = Some fr"
  shows "ControlTypeOf fr = Inr []"
proof -
  let ?kvs = "canonicalEnvelope env (norm_body (env_Body env)) @ [(''hmac'', json_quote (env_HMAC env))]"
  from body_fits_text [OF assms(1)] have b: "marshal_raw (env_Body env) = Some (norm_body (env_Body env))"
    "json_text (maxNestingDepth - 1) (norm_body (env_Body env))" by auto
  with assms(2) have "fr = print_object ?kvs" by (simp add: marshal_envelope_def)
  moreover have "maxNestingDepth - 1 < maxNestingDepth" by (simp add: maxNestingDepth_def)
  moreover have "upd_rawControl ?kvs [] = ([], False)"
    by (simp add: upd_rawControl_def field_raws_def find_field_def canonicalEnvelope_def upper_ascii_def)
  ultimately show ?thesis
    using ControlTypeOf_print [OF envelope_members_text [OF b(2)]] by simp
qed

lemma upd_rawControl_type [simp]:
  "valid_utf8 t \<Longrightarrow> upd_rawControl [(''protocol_version'', v), (''type'', json_quote t), (''token'', k), (''name'', n)] [] = (t, False)"
  "valid_utf8 t \<Longrightarrow> upd_rawControl [(''protocol_version'', v), (''type'', json_quote t), (''id'', k)] [] = (t, False)"
  "valid_utf8 t \<Longrightarrow> upd_rawControl [(''protocol_version'', v), (''type'', json_quote t), (''names'', k)] [] = (t, False)"
  "valid_utf8 t \<Longrightarrow> upd_rawControl [(''protocol_version'', v), (''type'', json_quote t), (''delivery_key'', k), (''envelope'', n)] [] = (t, False)"
  by (simp_all add: upd_rawControl_def field_raws_def find_field_def upper_ascii_def del: dec_string.simps)

lemma control_types_utf8 [simp]:
  "valid_utf8 ControlRegister" "valid_utf8 ControlAck" "valid_utf8 ControlPeers" "valid_utf8 ControlDeliver"
  by (simp_all add: ControlRegister_def ControlAck_def ControlPeers_def ControlDeliver_def)

lemma depth_pred: "maxNestingDepth - 1 < maxNestingDepth"
  by (simp add: maxNestingDepth_def)

lemma json_text_strings: "json_text (Suc m) (marshal_strings ns)"
  by (cases ns) (auto simp: marshal_strings_def list_all_iff intro!: json_text_array)

lemma ControlTypeOf_register: "valid_utf8 (reg_Type r) \<Longrightarrow> ControlTypeOf (marshal_register r) = Inr (reg_Type r)"
  unfolding marshal_register_def by (subst ControlTypeOf_print [OF _ depth_pred]) simp_all

lemma ControlTypeOf_ack: "valid_utf8 (ack_Type a) \<Longrightarrow> ControlTypeOf (marshal_ack a) = Inr (ack_Type a)"
  unfolding marshal_ack_def by (subst ControlTypeOf_print [OF _ depth_pred]) simp_all

lemma ControlTypeOf_peers: "valid_utf8 (peers_Type p) \<Longrightarrow> ControlTypeOf (marshal_peers p) = Inr (peers_Type p)"
  unfolding marshal_peers_def
  using json_text_strings [of "maxNestingDepth - 2"]
  by (subst ControlTypeOf_print [OF _ depth_pred]) (simp_all add: maxNestingDepth_def)

lemma ControlTypeOf_deliver:
  assumes "valid_utf8 (del_Type d)" "body_fits 2 (env_Body (del_Envelope d))"
  shows "\<exists>fr. marshal_deliver d = Some fr \<and> ControlTypeOf fr = Inr (del_Type d)"
proof -
  obtain e where e: "marshal_envelope (del_Envelope d) = Some e" "json_text (maxNestingDepth - 1) e"
    using assms(2) by (auto intro: marshal_envelope_text [of 1] simp: maxNestingDepth_def numeral_2_eq_2)
  then show ?thesis
    using ControlTypeOf_print [OF deliver_members_text [OF e(2)] depth_pred] assms(1)
    by (simp add: marshal_deliver_def)
qed

lemma unmarshal_register_print:
  "list_all valid_utf8 [reg_ProtocolVersion r, reg_Type r, reg_Token r, reg_Name r] \<Longrightarrow>
     unmarshal_register (marshal_register r) = Inr r"
  unfolding unmarshal_register_def marshal_register_def
  by (subst unmarshal_print [OF _ depth_pred])
    (simp_all add: upd_register_def field_raws_def find_field_def names_defs upper_ascii_def Let_def del: dec_string.simps)

lemma unmarshal_ack_print:
  "list_all valid_utf8 [ack_ProtocolVersion a, ack_Type a, ack_ID a] \<Longrightarrow> unmarshal_ack (marshal_ack a) = Inr a"
  unfolding unmarshal_ack_def marshal_ack_def
  by (subst unmarshal_print [OF _ depth_pred])
    (simp_all add: upd_ack_def field_raws_def find_field_def names_defs upper_ascii_def Let_def del: dec_string.simps)

lemma Canonical_HMAC [simp]: "Canonical (env\<lparr>env_HMAC := h\<rparr>) = Canonical env"
  by (cases "marshal_raw (env_Body env)") (simp_all add: Canonical_eq canonicalEnvelope_def)

lemma wf_strings_HMAC: "wf_strings env \<Longrightarrow> valid_utf8 h \<Longrightarrow> wf_strings (env\<lparr>env_HMAC := h\<rparr>)"
  by (simp add: wf_strings_def)

lemma signed_fields_eq:
  assumes "(norm_envelope e1)\<lparr>env_HMAC := []\<rparr> = (norm_envelope e2)\<lparr>env_HMAC := []\<rparr>"
  shows "env_ProtocolVersion e1 = env_ProtocolVersion e2" "env_ID e1 = env_ID e2" "env_From e1 = env_From e2"
    "env_To e1 = env_To e2" "env_TS e1 = env_TS e2" "env_Source e1 = env_Source e2"
    "env_Kind e1 = env_Kind e2" "norm_body (env_Body e1) = norm_body (env_Body e2)"
proof -
  have "g ((norm_envelope e1)\<lparr>env_HMAC := []\<rparr>) = g ((norm_envelope e2)\<lparr>env_HMAC := []\<rparr>)" for g :: "envelope \<Rightarrow> string"
    using assms by simp
  from this [of env_ProtocolVersion] this [of env_ID] this [of env_From] this [of env_To]
    this [of env_TS] this [of env_Source] this [of env_Kind] this [of env_Body]
  show "env_ProtocolVersion e1 = env_ProtocolVersion e2" "env_ID e1 = env_ID e2" "env_From e1 = env_From e2"
    "env_To e1 = env_To e2" "env_TS e1 = env_TS e2" "env_Source e1 = env_Source e2"
    "env_Kind e1 = env_Kind e2" "norm_body (env_Body e1) = norm_body (env_Body e2)"
    by simp_all
qed

lemma length_join_comma: "xs \<noteq> [] \<Longrightarrow> length (join_comma xs) = sum_list (map length xs) + (length xs - 1)"
  by (induction xs rule: induct_list012) auto

lemma length_json_quote_ge: "2 \<le> length (json_quote s)"
  by (simp add: json_quote_def)

text \<open>Marshalling does not tell an envelope from its normal form.\<close>

lemma marshal_norm_envelope:
  "body_fits d (env_Body env) \<Longrightarrow> marshal_envelope (norm_envelope env) = marshal_envelope env"
  using body_fits_text(1) [of d "env_Body env"] norm_body_idem [of "env_Body env" "norm_body (env_Body env)"]
  by (simp add: marshal_envelope_def canonicalEnvelope_def)

lemma norm_envelope_idem: "body_fits d (env_Body env) \<Longrightarrow> norm_envelope (norm_envelope env) = norm_envelope env"
  using body_fits_text(1) [of d "env_Body env"]
  by (auto simp: norm_envelope_def norm_body_def norm_body_idem split: option.splits)

lemma marshal_deliver_norm:
  "body_fits d (env_Body (del_Envelope del)) \<Longrightarrow>
     marshal_deliver (del\<lparr>del_Envelope := norm_envelope (del_Envelope del)\<rparr>) = marshal_deliver del"
  by (simp add: marshal_deliver_def marshal_norm_envelope)

lemma utf8_len_2028: "starts_2028 (c # cs) \<Longrightarrow> utf8_len (c # cs) = Some n \<Longrightarrow> n = 3"
  by (auto simp: starts_2028_def Let_def split: if_splits list.splits)

lemma length_quote_ascii: "length (quote_ascii c) \<le> 6"
  by (simp add: quote_ascii_def u_escape_def)

lemma length_quote_body: "length (quote_body s) \<le> 6 * length s"
proof (induction s rule: quote_body.induct)
  case (2 c cs)
  show ?case
  proof (cases "byte c < 128")
    case True
    then show ?thesis using "2.IH"(1) length_quote_ascii [of c] by simp
  next
    case False
    show ?thesis
    proof (cases "utf8_len (c # cs)")
      case None
      then show ?thesis using False "2.IH"(2) by (simp add: ufffd_def)
    next
      case (Some n)
      note n = utf8_len_bounds [OF Some]
      have "length (if starts_2028 (c # cs) then escape_2028 (c # cs) else take n (c # cs)) \<le> 6 * n"
        using n utf8_len_2028 [OF _ Some] by (auto simp: escape_2028_def)
      then show ?thesis using False Some "2.IH"(3) [OF False Some] n by (auto simp del: utf8_len.simps)
    qed
  qed
qed simp

lemma length_json_quote_le: "length (json_quote s) \<le> 6 * length s + 2"
  using length_quote_body [of s] by (simp add: json_quote_def)

lemma length_deliver_frame:
  assumes "marshal_deliver \<lparr>del_ProtocolVersion = ProtocolVersion, del_Type = ControlDeliver,
      del_DeliveryKey = key, del_Envelope = env\<rparr> = Some fr" "marshal_raw (env_Body env) = Some b"
  shows "length fr \<le> 200 + 6 * (length key + length (env_ProtocolVersion env) + length (env_ID env) + length (env_From env) +
     length (env_To env) + length (env_TS env) + length (env_Source env) + length (env_Kind env) + length (env_HMAC env)) + length b"
proof -
  have q: "length (json_quote ''protocol_version'') = 18" "length (json_quote ''v1'') = 4"
    "length (json_quote ''type'') = 6" "length (json_quote ''deliver'') = 9"
    "length (json_quote ''delivery_key'') = 14" "length (json_quote ''envelope'') = 10"
    "length (json_quote ''id'') = 4" "length (json_quote ''from'') = 6" "length (json_quote ''to'') = 4"
    "length (json_quote ''ts'') = 4" "length (json_quote ''source'') = 8" "length (json_quote ''kind'') = 6"
    "length (json_quote ''body'') = 6" "length (json_quote ''hmac'') = 6"
    by code_simp+
  note l = length_json_quote_le
  from assms q show ?thesis
    using l [of key] l [of "env_ProtocolVersion env"] l [of "env_ID env"] l [of "env_From env"] l [of "env_To env"]
      l [of "env_TS env"] l [of "env_Source env"] l [of "env_Kind env"] l [of "env_HMAC env"]
    by (auto simp: marshal_deliver_def marshal_envelope_def canonicalEnvelope_def print_object_def length_join_comma
        print_member_def ProtocolVersion_def ControlDeliver_def)
qed
section \<open>Properties of the wire format\<close>

text \<open>A concrete signed envelope on which the hypotheses below are evaluated.\<close>

definition demo_envelope :: envelope where
  "demo_envelope = \<lparr>env_ProtocolVersion = ''v1'', env_ID = ''m1'', env_From = ''alice'', env_To = ''bob'',
     env_TS = ''t'', env_Source = ''s'', env_Kind = ''msg'', env_Body = ''[1, 2]'', env_HMAC = ''ab''\<rparr>"

lemma demo_envelope_ok: "wf_strings demo_envelope" "body_fits 1 (env_Body demo_envelope)"
  "body_fits 2 (env_Body demo_envelope)"
  by code_simp+

lemma demo_envelope_variant:
  "Canonical demo_envelope = Inr (projr (Canonical demo_envelope))"
  "Canonical (demo_envelope\<lparr>env_Body := ''[1,2]'', env_HMAC := []\<rparr>) = Inr (projr (Canonical demo_envelope))"
  "wf_strings (demo_envelope\<lparr>env_Body := ''[1,2]'', env_HMAC := []\<rparr>)"
  "body_fits 1 (env_Body (demo_envelope\<lparr>env_Body := ''[1,2]'', env_HMAC := []\<rparr>))"
proof -
  have "marshal_raw ''[1, 2]'' = Some ''[1,2]''" "marshal_raw ''[1,2]'' = Some ''[1,2]''"
    by code_simp+
  then show "Canonical demo_envelope = Inr (projr (Canonical demo_envelope))"
    "Canonical (demo_envelope\<lparr>env_Body := ''[1,2]'', env_HMAC := []\<rparr>) = Inr (projr (Canonical demo_envelope))"
    by (simp_all add: demo_envelope_def Canonical_eq canonicalEnvelope_def)
qed code_simp+

text \<open>C35: An envelope whose string fields are well-formed UTF-8 and whose body is JSON survives
  \<open>json.Marshal\<close> followed by \<open>json.Unmarshal\<close>: all fields come back, the body comes back in
  compacted form, the canonical (signed) bytes are unchanged, and \<open>ControlTypeOf\<close> does not take
  the frame for a control frame.\<close>

theorem envelope_roundtrip:
  assumes "wf_strings env" "body_fits 1 (env_Body env)"
  shows "\<exists>fr env'. marshal_envelope env = Some fr \<and> unmarshal_envelope fr = Inr env' \<and>
    env' = env\<lparr>env_Body := norm_body (env_Body env)\<rparr> \<and> Canonical env' = Canonical env \<and>
    is_ok (Canonical env) \<and> ControlTypeOf fr = Inr []"
proof -
  obtain fr where "marshal_envelope env = Some fr" "unmarshal_envelope fr = Inr (norm_envelope env)"
    using unmarshal_envelope_print [OF assms] by blast
  moreover have "is_ok (Canonical env)"
    using body_fits_text(1) [OF assms(2)] by (simp add: Canonical_eq)
  ultimately show ?thesis
    using ControlTypeOf_envelope [OF assms(2)] Canonical_norm [of env] by (auto simp: norm_envelope_def)
qed

theorem envelope_roundtrip_witness:
  "\<exists>fr env'. marshal_envelope demo_envelope = Some fr \<and> unmarshal_envelope fr = Inr env' \<and>
    env' = demo_envelope\<lparr>env_Body := norm_body (env_Body demo_envelope)\<rparr> \<and>
    Canonical env' = Canonical demo_envelope \<and> is_ok (Canonical demo_envelope) \<and> ControlTypeOf fr = Inr []"
  using envelope_roundtrip [of demo_envelope] demo_envelope_ok by blast

text \<open>The \<open>Deliver\<close> frame carries the signed envelope unharmed: the recipient that decodes the
  frame gets the delivery key, the sender's \<open>hmac\<close> and an envelope with the same canonical bytes.\<close>

theorem deliver_preserves_signed_bytes:
  assumes "wf_strings env" "body_fits 2 (env_Body env)" "valid_utf8 key"
  shows "\<exists>fr d. marshal_deliver \<lparr>del_ProtocolVersion = ProtocolVersion, del_Type = ControlDeliver,
        del_DeliveryKey = key, del_Envelope = env\<rparr> = Some fr \<and>
      ControlTypeOf fr = Inr ControlDeliver \<and> unmarshal_deliver fr = Inr d \<and>
      del_ProtocolVersion d = ProtocolVersion \<and> del_DeliveryKey d = key \<and>
      env_HMAC (del_Envelope d) = env_HMAC env \<and> Canonical (del_Envelope d) = Canonical env"
proof -
  let ?d = "\<lparr>del_ProtocolVersion = ProtocolVersion, del_Type = ControlDeliver,
        del_DeliveryKey = key, del_Envelope = env\<rparr>"
  obtain fr where fr: "marshal_deliver ?d = Some fr"
    "unmarshal_deliver fr = Inr (?d\<lparr>del_Envelope := norm_envelope env\<rparr>)"
    using unmarshal_deliver_print [of ?d] assms by (auto simp: ProtocolVersion_def ControlDeliver_def)
  moreover have "ControlTypeOf fr = Inr ControlDeliver"
    using ControlTypeOf_deliver [of ?d] assms(2) fr(1) by auto
  ultimately show ?thesis by (auto simp: Canonical_norm)
qed

theorem deliver_preserves_signed_bytes_witness:
  "\<exists>fr d. marshal_deliver \<lparr>del_ProtocolVersion = ProtocolVersion, del_Type = ControlDeliver,
        del_DeliveryKey = ''m1'', del_Envelope = demo_envelope\<rparr> = Some fr \<and>
      ControlTypeOf fr = Inr ControlDeliver \<and> unmarshal_deliver fr = Inr d \<and>
      del_ProtocolVersion d = ProtocolVersion \<and> del_DeliveryKey d = ''m1'' \<and>
      env_HMAC (del_Envelope d) = env_HMAC demo_envelope \<and> Canonical (del_Envelope d) = Canonical demo_envelope"
  by (rule deliver_preserves_signed_bytes) (code_simp+)

text \<open>C36: The canonical form determines every signed field: two envelopes with the same canonical
  bytes agree on all fields but \<open>hmac\<close>, the bodies up to insignificant white space and escaping.\<close>

theorem canonical_injective:
  assumes "Canonical e1 = Inr c" "Canonical e2 = Inr c" "wf_strings e1" "wf_strings e2"
    "body_fits 1 (env_Body e1)" "body_fits 1 (env_Body e2)"
  shows "env_ProtocolVersion e1 = env_ProtocolVersion e2 \<and> env_ID e1 = env_ID e2 \<and> env_From e1 = env_From e2 \<and>
    env_To e1 = env_To e2 \<and> env_TS e1 = env_TS e2 \<and> env_Source e1 = env_Source e2 \<and>
    env_Kind e1 = env_Kind e2 \<and> norm_body (env_Body e1) = norm_body (env_Body e2)"
  using signed_fields_eq [OF Canonical_fields [OF assms]] by simp

theorem canonical_injective_witness:
  "norm_body (env_Body demo_envelope) = norm_body (env_Body (demo_envelope\<lparr>env_Body := ''[1,2]'', env_HMAC := []\<rparr>))"
  using canonical_injective [of demo_envelope _ "demo_envelope\<lparr>env_Body := ''[1,2]'', env_HMAC := []\<rparr>"]
    demo_envelope_ok(1,2) demo_envelope_variant by blast

text \<open>The four control frames are told apart from each other by \<open>ControlTypeOf\<close>, whatever their
  other fields hold.\<close>

theorem control_frames_discriminated:
  assumes "reg_Type r = ControlRegister" "ack_Type a = ControlAck" "peers_Type p = ControlPeers"
    "del_Type d = ControlDeliver" "body_fits 2 (env_Body (del_Envelope d))"
  shows "ControlTypeOf (marshal_register r) = Inr ControlRegister \<and>
    ControlTypeOf (marshal_ack a) = Inr ControlAck \<and>
    ControlTypeOf (marshal_peers p) = Inr ControlPeers \<and>
    (\<exists>fr. marshal_deliver d = Some fr \<and> ControlTypeOf fr = Inr ControlDeliver)"
  using assms ControlTypeOf_register ControlTypeOf_ack ControlTypeOf_peers ControlTypeOf_deliver
  by (metis control_types_utf8)

theorem control_frames_discriminated_witness:
  "ControlTypeOf (marshal_ack \<lparr>ack_ProtocolVersion = ''v1'', ack_Type = ControlAck, ack_ID = ''m1''\<rparr>) = Inr ControlAck"
  using control_frames_discriminated
    [of "\<lparr>reg_ProtocolVersion = ''v1'', reg_Type = ControlRegister, reg_Token = ''t'', reg_Name = ''n''\<rparr>"
      "\<lparr>ack_ProtocolVersion = ''v1'', ack_Type = ControlAck, ack_ID = ''m1''\<rparr>"
      "\<lparr>peers_ProtocolVersion = ''v1'', peers_Type = ControlPeers, peers_Names = None\<rparr>"
      "\<lparr>del_ProtocolVersion = ''v1'', del_Type = ControlDeliver, del_DeliveryKey = ''m1'', del_Envelope = demo_envelope\<rparr>"]
    demo_envelope_ok(3) by simp

text \<open>A \<open>Deliver\<close> frame is at least 72 bytes longer than the envelope frame it wraps, so an
  envelope within 72 bytes of \<open>MaxFrameBytes\<close>, which the broker reads, is delivered in a frame above
  the recipient's read limit.\<close>

theorem deliver_frame_overhead:
  assumes "marshal_envelope env = Some e"
    "marshal_deliver \<lparr>del_ProtocolVersion = ProtocolVersion, del_Type = ControlDeliver,
        del_DeliveryKey = key, del_Envelope = env\<rparr> = Some fr"
  shows "length e + 72 \<le> length fr \<and> (MaxFrameBytes < length e + 72 \<longrightarrow> MaxFrameBytes < length fr)"
proof -
  have "length (json_quote ''protocol_version'') = 18" "length (json_quote ''v1'') = 4"
    "length (json_quote ''type'') = 6" "length (json_quote ''deliver'') = 9"
    "length (json_quote ''delivery_key'') = 14" "length (json_quote ''envelope'') = 10"
    by code_simp+
  then have "length fr = 70 + length (json_quote key) + length e"
    using assms by (auto simp: marshal_deliver_def print_object_def length_join_comma print_member_def
        ProtocolVersion_def ControlDeliver_def)
  with length_json_quote_ge [of key] show ?thesis by simp
qed

theorem deliver_frame_overhead_witness:
  "length (the (marshal_envelope demo_envelope)) + 72 \<le>
   length (the (marshal_deliver \<lparr>del_ProtocolVersion = ProtocolVersion, del_Type = ControlDeliver,
        del_DeliveryKey = ''m1'', del_Envelope = demo_envelope\<rparr>))"
proof -
  obtain e where "marshal_envelope demo_envelope = Some e"
    using unmarshal_envelope_print [OF demo_envelope_ok(1,2)] by blast
  with deliver_frame_overhead [of demo_envelope e "''m1''"] show ?thesis
    by (simp add: marshal_deliver_def)
qed

text \<open>The canonical form does not splice the body verbatim: \<open>json.Marshal\<close> escapes \<open><\<close>, \<open>>\<close> and \<open>&\<close>
  inside a \<open>json.RawMessage\<close>, so two different bodies have the same signed bytes.\<close>

theorem canonical_escapes_body:
  "Canonical (demo_envelope\<lparr>env_Body := [CHR 0x22, CHR ''<'', CHR 0x22]\<rparr>) =
     Canonical (demo_envelope\<lparr>env_Body := CHR 0x22 # CHR 0x5C # ''u003c'' @ [CHR 0x22]\<rparr>) \<and>
   is_ok (Canonical (demo_envelope\<lparr>env_Body := [CHR 0x22, CHR ''<'', CHR 0x22]\<rparr>))"
proof -
  have "marshal_raw [CHR 0x22, CHR ''<'', CHR 0x22] = Some (CHR 0x22 # CHR 0x5C # ''u003c'' @ [CHR 0x22])"
    "marshal_raw (CHR 0x22 # CHR 0x5C # ''u003c'' @ [CHR 0x22]) = Some (CHR 0x22 # CHR 0x5C # ''u003c'' @ [CHR 0x22])"
    by code_simp+
  then show ?thesis by (simp add: Canonical_eq canonicalEnvelope_def)
qed

end
