(* ===== verification/Go_Crypto.thy ===== *)
theory Go_Crypto
  imports Peerbus_Prelude "HOL-Library.Word"
begin

text \<open>
  The two algorithms of the Go standard library behind message authentication:
  SHA-256 (\<open>crypto/sha256\<close>, FIPS 180-4) on 32-bit words and HMAC (\<open>crypto/hmac\<close>, RFC 2104)
  with a block size of 64 bytes.  Both are executable; the lemmas fix the length of
  their results, which is all the rest of the development uses of them.
\<close>

unbundle bit_operations_syntax

section \<open>SHA-256\<close>

type_synonym w32 = "32 word"

text \<open>
  The 64 round constants are, as the standard defines them, the first 32 bits of the
  fractional parts of the cube roots of the first 64 primes: bits of the integer cube root
  of \<open>p * 2^96\<close>, which \<open>iroot_bits\<close> determines from the highest bit down.
\<close>

fun iroot_bits :: "nat \<Rightarrow> nat \<Rightarrow> nat \<Rightarrow> nat \<Rightarrow> nat" where
  "iroot_bits k n 0 r = r"
| "iroot_bits k n (Suc b) r = (let t = r + 2 ^ b in iroot_bits k n b (if t ^ k \<le> n then t else r))"

definition primes_below :: "nat \<Rightarrow> nat list" where
  "primes_below m = filter (\<lambda>p. 1 < p \<and> list_all (\<lambda>d. p mod d \<noteq> 0) [2..<p]) [0..<m]"

definition sha256_K :: "w32 list" where
  "sha256_K = map (\<lambda>p. of_nat (iroot_bits 3 (p * 2 ^ 96) 35 0)) (primes_below 312)"

lemma iroot_bits_bounds:
  "r ^ k \<le> n \<Longrightarrow> n < (r + 2 ^ b) ^ k \<Longrightarrow> iroot_bits k n b r ^ k \<le> n \<and> n < Suc (iroot_bits k n b r) ^ k"
  by (induction k n b r rule: iroot_bits.induct) (simp_all add: Let_def mult_2 add.assoc)

definition sha256_init :: "w32 list" where
  "sha256_init = [0x6a09e667, 0xbb67ae85, 0x3c6ef372, 0xa54ff53a, 0x510e527f, 0x9b05688c, 0x1f83d9ab, 0x5be0cd19]"

definition rotr32 :: "nat \<Rightarrow> w32 \<Rightarrow> w32" where
  "rotr32 n x = drop_bit n x OR push_bit (32 - n) x"

definition small_sigma0 :: "w32 \<Rightarrow> w32" where
  "small_sigma0 x = rotr32 7 x XOR rotr32 18 x XOR drop_bit 3 x"

definition small_sigma1 :: "w32 \<Rightarrow> w32" where
  "small_sigma1 x = rotr32 17 x XOR rotr32 19 x XOR drop_bit 10 x"

text \<open>The message schedule, the most recent word first.\<close>

fun sha256_schedule :: "nat \<Rightarrow> w32 list \<Rightarrow> w32 list" where
  "sha256_schedule 0 w = w"
| "sha256_schedule (Suc n) w =
     sha256_schedule n ((small_sigma1 (w ! 1) + w ! 6 + small_sigma0 (w ! 14) + w ! 15) # w)"

fun sha256_round :: "w32 list \<Rightarrow> w32 \<times> w32 \<Rightarrow> w32 list" where
  "sha256_round [a, b, c, d, e, f, g, h] (k, w) =
     (let t1 = h + (rotr32 6 e XOR rotr32 11 e XOR rotr32 25 e) + ((e AND f) XOR (NOT e AND g)) + k + w;
          t2 = (rotr32 2 a XOR rotr32 13 a XOR rotr32 22 a) + ((a AND b) XOR (a AND c) XOR (b AND c))
      in [t1 + t2, a, b, c, d + t1, e, f, g])"
| "sha256_round hs _ = hs"

fun words_of_bytes :: "bytes \<Rightarrow> w32 list" where
  "words_of_bytes (a # b # c # d # bs) =
     of_nat (((byte a * 256 + byte b) * 256 + byte c) * 256 + byte d) # words_of_bytes bs"
| "words_of_bytes _ = []"

definition be_bytes :: "nat \<Rightarrow> nat \<Rightarrow> bytes" where
  "be_bytes n x = map (\<lambda>i. char_of (x div 256 ^ (n - 1 - i) mod 256)) [0..<n]"

definition sha256_block :: "w32 list \<Rightarrow> bytes \<Rightarrow> w32 list" where
  "sha256_block hs blk =
     map2 (+) hs (foldl sha256_round hs
       (zip sha256_K (rev (sha256_schedule 48 (rev (words_of_bytes blk))))))"

definition sha256_pad :: "bytes \<Rightarrow> bytes" where
  "sha256_pad m = m @ CHR 0x80 # replicate ((119 - length m mod 64) mod 64) (CHR 0x00) @ be_bytes 8 (8 * length m)"

function blocks64 :: "bytes \<Rightarrow> bytes list" where
  "blocks64 bs = (if bs = [] then [] else take 64 bs # blocks64 (drop 64 bs))"
  by auto
termination by (relation "measure length") auto

declare blocks64.simps [simp del]

definition sha256 :: "bytes \<Rightarrow> bytes" where
  "sha256 m = concat (map (\<lambda>w. be_bytes 4 (unat w)) (foldl sha256_block sha256_init (blocks64 (sha256_pad m))))"

section \<open>HMAC\<close>

definition xor_byte :: "nat \<Rightarrow> char \<Rightarrow> char" where
  "xor_byte p c = char_of (p XOR byte c)"

definition hmac_key :: "bytes \<Rightarrow> bytes" where
  "hmac_key key = (let k = (if 64 < length key then sha256 key else key) in k @ replicate (64 - length k) (CHR 0x00))"

definition hmac_sha256 :: "bytes \<Rightarrow> bytes \<Rightarrow> bytes" where
  "hmac_sha256 key m =
     (let k = hmac_key key in
      sha256 (map (xor_byte 0x5c) k @ sha256 (map (xor_byte 0x36) k @ m)))"

section \<open>Result lengths\<close>

lemma length_be_bytes [simp]: "length (be_bytes n x) = n"
  by (simp add: be_bytes_def)

lemma length_sha256_round [simp]: "length (sha256_round hs kw) = length hs"
  by (induction hs kw rule: sha256_round.induct) (simp_all add: Let_def)

lemma length_sha256_rounds [simp]: "length (foldl sha256_round hs kws) = length hs"
  by (induction kws arbitrary: hs) simp_all

lemma length_sha256_block [simp]: "length (sha256_block hs blk) = length hs"
  by (simp add: sha256_block_def)

lemma length_sha256_blocks [simp]: "length (foldl sha256_block hs blks) = length hs"
  by (induction blks arbitrary: hs) simp_all

lemma length_sha256 [simp]: "length (sha256 m) = 32"
  by (simp add: sha256_def length_concat comp_def sum_list_triv sha256_init_def)

lemma length_hmac_sha256 [simp]: "length (hmac_sha256 key m) = 32"
  by (simp add: hmac_sha256_def Let_def)

lemma length_sha256_pad: "64 dvd length (sha256_pad m)"
proof -
  define q r where "q = length m div 64" and "r = length m mod 64"
  then have m: "length m = 64 * q + r" "r < 64" by simp_all
  have "64 dvd r + 1 + (119 - r) mod 64 + 8"
  proof (cases "r < 56")
    case True
    then have "(119 - r) mod 64 = 55 - r" by (simp add: mod_if)
    with True show ?thesis by simp
  next
    case False
    with m(2) show ?thesis by simp
  qed
  then have "64 dvd 64 * q + (r + 1 + (119 - r) mod 64 + 8)" by (rule dvd_add [OF dvd_triv_left])
  then show ?thesis using m by (simp add: sha256_pad_def r_def [symmetric] ac_simps)
qed

end
