(* ===== verification/Hmac.thy ===== *)
theory Hmac
  imports Wire Go_Crypto
begin

text \<open>
  Package \<open>internal/hmac\<close>: signing and verifying the canonical form of an envelope.
  The locale \<open>envelope_mac\<close> is the interface the adapter client relies on; it is
  interpreted on \<open>SignEnvelope\<close> and \<open>VerifyEnvelope\<close>.
\<close>

section \<open>hmac.go\<close>

definition MinSecretLen :: nat where
  "MinSecretLen = 32"

datatype hmac_error = ErrShortSecret | ErrMissingHMAC | ErrBadHMACHex | ErrVerify | Canonicalize wire_error

definition checkSecret :: "bytes \<Rightarrow> hmac_error option" where
  "checkSecret secret = (if length secret < MinSecretLen then Some ErrShortSecret else None)"

definition Sign :: "bytes \<Rightarrow> envelope \<Rightarrow> (hmac_error, string) result" where
  "Sign secret env =
     (case checkSecret secret of
        Some err \<Rightarrow> Inl err
      | None \<Rightarrow>
          (case Canonical env of
             Inl err \<Rightarrow> Inl (Canonicalize err)
           | Inr canon \<Rightarrow> Inr (hex_encode (hmac_sha256 secret canon))))"

definition Verify :: "bytes \<Rightarrow> envelope \<Rightarrow> (hmac_error, unit) result" where
  "Verify secret env =
     (case checkSecret secret of
        Some err \<Rightarrow> Inl err
      | None \<Rightarrow>
          if env_HMAC env = [] then Inl ErrMissingHMAC
          else (case hex_decode (env_HMAC env) of
             None \<Rightarrow> Inl ErrBadHMACHex
           | Some want \<Rightarrow>
               (case Canonical env of
                  Inl err \<Rightarrow> Inl (Canonicalize err)
                | Inr canon \<Rightarrow>
                    (let got = hmac_sha256 secret canon in
                     if ConstantTimeCompare got want \<noteq> 1 then Inl ErrVerify else Inr ()))))"

definition SignEnvelope :: "bytes \<Rightarrow> envelope \<Rightarrow> (hmac_error, envelope) result" where
  "SignEnvelope secret env =
     (case Sign secret env of
        Inl err \<Rightarrow> Inl err
      | Inr sig \<Rightarrow> Inr (env\<lparr>env_HMAC := sig\<rparr>))"

definition VerifyEnvelope :: "bytes \<Rightarrow> envelope \<Rightarrow> (hmac_error, unit) result" where
  "VerifyEnvelope secret env = Verify secret env"

section \<open>The interface of a message authentication scheme on envelopes\<close>

text \<open>
  \<open>tag k c\<close> is the authentication tag of the canonical bytes \<open>c\<close>; \<open>accepts t h\<close> says that
  the text \<open>h\<close> in an envelope's \<open>hmac\<close> field denotes the tag \<open>t\<close>.
\<close>

locale envelope_mac =
  fixes sign :: "bytes \<Rightarrow> envelope \<Rightarrow> ('e, envelope) result"
    and verify :: "bytes \<Rightarrow> envelope \<Rightarrow> ('e, unit) result"
    and key_ok :: "bytes \<Rightarrow> bool"
    and tag :: "bytes \<Rightarrow> bytes \<Rightarrow> 't"
    and accepts :: "'t \<Rightarrow> string \<Rightarrow> bool"
  assumes sign_tags: "sign k env = Inr env' \<Longrightarrow>
      \<exists>c. key_ok k \<and> Canonical env = Inr c \<and> env' = env\<lparr>env_HMAC := env_HMAC env'\<rparr> \<and>
        accepts (tag k c) (env_HMAC env') \<and> valid_utf8 (env_HMAC env')"
    and sign_total: "key_ok k \<Longrightarrow> Canonical env = Inr c \<Longrightarrow> \<exists>env'. sign k env = Inr env'"
    and verify_iff: "verify k env = Inr () \<longleftrightarrow>
      key_ok k \<and> (\<exists>c. Canonical env = Inr c \<and> accepts (tag k c) (env_HMAC env))"
    and accepts_unique: "accepts t h \<Longrightarrow> accepts t' h \<Longrightarrow> t = t'"
begin

lemma sign_keeps:
  assumes "sign k env = Inr env'"
  shows "Canonical env' = Canonical env" "wf_strings env \<Longrightarrow> wf_strings env'" "env_Body env' = env_Body env"
    "env_ID env' = env_ID env" "env_From env' = env_From env" "env_To env' = env_To env" "env_Kind env' = env_Kind env"
proof -
  obtain h where "env' = env\<lparr>env_HMAC := h\<rparr>" "valid_utf8 h" using sign_tags [OF assms] by blast
  then show "Canonical env' = Canonical env" "wf_strings env \<Longrightarrow> wf_strings env'" "env_Body env' = env_Body env"
    "env_ID env' = env_ID env" "env_From env' = env_From env" "env_To env' = env_To env" "env_Kind env' = env_Kind env"
    by (simp_all add: wf_strings_HMAC)
qed

lemma verify_transport:
  assumes "sign k env = Inr env'" "Canonical e = Canonical env" "env_HMAC e = env_HMAC env'"
  shows "verify k e = Inr ()"
  using sign_tags [OF assms(1)] assms(2,3) by (auto simp: verify_iff)

lemma verify_delivered:
  assumes "sign k env = Inr env'" "wf_strings env" "body_fits 2 (env_Body env)" "valid_utf8 key"
    "marshal_deliver \<lparr>del_ProtocolVersion = ProtocolVersion, del_Type = ControlDeliver,
       del_DeliveryKey = key, del_Envelope = env'\<rparr> = Some fr"
  shows "\<exists>d. unmarshal_deliver fr = Inr d \<and> del_DeliveryKey d = key \<and> del_Envelope d = norm_envelope env' \<and>
    verify k (del_Envelope d) = Inr ()"
proof -
  have "wf_strings env'" "env_Body env' = env_Body env" using sign_keeps [OF assms(1)] assms(2) by auto
  then have "unmarshal_deliver fr = Inr \<lparr>del_ProtocolVersion = ProtocolVersion, del_Type = ControlDeliver,
       del_DeliveryKey = key, del_Envelope = norm_envelope env'\<rparr>"
    using unmarshal_deliver_print [of "\<lparr>del_ProtocolVersion = ProtocolVersion, del_Type = ControlDeliver,
       del_DeliveryKey = key, del_Envelope = env'\<rparr>"] assms(3-5) by (simp add: ProtocolVersion_def)
  moreover have "verify k (norm_envelope env') = Inr ()"
    using verify_transport [OF assms(1)] sign_keeps(1) [OF assms(1)] by (simp add: Canonical_norm)
  ultimately show ?thesis by simp
qed

lemma verify_binds:
  assumes "sign k env = Inr env'" "verify k e = Inr ()" "env_HMAC e = env_HMAC env'"
    "wf_strings env" "wf_strings e" "body_fits 1 (env_Body env)" "body_fits 1 (env_Body e)"
  shows "(norm_envelope e)\<lparr>env_HMAC := []\<rparr> = (norm_envelope env)\<lparr>env_HMAC := []\<rparr> \<or>
    (\<exists>c c'. Canonical env = Inr c \<and> Canonical e = Inr c' \<and> c \<noteq> c' \<and> tag k c = tag k c')"
proof -
  obtain c where c: "Canonical env = Inr c" "accepts (tag k c) (env_HMAC env')"
    using sign_tags [OF assms(1)] by blast
  obtain c' where c': "Canonical e = Inr c'" "accepts (tag k c') (env_HMAC e)"
    using assms(2) by (auto simp: verify_iff)
  show ?thesis
  proof (cases "c = c'")
    case True
    with Canonical_fields [OF _ c(1) assms(5,4,7,6)] c'(1) show ?thesis by simp
  next
    case False
    with c c' accepts_unique [OF c(2)] assms(3) show ?thesis by metis
  qed
qed

end

section \<open>The model satisfies the interface\<close>

lemma Sign_ok_iff:
  "Sign k env = Inr h \<longleftrightarrow>
     MinSecretLen \<le> length k \<and> (\<exists>c. Canonical env = Inr c \<and> h = hex_encode (hmac_sha256 k c))"
  by (auto simp: Sign_def checkSecret_def split: sum.splits option.splits)

lemma Verify_ok_iff:
  "Verify k env = Inr () \<longleftrightarrow>
     MinSecretLen \<le> length k \<and> (\<exists>c. Canonical env = Inr c \<and> hex_decode (env_HMAC env) = Some (hmac_sha256 k c))"
proof -
  have "env_HMAC env = [] \<Longrightarrow> hex_decode (env_HMAC env) \<noteq> Some (hmac_sha256 k c)" for c
    using length_hmac_sha256 [of k c] by (metis hex_decode.simps(1) list.size(3) option.inject zero_neq_numeral)
  then show ?thesis
    by (auto simp: Verify_def checkSecret_def Let_def split: sum.splits option.splits)
qed

lemma hex_digit_ascii: "byte (hex_digit n) < 128"
proof -
  have "list_all (\<lambda>k. byte (hex_digit k) < 128) [0..<16]" by (simp add: upt_rec hex_digit_def)
  moreover have "n mod 16 \<in> set [0..<16]" by simp
  ultimately have "byte (hex_digit (n mod 16)) < 128" by (simp only: list_all_iff)
  then show ?thesis by (simp add: hex_digit_def)
qed

lemma valid_utf8_hex [simp]: "valid_utf8 (hex_encode bs)"
proof -
  have "list_all (\<lambda>c. byte c < 128) (hex_encode bs)" by (induction bs) (auto simp: hex_digit_ascii)
  then show ?thesis by (rule valid_utf8_ascii)
qed

interpretation hm: envelope_mac SignEnvelope VerifyEnvelope "\<lambda>k. MinSecretLen \<le> length k" hmac_sha256
  "\<lambda>t h. hex_decode h = Some t"
proof unfold_locales
  fix k :: bytes and env env' :: envelope
  assume "SignEnvelope k env = Inr env'"
  then obtain h where "Sign k env = Inr h" "env' = env\<lparr>env_HMAC := h\<rparr>"
    by (auto simp: SignEnvelope_def split: sum.splits)
  then show "\<exists>c. MinSecretLen \<le> length k \<and> Canonical env = Inr c \<and> env' = env\<lparr>env_HMAC := env_HMAC env'\<rparr> \<and>
      hex_decode (env_HMAC env') = Some (hmac_sha256 k c) \<and> valid_utf8 (env_HMAC env')"
    by (auto simp: Sign_ok_iff)
next
  fix k :: bytes and env :: envelope and c
  assume "MinSecretLen \<le> length k" "Canonical env = Inr c"
  then have "Sign k env = Inr (hex_encode (hmac_sha256 k c))" by (simp add: Sign_ok_iff)
  then show "\<exists>env'. SignEnvelope k env = Inr env'" by (simp add: SignEnvelope_def)
qed (auto simp: VerifyEnvelope_def Verify_ok_iff)

section \<open>Properties of message authentication\<close>

definition demo_secret :: bytes where
  "demo_secret = replicate 32 (CHR ''k'')"

definition demo_signed :: envelope where
  "demo_signed = projr (SignEnvelope demo_secret demo_envelope)"

lemma demo_signed_ok: "SignEnvelope demo_secret demo_envelope = Inr demo_signed"
proof -
  have "MinSecretLen \<le> length demo_secret" by (simp add: demo_secret_def MinSecretLen_def)
  then obtain env' where "SignEnvelope demo_secret demo_envelope = Inr env'"
    using hm.sign_total demo_envelope_variant(1) by blast
  then show ?thesis by (simp add: demo_signed_def)
qed

text \<open>C13: Whatever \<open>SignEnvelope\<close> signs, the recipient's \<open>VerifyEnvelope\<close> accepts under the same secret
  after the envelope has travelled in the broker's \<open>Deliver\<close> frame, and signing fails only on a
  secret below \<open>MinSecretLen\<close> or a body that is not JSON.\<close>

theorem sign_deliver_verify:
  assumes "wf_strings env" "body_fits 2 (env_Body env)" "valid_utf8 key" "MinSecretLen \<le> length secret"
  shows "\<exists>sg fr d. SignEnvelope secret env = Inr sg \<and>
    marshal_deliver \<lparr>del_ProtocolVersion = ProtocolVersion, del_Type = ControlDeliver,
       del_DeliveryKey = key, del_Envelope = sg\<rparr> = Some fr \<and>
    unmarshal_deliver fr = Inr d \<and> VerifyEnvelope secret (del_Envelope d) = Inr ()"
proof -
  obtain c where "Canonical env = Inr c"
    using body_fits_text(1) [OF assms(2)] by (simp add: Canonical_eq)
  then obtain sg where s: "SignEnvelope secret env = Inr sg"
    using hm.sign_total [OF assms(4)] by blast
  let ?d = "\<lparr>del_ProtocolVersion = ProtocolVersion, del_Type = ControlDeliver,
       del_DeliveryKey = key, del_Envelope = sg\<rparr>"
  obtain fr where "marshal_deliver ?d = Some fr"
    using ControlTypeOf_deliver [of ?d] assms(2) hm.sign_keeps(3) [OF s] by auto
  with s hm.verify_delivered [OF s assms(1-3), of fr] show ?thesis by blast
qed

theorem sign_deliver_verify_witness:
  "\<exists>sg fr d. SignEnvelope demo_secret demo_envelope = Inr sg \<and>
    marshal_deliver \<lparr>del_ProtocolVersion = ProtocolVersion, del_Type = ControlDeliver,
       del_DeliveryKey = ''m1'', del_Envelope = sg\<rparr> = Some fr \<and>
    unmarshal_deliver fr = Inr d \<and> VerifyEnvelope demo_secret (del_Envelope d) = Inr ()"
  by (rule sign_deliver_verify) (simp_all add: demo_envelope_ok demo_secret_def MinSecretLen_def valid_utf8_Cons_ascii)

text \<open>C14: An envelope accepted under a tag that an honest sender produced either agrees with the
  sender's envelope on every signed field, or exhibits two different messages with the same
  HMAC-SHA256 under the shared secret.\<close>

theorem tampering_is_collision:
  assumes "SignEnvelope secret env = Inr sg" "VerifyEnvelope secret e = Inr ()" "env_HMAC e = env_HMAC sg"
    "wf_strings env" "wf_strings e" "body_fits 1 (env_Body env)" "body_fits 1 (env_Body e)"
  shows "(env_ProtocolVersion e = env_ProtocolVersion env \<and> env_ID e = env_ID env \<and> env_From e = env_From env \<and>
      env_To e = env_To env \<and> env_TS e = env_TS env \<and> env_Source e = env_Source env \<and>
      env_Kind e = env_Kind env \<and> norm_body (env_Body e) = norm_body (env_Body env)) \<or>
    (\<exists>c c'. Canonical env = Inr c \<and> Canonical e = Inr c' \<and> c \<noteq> c' \<and> hmac_sha256 secret c = hmac_sha256 secret c')"
proof -
  have "?thesis" if "(norm_envelope e)\<lparr>env_HMAC := []\<rparr> = (norm_envelope env)\<lparr>env_HMAC := []\<rparr>"
    using signed_fields_eq [OF that] by simp
  with hm.verify_binds [OF assms] show ?thesis by blast
qed

theorem tampering_is_collision_witness:
  "env_ID demo_signed = env_ID demo_envelope \<or>
    (\<exists>c c'. Canonical demo_envelope = Inr c \<and> Canonical demo_signed = Inr c' \<and> c \<noteq> c' \<and>
       hmac_sha256 demo_secret c = hmac_sha256 demo_secret c')"
proof -
  have "VerifyEnvelope demo_secret demo_signed = Inr ()"
    using hm.verify_transport [OF demo_signed_ok] hm.sign_keeps(1) [OF demo_signed_ok] by simp
  with tampering_is_collision [OF demo_signed_ok, of demo_signed] show ?thesis
    using demo_envelope_ok hm.sign_keeps(2,3) [OF demo_signed_ok] by auto
qed

text \<open>\<open>Verify\<close> accepts exactly the envelopes whose \<open>hmac\<close> field is the hexadecimal form, in either
  letter case, of the HMAC-SHA256 of the canonical bytes under a secret of at least
  \<open>MinSecretLen\<close> bytes; a short secret, a missing or malformed \<open>hmac\<close> field are rejected first,
  in that order.\<close>

theorem verify_exact:
  "(Verify secret env = Inr () \<longleftrightarrow> MinSecretLen \<le> length secret \<and>
      (\<exists>c. Canonical env = Inr c \<and> hex_decode (env_HMAC env) = Some (hmac_sha256 secret c))) \<and>
   (Verify secret env = Inl ErrShortSecret \<longleftrightarrow> length secret < MinSecretLen) \<and>
   (Verify secret env = Inl ErrMissingHMAC \<longleftrightarrow> MinSecretLen \<le> length secret \<and> env_HMAC env = []) \<and>
   (Verify secret env = Inl ErrBadHMACHex \<longleftrightarrow> MinSecretLen \<le> length secret \<and> hex_decode (env_HMAC env) = None)"
proof (intro conjI)
  show "Verify secret env = Inr () \<longleftrightarrow> MinSecretLen \<le> length secret \<and>
      (\<exists>c. Canonical env = Inr c \<and> hex_decode (env_HMAC env) = Some (hmac_sha256 secret c))"
    by (rule Verify_ok_iff)
qed (auto simp: Verify_def checkSecret_def Let_def split: sum.splits option.splits)

end
