(* ===== verification/Store.thy ===== *)
theory Store
  imports Peerbus_Prelude "HOL-Library.Product_Lexorder"
begin

text \<open>
  Package \<open>internal/store\<close>: the durable queue.  The SQLite database is the four tables of
  \<open>schema.sql\<close>, each the list of its rows in insertion order; every SQL statement of
  \<open>store.go\<close> is a list operation.  SQLite and \<open>database/sql\<close> are not under this repository:
  whether a statement fails, and the clock, are the argument \<open>dbenv\<close> of each operation, and
  a failing statement (or a failing commit) leaves the tables as they were, as SQLite
  documents.  An empty envelope or event is Go's nil slice, which is bound as \<open>NULL\<close>.
\<close>

section \<open>Rows and tables\<close>

record peer_row =
  peer_name :: string
  peer_registered :: int
  peer_ts :: int

record message =
  msg_ID :: string
  msg_From :: string
  msg_To :: string
  msg_Envelope :: bytes
  msg_Delivered :: bool
  msg_Acked :: bool
  msg_Attempts :: int
  msg_Seq :: int
  msg_TS :: int

record audit_row =
  ar_Seq :: int
  ar_PrevHash :: string
  ar_Hash :: string
  ar_Event :: bytes
  ar_TS :: int

record store =
  st_peers :: "peer_row list"
  st_messages :: "message list"
  st_sender_seq :: "(string \<times> int) list"
  st_audit :: "audit_row list"
  st_closed :: bool

text \<open>The statements of an operation, in the order of the source.\<close>

datatype db_stage =
    StBegin | StPeerCheck | StDedupe | StSeqRead | StSeqBump | StInsert | StCommit
  | StExec | StQuery | StScan | StRows | StRowsAffected | StClose | StOpen | StPing | StMigrate

record dbenv =
  db_now :: int
  db_fault :: "db_stage \<Rightarrow> bool"

datatype store_error =
    ErrClosed | ErrDuplicateID | ErrUnknownPeer
  | EmptyPeerName | FieldsRequired | HashRequired | DbError db_stage

type_synonym 'a store_op = "store \<Rightarrow> (store_error, 'a) result \<times> store"

definition empty_store :: store where
  "empty_store = \<lparr>st_peers = [], st_messages = [], st_sender_seq = [], st_audit = [], st_closed = False\<rparr>"

section \<open>SQL statements\<close>

definition upsert_peer :: "string \<Rightarrow> int \<Rightarrow> peer_row list \<Rightarrow> peer_row list" where
  "upsert_peer n now ps =
     (if n \<in> peer_name ` set ps
      then map (\<lambda>p. if peer_name p = n then p\<lparr>peer_registered := now\<rparr> else p) ps
      else ps @ [\<lparr>peer_name = n, peer_registered = now, peer_ts = now\<rparr>])"

definition upsert_seq :: "string \<Rightarrow> int \<Rightarrow> (string \<times> int) list \<Rightarrow> (string \<times> int) list" where
  "upsert_seq s n q =
     (if s \<in> fst ` set q then map (\<lambda>p. if fst p = s then (s, n) else p) q else q @ [(s, n)])"

definition insert_message :: "message \<Rightarrow> message list \<Rightarrow> message list option" where
  "insert_message m ms = (if msg_ID m \<in> msg_ID ` set ms \<or> msg_Envelope m = [] then None else Some (ms @ [m]))"

definition insert_audit :: "audit_row \<Rightarrow> audit_row list \<Rightarrow> audit_row list option" where
  "insert_audit r rs = (if ar_Seq r \<in> ar_Seq ` set rs \<or> ar_Event r = [] then None else Some (rs @ [r]))"

definition pending_key :: "message \<Rightarrow> string \<times> int \<times> int" where
  "pending_key m = (msg_From m, msg_Seq m, msg_TS m)"

definition select_pending :: "string \<Rightarrow> message list \<Rightarrow> message list" where
  "select_pending n ms = sort_key pending_key (filter (\<lambda>m. msg_To m = n \<and> \<not> msg_Delivered m) ms)"

section \<open>store.go\<close>

text \<open>
  \<open>Open\<close> works on what the file at the path holds: nothing yet, or the tables an earlier
  process left.  Every statement of the schema is \<open>IF NOT EXISTS\<close>, so existing tables stay.
\<close>

definition migrate :: "dbenv \<Rightarrow> store option \<Rightarrow> (store_error, store) result" where
  "migrate e disk =
     (if db_fault e StMigrate then Inl (DbError StMigrate)
      else Inr (case disk of None \<Rightarrow> empty_store | Some db \<Rightarrow> db))"

definition Open :: "dbenv \<Rightarrow> store option \<Rightarrow> (store_error, store) result" where
  "Open e disk =
     (if db_fault e StOpen then Inl (DbError StOpen)
      else if db_fault e StPing then Inl (DbError StPing)
      else (case migrate e disk of
         Inl err \<Rightarrow> Inl err
       | Inr db \<Rightarrow> Inr (db\<lparr>st_closed := False\<rparr>)))"

definition Close :: "dbenv \<Rightarrow> unit store_op" where
  "Close e st =
     (if st_closed st then (Inr (), st)
      else (if db_fault e StClose then Inl (DbError StClose) else Inr (), st\<lparr>st_closed := True\<rparr>))"

definition okToUse :: "store \<Rightarrow> store_error option" where
  "okToUse st = (if st_closed st then Some ErrClosed else None)"

definition Register :: "dbenv \<Rightarrow> string \<Rightarrow> unit store_op" where
  "Register e n st =
     (case okToUse st of
        Some err \<Rightarrow> (Inl err, st)
      | None \<Rightarrow>
          if n = [] then (Inl EmptyPeerName, st)
          else if db_fault e StExec then (Inl (DbError StExec), st)
          else (Inr (), st\<lparr>st_peers := upsert_peer n (db_now e) (st_peers st)\<rparr>))"

definition peerExists :: "dbenv \<Rightarrow> string \<Rightarrow> store \<Rightarrow> (store_error, bool) result" where
  "peerExists e n st =
     (if db_fault e StPeerCheck then Inl (DbError StPeerCheck) else Inr (n \<in> peer_name ` set (st_peers st)))"

definition Enqueue :: "dbenv \<Rightarrow> message \<Rightarrow> unit store_op" where
  "Enqueue e msg st =
     (case okToUse st of
        Some err \<Rightarrow> (Inl err, st)
      | None \<Rightarrow>
          if msg_ID msg = [] \<or> msg_From msg = [] \<or> msg_To msg = [] then (Inl FieldsRequired, st)
          else if db_fault e StBegin then (Inl (DbError StBegin), st)
          else if db_fault e StPeerCheck then (Inl (DbError StPeerCheck), st)
          else if msg_To msg \<notin> peer_name ` set (st_peers st) then (Inl ErrUnknownPeer, st)
          else if db_fault e StDedupe then (Inl (DbError StDedupe), st)
          else if msg_ID msg \<in> msg_ID ` set (st_messages st) then (Inl ErrDuplicateID, st)
          else if db_fault e StSeqRead then (Inl (DbError StSeqRead), st)
          else
            (let seq = (case map_of (st_sender_seq st) (msg_From msg) of Some n \<Rightarrow> n | None \<Rightarrow> 0) in
             if db_fault e StSeqBump then (Inl (DbError StSeqBump), st)
             else
               (let tx = st\<lparr>st_sender_seq := upsert_seq (msg_From msg) (wrap64 (seq + 1)) (st_sender_seq st)\<rparr>;
                    row = msg\<lparr>msg_Delivered := False, msg_Acked := False, msg_Attempts := 0,
                              msg_Seq := seq, msg_TS := db_now e\<rparr>
                in case insert_message row (st_messages tx) of
                     None \<Rightarrow> (Inl (DbError StInsert), st)
                   | Some ms \<Rightarrow>
                       if db_fault e StInsert then (Inl (DbError StInsert), st)
                       else if db_fault e StCommit then (Inl (DbError StCommit), st)
                       else (Inr (), tx\<lparr>st_messages := ms\<rparr>))))"

definition PendingFor :: "dbenv \<Rightarrow> string \<Rightarrow> message list store_op" where
  "PendingFor e n st =
     (case okToUse st of
        Some err \<Rightarrow> (Inl err, st)
      | None \<Rightarrow>
          (case peerExists e n st of
             Inl err \<Rightarrow> (Inl err, st)
           | Inr exists \<Rightarrow>
               if \<not> exists then (Inl ErrUnknownPeer, st)
               else if db_fault e StQuery then (Inl (DbError StQuery), st)
               else if db_fault e StScan then (Inl (DbError StScan), st)
               else if db_fault e StRows then (Inl (DbError StRows), st)
               else (Inr (select_pending n (st_messages st)), st)))"

definition MarkDelivered :: "dbenv \<Rightarrow> string \<Rightarrow> unit store_op" where
  "MarkDelivered e i st =
     (case okToUse st of
        Some err \<Rightarrow> (Inl err, st)
      | None \<Rightarrow>
          if db_fault e StExec then (Inl (DbError StExec), st)
          else (Inr (), st\<lparr>st_messages :=
                 map (\<lambda>m. if msg_ID m = i then m\<lparr>msg_Delivered := True, msg_Attempts := msg_Attempts m + 1\<rparr> else m)
                   (st_messages st)\<rparr>))"

definition MarkAcked :: "dbenv \<Rightarrow> string \<Rightarrow> unit store_op" where
  "MarkAcked e i st =
     (case okToUse st of
        Some err \<Rightarrow> (Inl err, st)
      | None \<Rightarrow>
          if db_fault e StExec then (Inl (DbError StExec), st)
          else (Inr (), st\<lparr>st_messages :=
                 map (\<lambda>m. if msg_ID m = i then m\<lparr>msg_Acked := True\<rparr> else m) (st_messages st)\<rparr>))"

definition AuditAppend :: "dbenv \<Rightarrow> audit_row \<Rightarrow> unit store_op" where
  "AuditAppend e r st =
     (case okToUse st of
        Some err \<Rightarrow> (Inl err, st)
      | None \<Rightarrow>
          if ar_Hash r = [] \<or> ar_PrevHash r = [] then (Inl HashRequired, st)
          else (case insert_audit (r\<lparr>ar_TS := db_now e\<rparr>) (st_audit st) of
             None \<Rightarrow> (Inl (DbError StInsert), st)
           | Some rs \<Rightarrow>
               if db_fault e StInsert then (Inl (DbError StInsert), st)
               else (Inr (), st\<lparr>st_audit := rs\<rparr>)))"

definition AuditRows :: "dbenv \<Rightarrow> audit_row list store_op" where
  "AuditRows e st =
     (case okToUse st of
        Some err \<Rightarrow> (Inl err, st)
      | None \<Rightarrow>
          if db_fault e StQuery then (Inl (DbError StQuery), st)
          else if db_fault e StScan then (Inl (DbError StScan), st)
          else if db_fault e StRows then (Inl (DbError StRows), st)
          else (Inr (sort_key ar_Seq (st_audit st)), st))"

definition AuditCount :: "dbenv \<Rightarrow> int store_op" where
  "AuditCount e st =
     (case okToUse st of
        Some err \<Rightarrow> (Inl err, st)
      | None \<Rightarrow>
          if db_fault e StQuery then (Inl (DbError StQuery), st)
          else (Inr (int (length (st_audit st))), st))"

definition AuditLast :: "dbenv \<Rightarrow> audit_row option store_op" where
  "AuditLast e st =
     (case okToUse st of
        Some err \<Rightarrow> (Inl err, st)
      | None \<Rightarrow>
          if db_fault e StQuery then (Inl (DbError StQuery), st)
          else (Inr (if st_audit st = [] then None else Some (last (sort_key ar_Seq (st_audit st)))), st))"

definition AuditTamper :: "dbenv \<Rightarrow> int \<Rightarrow> bytes \<Rightarrow> string \<Rightarrow> unit store_op" where
  "AuditTamper e q event hash st =
     (case okToUse st of
        Some err \<Rightarrow> (Inl err, st)
      | None \<Rightarrow>
          if db_fault e StExec \<or> event = [] \<and> q \<in> ar_Seq ` set (st_audit st) then (Inl (DbError StExec), st)
          else (Inr (), st\<lparr>st_audit :=
                 map (\<lambda>r. if ar_Seq r = q then r\<lparr>ar_Event := event, ar_Hash := hash\<rparr> else r) (st_audit st)\<rparr>))"

text \<open>An UPDATE that ran is committed even when \<open>RowsAffected\<close> then fails.\<close>

definition RequeueUnacked :: "dbenv \<Rightarrow> string \<Rightarrow> nat store_op" where
  "RequeueUnacked e n st =
     (case okToUse st of
        Some err \<Rightarrow> (Inl err, st)
      | None \<Rightarrow>
          (case peerExists e n st of
             Inl err \<Rightarrow> (Inl err, st)
           | Inr exists \<Rightarrow>
               if \<not> exists then (Inl ErrUnknownPeer, st)
               else if db_fault e StExec then (Inl (DbError StExec), st)
               else
                 (let hit = (\<lambda>m. msg_To m = n \<and> msg_Delivered m \<and> \<not> msg_Acked m);
                      st' = st\<lparr>st_messages := map (\<lambda>m. if hit m then m\<lparr>msg_Delivered := False\<rparr> else m) (st_messages st)\<rparr>
                  in if db_fault e StRowsAffected then (Inl (DbError StRowsAffected), st')
                     else (Inr (length (filter hit (st_messages st))), st'))))"

section \<open>Effect of the operations\<close>

definition next_seq :: "store \<Rightarrow> string \<Rightarrow> int" where
  "next_seq st s = (case map_of (st_sender_seq st) s of Some n \<Rightarrow> n | None \<Rightarrow> 0)"

definition from_sender :: "string \<Rightarrow> message list \<Rightarrow> message list" where
  "from_sender s ms = filter (\<lambda>m. msg_From m = s) ms"

definition fresh_row :: "dbenv \<Rightarrow> message \<Rightarrow> store \<Rightarrow> message" where
  "fresh_row e msg st = msg\<lparr>msg_Delivered := False, msg_Acked := False, msg_Attempts := 0,
     msg_Seq := next_seq st (msg_From msg), msg_TS := db_now e\<rparr>"

lemma fresh_row_simps [simp]:
  "msg_ID (fresh_row e m st) = msg_ID m" "msg_From (fresh_row e m st) = msg_From m"
  "msg_To (fresh_row e m st) = msg_To m" "msg_Envelope (fresh_row e m st) = msg_Envelope m"
  "\<not> msg_Delivered (fresh_row e m st)" "\<not> msg_Acked (fresh_row e m st)"
  "msg_Seq (fresh_row e m st) = next_seq st (msg_From m)" "msg_Attempts (fresh_row e m st) = 0"
  by (simp_all add: fresh_row_def)

text \<open>What a successful \<open>Enqueue\<close> requires and does; any other outcome changes nothing.\<close>

definition enqueued :: "dbenv \<Rightarrow> message \<Rightarrow> store \<Rightarrow> store" where
  "enqueued e msg st = st\<lparr>
     st_sender_seq := upsert_seq (msg_From msg) (wrap64 (next_seq st (msg_From msg) + 1)) (st_sender_seq st),
     st_messages := st_messages st @ [fresh_row e msg st]\<rparr>"

lemma Enqueue_outcome:
  "Enqueue e msg st = (Inr (), enqueued e msg st) \<and> \<not> st_closed st \<and>
      msg_ID msg \<noteq> [] \<and> msg_From msg \<noteq> [] \<and> msg_To msg \<in> peer_name ` set (st_peers st) \<and>
      msg_ID msg \<notin> msg_ID ` set (st_messages st) \<and> msg_Envelope msg \<noteq> [] \<or>
   (\<exists>err. Enqueue e msg st = (Inl err, st))"
proof -
  have "(case map_of (st_sender_seq st) (msg_From msg) of Some n \<Rightarrow> n | None \<Rightarrow> 0) = next_seq st (msg_From msg)"
    by (simp add: next_seq_def)
  then show ?thesis
    by (simp add: Enqueue_def okToUse_def insert_message_def enqueued_def fresh_row_def Let_def split: if_splits)
qed

lemma Enqueue_ok:
  assumes "fst (Enqueue e msg st) = Inr ()"
  shows "snd (Enqueue e msg st) = enqueued e msg st" "\<not> st_closed st"
    "msg_ID msg \<noteq> []" "msg_From msg \<noteq> []" "msg_To msg \<in> peer_name ` set (st_peers st)"
    "msg_ID msg \<notin> msg_ID ` set (st_messages st)" "msg_Envelope msg \<noteq> []"
  using Enqueue_outcome [of e msg st] assms by auto

lemma Enqueue_err: "fst (Enqueue e msg st) = Inl err \<Longrightarrow> snd (Enqueue e msg st) = st"
  using Enqueue_outcome [of e msg st] by auto

lemma Enqueue_snd: "snd (Enqueue e msg st) = st \<or>
   fst (Enqueue e msg st) = Inr () \<and> snd (Enqueue e msg st) = enqueued e msg st"
  using Enqueue_outcome [of e msg st] by auto

definition set_delivered :: "string \<Rightarrow> message \<Rightarrow> message" where
  "set_delivered i m = (if msg_ID m = i then m\<lparr>msg_Delivered := True, msg_Attempts := msg_Attempts m + 1\<rparr> else m)"

definition set_acked :: "string \<Rightarrow> message \<Rightarrow> message" where
  "set_acked i m = (if msg_ID m = i then m\<lparr>msg_Acked := True\<rparr> else m)"

definition set_requeued :: "string \<Rightarrow> message \<Rightarrow> message" where
  "set_requeued n m = (if msg_To m = n \<and> msg_Delivered m \<and> \<not> msg_Acked m then m\<lparr>msg_Delivered := False\<rparr> else m)"

lemma set_flags_keep [simp]:
  "msg_ID (set_delivered i m) = msg_ID m" "msg_From (set_delivered i m) = msg_From m"
  "msg_To (set_delivered i m) = msg_To m" "msg_Envelope (set_delivered i m) = msg_Envelope m"
  "msg_Seq (set_delivered i m) = msg_Seq m" "msg_Acked (set_delivered i m) = msg_Acked m" "msg_TS (set_delivered i m) = msg_TS m"
  "msg_ID (set_acked i m) = msg_ID m" "msg_From (set_acked i m) = msg_From m"
  "msg_To (set_acked i m) = msg_To m" "msg_Envelope (set_acked i m) = msg_Envelope m"
  "msg_Seq (set_acked i m) = msg_Seq m" "msg_Delivered (set_acked i m) = msg_Delivered m" "msg_TS (set_acked i m) = msg_TS m"
  "msg_ID (set_requeued n m) = msg_ID m" "msg_From (set_requeued n m) = msg_From m"
  "msg_To (set_requeued n m) = msg_To m" "msg_Envelope (set_requeued n m) = msg_Envelope m"
  "msg_Seq (set_requeued n m) = msg_Seq m" "msg_Acked (set_requeued n m) = msg_Acked m" "msg_TS (set_requeued n m) = msg_TS m"
  by (simp_all add: set_delivered_def set_acked_def set_requeued_def)

lemma MarkDelivered_eq [store_simps]:
  "MarkDelivered e i st =
     (if st_closed st then (Inl ErrClosed, st) else if db_fault e StExec then (Inl (DbError StExec), st)
      else (Inr (), st\<lparr>st_messages := map (set_delivered i) (st_messages st)\<rparr>))"
  by (simp add: MarkDelivered_def okToUse_def set_delivered_def [abs_def])

lemma MarkAcked_eq [store_simps]:
  "MarkAcked e i st =
     (if st_closed st then (Inl ErrClosed, st) else if db_fault e StExec then (Inl (DbError StExec), st)
      else (Inr (), st\<lparr>st_messages := map (set_acked i) (st_messages st)\<rparr>))"
  by (simp add: MarkAcked_def okToUse_def set_acked_def [abs_def])

lemma RequeueUnacked_snd:
  "snd (RequeueUnacked e n st) = st \<or>
   snd (RequeueUnacked e n st) = st\<lparr>st_messages := map (set_requeued n) (st_messages st)\<rparr>"
  by (simp add: RequeueUnacked_def okToUse_def peerExists_def Let_def set_requeued_def [abs_def])

lemma RequeueUnacked_ok:
  assumes "fst (RequeueUnacked e n st) = Inr k"
  shows "snd (RequeueUnacked e n st) = st\<lparr>st_messages := map (set_requeued n) (st_messages st)\<rparr>"
    "n \<in> peer_name ` set (st_peers st)" "\<not> st_closed st"
  using assms
  by (auto simp: RequeueUnacked_def okToUse_def peerExists_def Let_def set_requeued_def [abs_def] split: if_splits)

lemma Register_snd:
  "snd (Register e n st) = st \<or>
   n \<noteq> [] \<and> snd (Register e n st) = st\<lparr>st_peers := upsert_peer n (db_now e) (st_peers st)\<rparr>"
  by (simp add: Register_def okToUse_def)

lemma AuditAppend_snd:
  "snd (AuditAppend e r st) = st \<or>
   fst (AuditAppend e r st) = Inr () \<and> ar_Seq r \<notin> ar_Seq ` set (st_audit st) \<and>
   snd (AuditAppend e r st) = st\<lparr>st_audit := st_audit st @ [r\<lparr>ar_TS := db_now e\<rparr>]\<rparr>"
  by (simp add: AuditAppend_def okToUse_def insert_audit_def)

lemma PendingFor_ok:
  "fst (PendingFor e n st) = Inr ms \<Longrightarrow>
     ms = select_pending n (st_messages st) \<and> n \<in> peer_name ` set (st_peers st) \<and> \<not> st_closed st"
  by (auto simp: PendingFor_def okToUse_def peerExists_def split: if_splits)

lemma read_only [simp]:
  "snd (PendingFor e n st) = st" "snd (AuditRows e st) = st" "snd (AuditCount e st) = st" "snd (AuditLast e st) = st"
  by (simp_all add: PendingFor_def AuditRows_def AuditCount_def AuditLast_def split: option.splits sum.splits)

section \<open>Steps of the store\<close>

inductive store_step :: "store \<Rightarrow> store \<Rightarrow> bool" where
  step_Register: "store_step st (snd (Register e n st))"
| step_Enqueue: "store_step st (snd (Enqueue e msg st))"
| step_MarkDelivered: "store_step st (snd (MarkDelivered e i st))"
| step_MarkAcked: "store_step st (snd (MarkAcked e i st))"
| step_RequeueUnacked: "store_step st (snd (RequeueUnacked e n st))"
| step_AuditAppend: "store_step st (snd (AuditAppend e r st))"
| step_Close: "store_step st (snd (Close e st))"
| step_Open: "Open e (Some st) = Inr st' \<Longrightarrow> store_step st st'"

text \<open>The same relation by the effect on the tables.\<close>

lemma store_step_cases [consumes 1, case_names same register enqueue messages audit closed]:
  assumes "store_step st st'"
    and "st' = st \<Longrightarrow> P"
    and "\<And>n now. n \<noteq> [] \<Longrightarrow> st' = st\<lparr>st_peers := upsert_peer n now (st_peers st)\<rparr> \<Longrightarrow> P"
    and "\<And>e msg. fst (Enqueue e msg st) = Inr () \<Longrightarrow> st' = enqueued e msg st \<Longrightarrow> P"
    and "\<And>f. st' = st\<lparr>st_messages := map f (st_messages st)\<rparr> \<Longrightarrow>
        (\<exists>i. f = set_delivered i) \<or> (\<exists>i. f = set_acked i) \<or> (\<exists>n. f = set_requeued n) \<Longrightarrow> P"
    and "\<And>r. ar_Seq r \<notin> ar_Seq ` set (st_audit st) \<Longrightarrow> st' = st\<lparr>st_audit := st_audit st @ [r]\<rparr> \<Longrightarrow> P"
    and "\<And>b. st' = st\<lparr>st_closed := b\<rparr> \<Longrightarrow> P"
  shows P
  using assms(1)
proof cases
  case (step_Register e n)
  then show ?thesis using Register_snd [of e n st] assms(2,3) by metis
next
  case (step_Enqueue e msg)
  then show ?thesis using Enqueue_snd [of e msg st] assms(2,4) by metis
next
  case (step_MarkDelivered e i)
  then have "st' = st \<or> st' = st\<lparr>st_messages := map (set_delivered i) (st_messages st)\<rparr>"
    by (simp add: store_simps)
  then show ?thesis using assms(2,5) by blast
next
  case (step_MarkAcked e i)
  then have "st' = st \<or> st' = st\<lparr>st_messages := map (set_acked i) (st_messages st)\<rparr>"
    by (simp add: store_simps)
  then show ?thesis using assms(2,5) by blast
next
  case (step_RequeueUnacked e n)
  then show ?thesis using RequeueUnacked_snd [of e n st] assms(2,5) by metis
next
  case (step_AuditAppend e r)
  let ?r = "r\<lparr>ar_TS := db_now e\<rparr>"
  from step_AuditAppend have "st' = st \<or> ar_Seq ?r \<notin> ar_Seq ` set (st_audit st) \<and> st' = st\<lparr>st_audit := st_audit st @ [?r]\<rparr>"
    using AuditAppend_snd [of e r st] by auto
  then show ?thesis using assms(2,6) by blast
next
  case (step_Close e)
  then have "st' = st \<or> st' = st\<lparr>st_closed := True\<rparr>" by (simp add: Close_def)
  then show ?thesis using assms(2,7) by blast
next
  case (step_Open e)
  then have "st' = st\<lparr>st_closed := False\<rparr>" by (auto simp: Open_def migrate_def split: if_splits)
  then show ?thesis using assms(7) by blast
qed

section \<open>Invariant\<close>

definition seqs_ok :: "store \<Rightarrow> string \<Rightarrow> bool" where
  "seqs_ok st s \<longleftrightarrow>
     (let ms = from_sender s (st_messages st) in
      map msg_Seq ms = map (\<lambda>i. wrap64 (int i)) [0..<length ms] \<and> next_seq st s = wrap64 (int (length ms)))"

definition store_inv :: "store \<Rightarrow> bool" where
  "store_inv st \<longleftrightarrow>
     distinct (map peer_name (st_peers st)) \<and>
     distinct (map msg_ID (st_messages st)) \<and>
     distinct (map fst (st_sender_seq st)) \<and>
     distinct (map ar_Seq (st_audit st)) \<and>
     list_all (\<lambda>m. msg_ID m \<noteq> [] \<and> msg_From m \<noteq> [] \<and> msg_Envelope m \<noteq> [] \<and>
       msg_To m \<in> peer_name ` set (st_peers st)) (st_messages st) \<and>
     list_all (seqs_ok st) (map msg_From (st_messages st) @ map fst (st_sender_seq st))"

lemma seqs_ok_other:
  assumes "s \<notin> msg_From ` set (st_messages st)" "s \<notin> fst ` set (st_sender_seq st)"
  shows "seqs_ok st s"
proof -
  have "from_sender s (st_messages st) = []" using assms(1) by (auto simp: from_sender_def filter_empty_conv)
  moreover have "map_of (st_sender_seq st) s = None" using assms(2) by (simp add: map_of_eq_None_iff)
  then have "next_seq st s = 0" by (simp add: next_seq_def)
  ultimately show ?thesis by (simp add: seqs_ok_def)
qed

lemma store_inv_seqs: "store_inv st \<Longrightarrow> seqs_ok st s"
  using seqs_ok_other [of s st] by (auto simp: store_inv_def list_all_iff)

lemma store_invI:
  assumes "distinct (map peer_name (st_peers st))" "distinct (map msg_ID (st_messages st))"
    "distinct (map fst (st_sender_seq st))" "distinct (map ar_Seq (st_audit st))"
    "\<And>m. m \<in> set (st_messages st) \<Longrightarrow> msg_ID m \<noteq> [] \<and> msg_From m \<noteq> [] \<and> msg_Envelope m \<noteq> [] \<and>
       msg_To m \<in> peer_name ` set (st_peers st)"
    "\<And>s. seqs_ok st s"
  shows "store_inv st"
  using assms by (simp add: store_inv_def list_all_iff)

lemma names_upsert_peer:
  "map peer_name (upsert_peer n now ps) = (if n \<in> peer_name ` set ps then map peer_name ps else map peer_name ps @ [n])"
  by (simp add: upsert_peer_def comp_def if_distrib [of peer_name] cong: if_cong)

lemma names_upsert_peer_set: "peer_name ` set (upsert_peer n now ps) = insert n (peer_name ` set ps)"
  by (simp flip: set_map add: names_upsert_peer insert_absorb)

lemma map_of_upsert_seq: "map_of (upsert_seq s n q) = (map_of q)(s \<mapsto> n)"
proof (cases "s \<in> fst ` set q")
  case True
  have "map_of (map (\<lambda>p. if fst p = s then (s, n) else p) q) t =
      (if t = s then if s \<in> fst ` set q then Some n else None else map_of q t)" for t
    by (induction q) (auto, force)
  with True show ?thesis by (simp add: upsert_seq_def fun_eq_iff)
next
  case False
  then have "map_of q s = None" by (simp add: map_of_eq_None_iff)
  with False show ?thesis by (auto simp: upsert_seq_def map_add_def fun_eq_iff split: option.splits)
qed

lemma keys_upsert_seq: "distinct (map fst q) \<Longrightarrow> distinct (map fst (upsert_seq s n q))"
  by (auto simp: upsert_seq_def comp_def if_distrib [of fst] cong: if_cong)

lemma next_seq_enqueued:
  "next_seq (enqueued e msg st) s =
     (if s = msg_From msg then wrap64 (next_seq st s + 1) else next_seq st s)"
  by (simp add: next_seq_def enqueued_def map_of_upsert_seq)

lemma wrap64_Suc: "wrap64 (wrap64 x + 1) = wrap64 (x + 1)"
proof -
  have "wrap64 x + 1 + 2 ^ 63 = (x + 2 ^ 63) mod 2 ^ 64 + 1" by (simp add: wrap64_def)
  then have "(wrap64 x + 1 + 2 ^ 63) mod 2 ^ 64 = (x + 1 + 2 ^ 63) mod 2 ^ 64"
    by (simp only: mod_add_left_eq) (simp add: ac_simps)
  then show ?thesis by (simp only: wrap64_def)
qed

lemma wrap64_Suc_left: "wrap64 (1 + wrap64 x) = wrap64 (1 + x)"
  using wrap64_Suc [of x] by (simp add: add.commute)

lemma from_sender_append [simp]: "from_sender s (xs @ ys) = from_sender s xs @ from_sender s ys"
  by (simp add: from_sender_def)

lemma from_sender_map:
  "(\<And>m. msg_From (f m) = msg_From m) \<Longrightarrow> from_sender s (map f ms) = map f (from_sender s ms)"
  by (simp add: from_sender_def filter_map comp_def)

lemma messages_enqueued [simp]: "st_messages (enqueued e msg st) = st_messages st @ [fresh_row e msg st]"
  and peers_enqueued [simp]: "st_peers (enqueued e msg st) = st_peers st"
  and audit_enqueued [simp]: "st_audit (enqueued e msg st) = st_audit st"
  by (simp_all add: enqueued_def)

lemma seqs_ok_enqueued:
  assumes "seqs_ok st s"
  shows "seqs_ok (enqueued e msg st) s"
proof (cases "s = msg_From msg")
  case True
  then have "from_sender s (st_messages (enqueued e msg st)) = from_sender s (st_messages st) @ [fresh_row e msg st]"
    by (simp add: from_sender_def)
  with True assms show ?thesis
    by (simp add: seqs_ok_def Let_def next_seq_enqueued wrap64_Suc wrap64_Suc_left add.commute)
next
  case False
  then have "from_sender s (st_messages (enqueued e msg st)) = from_sender s (st_messages st)"
    by (simp add: from_sender_def)
  with False assms show ?thesis by (simp add: seqs_ok_def Let_def next_seq_enqueued)
qed

lemma store_inv_enqueued:
  assumes "store_inv st" "fst (Enqueue e msg st) = Inr ()"
  shows "store_inv (enqueued e msg st)"
proof (rule store_invI)
  show "seqs_ok (enqueued e msg st) s" for s
    using assms(1) by (intro seqs_ok_enqueued store_inv_seqs)
qed (use assms(1) Enqueue_ok [OF assms(2)] in
    \<open>auto simp: store_inv_def enqueued_def keys_upsert_seq list_all_iff\<close>)

lemma store_inv_messages:
  assumes "store_inv st" "\<And>m. msg_ID (f m) = msg_ID m \<and> msg_From (f m) = msg_From m \<and> msg_To (f m) = msg_To m \<and>
    msg_Envelope (f m) = msg_Envelope m \<and> msg_Seq (f m) = msg_Seq m"
  shows "store_inv (st\<lparr>st_messages := map f (st_messages st)\<rparr>)"
proof (rule store_invI)
  fix s
  have "from_sender s (map f (st_messages st)) = map f (from_sender s (st_messages st))"
    using assms(2) by (intro from_sender_map) blast
  then show "seqs_ok (st\<lparr>st_messages := map f (st_messages st)\<rparr>) s"
    using store_inv_seqs [OF assms(1), of s] assms(2) by (simp add: seqs_ok_def Let_def comp_def next_seq_def)
qed (use assms in \<open>auto simp: store_inv_def list_all_iff comp_def\<close>)

lemma seqs_ok_cong:
  "st_messages st' = st_messages st \<Longrightarrow> st_sender_seq st' = st_sender_seq st \<Longrightarrow> seqs_ok st' s = seqs_ok st s"
  by (simp add: seqs_ok_def next_seq_def)

lemma store_step_inv:
  assumes "store_step st st'" "store_inv st"
  shows "store_inv st'"
  using assms(1)
proof (cases rule: store_step_cases)
  case same
  with assms show ?thesis by simp
next
  case (register n now)
  then have "seqs_ok st' s" for s
    using store_inv_seqs [OF assms(2), of s] by (simp cong: seqs_ok_cong)
  then show ?thesis
    using assms(2) register by (intro store_invI) (auto simp: store_inv_def list_all_iff names_upsert_peer names_upsert_peer_set)
next
  case (enqueue e msg)
  with assms(2) show ?thesis by (simp add: store_inv_enqueued)
next
  case (messages f)
  with assms(2) show ?thesis using store_inv_messages [of st f] by auto
next
  case (audit r)
  then have "seqs_ok st' s" for s
    using store_inv_seqs [OF assms(2), of s] by (simp cong: seqs_ok_cong)
  then show ?thesis
    using assms(2) audit by (intro store_invI) (auto simp: store_inv_def list_all_iff)
next
  case (closed b)
  then have "seqs_ok st' s" for s
    using store_inv_seqs [OF assms(2), of s] by (simp cong: seqs_ok_cong)
  then show ?thesis
    using assms(2) closed by (intro store_invI) (auto simp: store_inv_def list_all_iff)
qed

lemma store_steps_inv: "store_step\<^sup>*\<^sup>* st st' \<Longrightarrow> store_inv st \<Longrightarrow> store_inv st'"
  by (induction rule: rtranclp_induct) (auto intro: store_step_inv)

lemma store_inv_empty [simp]: "store_inv empty_store"
  by (simp add: store_inv_def empty_store_def)

section \<open>Order of delivery\<close>

lemma select_pending_sender:
  "from_sender s (select_pending n ms) =
     sort_key pending_key (filter (\<lambda>m. msg_To m = n \<and> \<not> msg_Delivered m) (from_sender s ms))"
  by (simp add: select_pending_def from_sender_def filter_sort conj_ac)

lemma sort_key_filter_sorted:
  "sorted (map f xs) \<Longrightarrow> sort_key f (filter P xs) = filter P xs"
  by (simp add: sort_key_id_if_sorted sorted_filter)

lemma sorted_by_seq:
  assumes "map msg_Seq ms = map int [0..<length ms]" "\<forall>m\<in>set ms. msg_From m = s"
  shows "sorted (map pending_key ms)"
proof -
  have "msg_Seq (ms ! i) = int i" if "i < length ms" for i
  proof -
    have "msg_Seq (ms ! i) = map msg_Seq ms ! i" using that by simp
    also have "\<dots> = int i" using that by (simp add: assms(1))
    finally show ?thesis .
  qed
  then have "pending_key (ms ! i) \<le> pending_key (ms ! j)" if "i < j" "j < length ms" for i j
    using that assms(2) by (simp add: pending_key_def less_eq_prod_def)
  then show ?thesis by (simp add: sorted_wrt_map sorted_wrt_iff_nth_less)
qed

lemma seqs_in_order:
  assumes "store_inv st" "length (st_messages st) \<le> 2 ^ 63"
  shows "map msg_Seq (from_sender s (st_messages st)) = map int [0..<length (from_sender s (st_messages st))]"
proof -
  let ?ms = "from_sender s (st_messages st)"
  have le: "length ?ms \<le> 2 ^ 63"
    unfolding from_sender_def by (rule order.trans [OF length_filter_le assms(2)])
  have "wrap64 (int i) = int i" if "i < length ?ms" for i
    using that le by (intro wrap64_id) simp_all
  then show ?thesis
    using store_inv_seqs [OF assms(1), of s] by (simp add: seqs_ok_def Let_def)
qed

lemma select_pending_fifo:
  assumes "store_inv st" "length (st_messages st) \<le> 2 ^ 63"
  shows "from_sender s (select_pending n (st_messages st)) =
    filter (\<lambda>m. msg_To m = n \<and> \<not> msg_Delivered m) (from_sender s (st_messages st))"
proof -
  have "\<forall>m\<in>set (from_sender s (st_messages st)). msg_From m = s" by (simp add: from_sender_def)
  from sorted_by_seq [OF seqs_in_order [OF assms] this] show ?thesis
    by (simp add: select_pending_sender sort_key_filter_sorted)
qed

lemma set_select_pending: "set (select_pending n ms) = {m \<in> set ms. msg_To m = n \<and> \<not> msg_Delivered m}"
  by (auto simp: select_pending_def)

section \<open>Rows survive\<close>

definition message_row :: "store \<Rightarrow> string \<Rightarrow> message option" where
  "message_row st i = find (\<lambda>m. msg_ID m = i) (st_messages st)"

text \<open>What later steps may change of a row: the delivered flag, the acknowledgement (only
  from no to yes) and the attempt counter (only upwards).\<close>

definition row_le :: "message \<Rightarrow> message \<Rightarrow> bool" where
  "row_le m m' \<longleftrightarrow> msg_ID m' = msg_ID m \<and> msg_From m' = msg_From m \<and> msg_To m' = msg_To m \<and>
     msg_Envelope m' = msg_Envelope m \<and> msg_Seq m' = msg_Seq m \<and> msg_TS m' = msg_TS m \<and>
     msg_Attempts m \<le> msg_Attempts m' \<and> (msg_Acked m \<longrightarrow> msg_Acked m') \<and>
     (msg_Acked m \<and> msg_Delivered m \<longrightarrow> msg_Delivered m')"

lemma find_append: "find P (xs @ ys) = (case find P xs of None \<Rightarrow> find P ys | Some x \<Rightarrow> Some x)"
  by (induction xs) auto

lemma find_map_same: "(\<And>x. P (f x) = P x) \<Longrightarrow> find P (map f xs) = map_option f (find P xs)"
  by (induction xs) auto

lemma row_le_flags: "row_le m (set_delivered i m)" "row_le m (set_acked i m)" "row_le m (set_requeued n m)"
  by (simp_all add: row_le_def set_delivered_def set_acked_def set_requeued_def)

lemma message_row_map:
  "(\<And>m. msg_ID (f m) = msg_ID m) \<Longrightarrow>
     message_row (st\<lparr>st_messages := map f (st_messages st)\<rparr>) i = map_option f (message_row st i)"
  by (simp add: message_row_def find_map_same)

interpretation mrow: growing_table store_step message_row row_le
proof unfold_locales
  show "row_le v v" for v by (simp add: row_le_def)
  show "row_le u v \<Longrightarrow> row_le v w \<Longrightarrow> row_le u w" for u v w by (auto simp: row_le_def)
  fix s s' k v
  assume a: "store_step s s'" "message_row s k = Some v"
  have refl: "row_le v v" by (simp add: row_le_def)
  from a(1) show "\<exists>v'. message_row s' k = Some v' \<and> row_le v v'"
  proof (cases rule: store_step_cases)
    case (enqueue e msg)
    with a(2) refl show ?thesis by (simp add: message_row_def find_append)
  next
    case (messages f)
    then have "\<And>m. msg_ID (f m) = msg_ID m" by auto
    with messages a(2) show ?thesis using row_le_flags by (auto simp: message_row_map)
  qed (use a(2) refl in \<open>simp_all add: message_row_def\<close>)
qed

text \<open>The audit table is append-only: rows never change at all.\<close>

definition audit_at :: "store \<Rightarrow> nat \<Rightarrow> audit_row option" where
  "audit_at st k = (if k < length (st_audit st) then Some (st_audit st ! k) else None)"

interpretation arow: growing_table store_step audit_at "(=)"
proof unfold_locales
  fix s s' k v
  assume a: "store_step s s'" "audit_at s k = Some v"
  from a(1) show "\<exists>v'. audit_at s' k = Some v' \<and> v = v'"
    using a(2) by (cases rule: store_step_cases) (auto simp: audit_at_def nth_append split: if_splits)
qed auto

text \<open>Peers stay registered and keep the time of their first registration.\<close>

definition peer_row_of :: "store \<Rightarrow> string \<Rightarrow> peer_row option" where
  "peer_row_of st n = find (\<lambda>p. peer_name p = n) (st_peers st)"

lemma find_upsert_peer:
  "find (\<lambda>p. peer_name p = k) ps = Some v \<Longrightarrow>
     \<exists>v'. find (\<lambda>p. peer_name p = k) (upsert_peer n now ps) = Some v' \<and> peer_name v' = peer_name v \<and> peer_ts v' = peer_ts v"
  by (auto simp: upsert_peer_def find_append find_map_same)

interpretation prow: growing_table store_step peer_row_of "\<lambda>p p'. peer_name p' = peer_name p \<and> peer_ts p' = peer_ts p"
proof unfold_locales
  fix s s' k v
  assume a: "store_step s s'" "peer_row_of s k = Some v"
  from a(1) show "\<exists>v'. peer_row_of s' k = Some v' \<and> peer_name v' = peer_name v \<and> peer_ts v' = peer_ts v"
    using a(2) by (cases rule: store_step_cases) (auto simp: peer_row_of_def find_upsert_peer)
qed auto

lemma peer_row_of_in: "n \<in> peer_name ` set (st_peers st) \<longleftrightarrow> peer_row_of st n \<noteq> None"
  by (auto simp: peer_row_of_def find_None_iff)

lemma peers_grow: "store_step\<^sup>*\<^sup>* st st' \<Longrightarrow> n \<in> peer_name ` set (st_peers st) \<Longrightarrow> n \<in> peer_name ` set (st_peers st')"
  unfolding peer_row_of_in using prow.steps_row by blast

lemma audit_unchanged [simp]:
  "st_audit (snd (Register e n st)) = st_audit st" "st_audit (snd (Enqueue e msg st)) = st_audit st"
  "st_audit (snd (MarkDelivered e i st)) = st_audit st" "st_audit (snd (MarkAcked e i st)) = st_audit st"
  "st_audit (snd (RequeueUnacked e n st)) = st_audit st"
proof -
  show "st_audit (snd (Register e n st)) = st_audit st" using Register_snd [of e n st] by auto
  show "st_audit (snd (Enqueue e msg st)) = st_audit st" using Enqueue_snd [of e msg st] by auto
  show "st_audit (snd (RequeueUnacked e n st)) = st_audit st" using RequeueUnacked_snd [of e n st] by auto
qed (simp_all add: store_simps)

lemma find_key: "distinct (map f xs) \<Longrightarrow> find (\<lambda>x. f x = i) xs = Some m \<longleftrightarrow> m \<in> set xs \<and> f m = i"
  by (induction xs) auto

lemma message_row_in:
  "store_inv st \<Longrightarrow> message_row st i = Some m \<longleftrightarrow> m \<in> set (st_messages st) \<and> msg_ID m = i"
  by (simp add: message_row_def store_inv_def find_key)

section \<open>First-in first-out queues\<close>

text \<open>
  The contract of the queue towards the broker: for every sender and recipient a queue
  of (row key, envelope) pairs; accepting a message appends at the end, marking delivered
  removes by key and leaves the other entries in order.
\<close>

locale fifo_queues =
  fixes queue :: "'s \<Rightarrow> string \<Rightarrow> string \<Rightarrow> (string \<times> bytes) list"
    and accept :: "string \<Rightarrow> string \<Rightarrow> string \<Rightarrow> bytes \<Rightarrow> 's \<Rightarrow> 's option"
    and mark :: "string \<Rightarrow> 's \<Rightarrow> 's"
  assumes accept_queue: "accept i s n b st = Some st' \<Longrightarrow>
      queue st' s' n' = (if s' = s \<and> n' = n then queue st s n @ [(i, b)] else queue st s' n')"
    and mark_queue: "queue (mark i st) s n = filter (\<lambda>p. fst p \<noteq> i) (queue st s n)"
begin

lemma marks_queue: "queue (fold mark is st) s n = filter (\<lambda>p. fst p \<notin> set is) (queue st s n)"
  by (induction "is" arbitrary: st) (auto simp: mark_queue intro: filter_cong)

lemma drain_prefix:
  assumes "queue st s n = xs @ ys" "distinct (map fst (queue st s n))"
  shows "queue (fold mark (map fst xs) st) s n = ys"
proof -
  have "filter (\<lambda>p. fst p \<notin> set (map fst xs)) xs = []" by (simp add: filter_empty_conv)
  moreover have "filter (\<lambda>p. fst p \<notin> set (map fst xs)) ys = ys"
    using assms by (auto simp: filter_id_conv)
  ultimately show ?thesis using assms(1) by (simp add: marks_queue)
qed

end

definition store_queue :: "store \<Rightarrow> string \<Rightarrow> string \<Rightarrow> (string \<times> bytes) list" where
  "store_queue st s n = map (\<lambda>m. (msg_ID m, msg_Envelope m))
     (filter (\<lambda>m. msg_To m = n \<and> \<not> msg_Delivered m) (from_sender s (st_messages st)))"

definition store_accept :: "dbenv \<Rightarrow> string \<Rightarrow> string \<Rightarrow> string \<Rightarrow> bytes \<Rightarrow> store \<Rightarrow> store option" where
  "store_accept e i s n b st =
     (case Enqueue e \<lparr>msg_ID = i, msg_From = s, msg_To = n, msg_Envelope = b, msg_Delivered = False,
          msg_Acked = False, msg_Attempts = 0, msg_Seq = 0, msg_TS = 0\<rparr> st of
        (Inr _, st') \<Rightarrow> Some st'
      | (Inl _, _) \<Rightarrow> None)"

definition no_fault :: "int \<Rightarrow> dbenv" where
  "no_fault now = \<lparr>db_now = now, db_fault = (\<lambda>_. False)\<rparr>"

definition set_delivered_row :: "string \<Rightarrow> store \<Rightarrow> store" where
  "set_delivered_row i st = st\<lparr>st_messages := map (set_delivered i) (st_messages st)\<rparr>"

lemma queue_set_delivered:
  "store_queue (set_delivered_row i st) s n = filter (\<lambda>p. fst p \<noteq> i) (store_queue st s n)"
proof -
  have "store_queue (set_delivered_row i st) s n =
      map (\<lambda>m. (msg_ID m, msg_Envelope m))
        (filter (\<lambda>m. msg_To m = n \<and> \<not> msg_Delivered (set_delivered i m)) (from_sender s (st_messages st)))"
    by (simp add: store_queue_def set_delivered_row_def from_sender_map filter_map comp_def)
  also have "\<dots> = filter (\<lambda>p. fst p \<noteq> i) (store_queue st s n)"
    by (simp add: store_queue_def filter_map comp_def)
      (rule arg_cong [where f = "map _"], rule filter_cong, auto simp: set_delivered_def)
  finally show ?thesis .
qed

interpretation fq: fifo_queues store_queue "store_accept e" set_delivered_row for e
proof unfold_locales
  fix i s n b st st' s' n'
  let ?m = "\<lparr>msg_ID = i, msg_From = s, msg_To = n, msg_Envelope = b, msg_Delivered = False,
          msg_Acked = False, msg_Attempts = 0, msg_Seq = 0, msg_TS = 0\<rparr>"
  assume "store_accept e i s n b st = Some st'"
  then have "Enqueue e ?m st = (Inr (), st')"
    by (auto simp: store_accept_def split: prod.splits sum.splits)
  with Enqueue_outcome [of e ?m st] have st': "st' = enqueued e ?m st" by auto
  show "store_queue st' s' n' = (if s' = s \<and> n' = n then store_queue st s n @ [(i, b)] else store_queue st s' n')"
    by (simp add: st' store_queue_def) (simp add: from_sender_def)
qed (rule queue_set_delivered)

section \<open>Properties of the store\<close>

definition demo_msg :: "string \<Rightarrow> message" where
  "demo_msg i = \<lparr>msg_ID = i, msg_From = ''alice'', msg_To = ''bob'', msg_Envelope = ''{}'', msg_Delivered = False,
     msg_Acked = False, msg_Attempts = 0, msg_Seq = 0, msg_TS = 0\<rparr>"

definition demo_bob :: store where
  "demo_bob = snd (Register (no_fault 1) ''bob'' empty_store)"

definition demo_store :: store where
  "demo_store = snd (Enqueue (no_fault 2) (demo_msg ''m1'') demo_bob)"

lemma demo_store_reached: "store_step\<^sup>*\<^sup>* empty_store demo_store" "store_step\<^sup>*\<^sup>* empty_store demo_bob"
proof -
  show b: "store_step\<^sup>*\<^sup>* empty_store demo_bob"
    unfolding demo_bob_def by (rule r_into_rtranclp, rule step_Register)
  show "store_step\<^sup>*\<^sup>* empty_store demo_store"
    unfolding demo_store_def using b by (rule rtranclp.rtrancl_into_rtrancl) (rule step_Enqueue)
qed

text \<open>C29: Every database reachable by any sequence of store operations, with any statement
  failing at any time, is well formed: peer names, message ids, sequence counters and
  audit positions are unique, every message goes to a registered peer, and the sequence
  numbers of each sender are 0, 1, 2, ... in arrival order with the counter at the next one.\<close>

theorem reachable_store_inv:
  assumes "store_step\<^sup>*\<^sup>* empty_store st"
  shows "store_inv st"
  using store_steps_inv [OF assms] by simp

theorem reachable_store_inv_witness: "store_inv demo_store \<and> length (st_messages demo_store) = 1"
proof
  show "store_inv demo_store" using reachable_store_inv [OF demo_store_reached(1)] .
  show "length (st_messages demo_store) = 1" by code_simp
qed



text \<open>C27: In every reachable database of fewer than \<open>2^63\<close> messages, \<open>PendingFor\<close> returns exactly the
  undelivered messages of the recipient, and those of each sender in the order in which
  they were enqueued (the FIFO queue \<open>store_queue\<close> of that pair), although the rows are sorted by
  a stored 64-bit sequence number.\<close>

theorem pending_refines_fifo:
  assumes "store_step\<^sup>*\<^sup>* empty_store st" "length (st_messages st) \<le> 2 ^ 63" "fst (PendingFor e n st) = Inr ms"
  shows "map (\<lambda>m. (msg_ID m, msg_Envelope m)) (filter (\<lambda>m. msg_From m = s) ms) = store_queue st s n \<and>
    set ms = {m \<in> set (st_messages st). msg_To m = n \<and> \<not> msg_Delivered m} \<and> distinct (map msg_ID ms)"
proof -
  have inv: "store_inv st" using store_steps_inv [OF assms(1)] by simp
  have ms: "ms = select_pending n (st_messages st)" using PendingFor_ok [OF assms(3)] by simp
  have "map (\<lambda>m. (msg_ID m, msg_Envelope m)) (filter (\<lambda>m. msg_From m = s) ms) = store_queue st s n"
    using select_pending_fifo [OF inv assms(2), of s n] by (simp add: ms store_queue_def from_sender_def)
  moreover have "distinct (map msg_ID ms)"
    using inv by (simp add: ms select_pending_def store_inv_def distinct_map inj_on_def)
  ultimately show ?thesis by (simp add: ms set_select_pending)
qed

theorem pending_refines_fifo_witness:
  "\<exists>ms. fst (PendingFor (no_fault 3) ''bob'' demo_store) = Inr ms \<and>
     map (\<lambda>m. (msg_ID m, msg_Envelope m)) (filter (\<lambda>m. msg_From m = ''alice'') ms) = store_queue demo_store ''alice'' ''bob'' \<and>
     store_queue demo_store ''alice'' ''bob'' = [(''m1'', ''{}'')]"
proof -
  have "length (st_messages demo_store) = 1" by code_simp
  then have "length (st_messages demo_store) \<le> 2 ^ 63" by simp
  moreover have "fst (PendingFor (no_fault 3) ''bob'' demo_store) = Inr (select_pending ''bob'' (st_messages demo_store))"
    by code_simp
  moreover have "store_queue demo_store ''alice'' ''bob'' = [(''m1'', ''{}'')]" by code_simp
  ultimately show ?thesis
    using pending_refines_fifo [OF demo_store_reached(1), of "no_fault 3" "''bob''" _ "''alice''"] by blast
qed



text \<open>A row that is delivered and acknowledged is settled: it is never pending again.\<close>

lemma settled_not_pending:
  assumes "store_inv st" "message_row st i = Some m" "msg_Delivered m" "msg_Acked m"
    "store_step\<^sup>*\<^sup>* st st'" "fst (PendingFor e n st') = Inr ms"
  shows "i \<notin> msg_ID ` set ms"
proof -
  have inv: "store_inv st'" using store_steps_inv assms(1,5) by auto
  from mrow.steps_row [OF assms(5,2)] obtain m' where "message_row st' i = Some m'" "msg_Delivered m'"
    using assms(3,4) by (auto simp: row_le_def)
  moreover have "message_row st' (msg_ID x) = Some x" if "x \<in> set ms" for x
    using that PendingFor_ok [OF assms(6)] inv by (simp add: message_row_in set_select_pending)
  moreover have "\<not> msg_Delivered x" if "x \<in> set ms" for x
    using that PendingFor_ok [OF assms(6)] by (simp add: set_select_pending)
  ultimately show ?thesis by fastforce
qed

text \<open>C30: A message that has been delivered and acknowledged is never handed out again: no further
  operation makes it pending.\<close>

theorem acked_never_redelivered:
  assumes "store_step\<^sup>*\<^sup>* empty_store st" "m \<in> set (st_messages st)" "msg_Delivered m" "msg_Acked m"
    "store_step\<^sup>*\<^sup>* st st'" "fst (PendingFor e n st') = Inr ms"
  shows "msg_ID m \<notin> msg_ID ` set ms"
proof -
  have inv: "store_inv st" using store_steps_inv assms(1) by auto
  then have "message_row st (msg_ID m) = Some m" using assms(2) by (simp add: message_row_in)
  from settled_not_pending [OF inv this assms(3-6)] show ?thesis .
qed

definition demo_acked :: store where
  "demo_acked = snd (MarkAcked (no_fault 4) ''m1'' (snd (MarkDelivered (no_fault 3) ''m1'' demo_store)))"

lemma demo_acked_reached: "store_step\<^sup>*\<^sup>* empty_store demo_acked"
proof -
  have "store_step\<^sup>*\<^sup>* empty_store (snd (MarkDelivered (no_fault 3) ''m1'' demo_store))"
    using demo_store_reached(1) by (rule rtranclp.rtrancl_into_rtrancl) (rule step_MarkDelivered)
  then show ?thesis
    unfolding demo_acked_def by (rule rtranclp.rtrancl_into_rtrancl) (rule step_MarkAcked)
qed

theorem acked_never_redelivered_witness:
  "''m1'' \<notin> msg_ID ` set (projr (fst (PendingFor (no_fault 6) ''bob'' (snd (RequeueUnacked (no_fault 5) ''bob'' demo_acked)))))"
proof -
  let ?m = "(demo_msg ''m1'')\<lparr>msg_Delivered := True, msg_Acked := True, msg_Attempts := 1, msg_Seq := 0, msg_TS := 2\<rparr>"
  have "st_messages demo_acked = [?m]" by code_simp
  moreover have "store_step\<^sup>*\<^sup>* demo_acked (snd (RequeueUnacked (no_fault 5) ''bob'' demo_acked))"
    by (rule r_into_rtranclp, rule step_RequeueUnacked)
  moreover have "fst (PendingFor (no_fault 6) ''bob'' (snd (RequeueUnacked (no_fault 5) ''bob'' demo_acked))) = Inr []"
    by code_simp
  ultimately show ?thesis
    using acked_never_redelivered [OF demo_acked_reached, of ?m _ "no_fault 6" "''bob''" "[]"]
    by (simp add: demo_msg_def)
qed

text \<open>After \<open>Close\<close> every operation returns \<open>ErrClosed\<close> and changes nothing, closing again is a no-op,
  and reopening the file gives back exactly the same tables.\<close>

theorem close_is_final_and_durable:
  "(let st' = snd (Close e st) in
    Register e' n st' = (Inl ErrClosed, st') \<and> Enqueue e' msg st' = (Inl ErrClosed, st') \<and>
    PendingFor e' n st' = (Inl ErrClosed, st') \<and> MarkDelivered e' n st' = (Inl ErrClosed, st') \<and>
    MarkAcked e' n st' = (Inl ErrClosed, st') \<and> RequeueUnacked e' n st' = (Inl ErrClosed, st') \<and>
    AuditAppend e' r st' = (Inl ErrClosed, st') \<and> AuditRows e' st' = (Inl ErrClosed, st') \<and>
    AuditCount e' st' = (Inl ErrClosed, st') \<and> AuditLast e' st' = (Inl ErrClosed, st') \<and>
    Close e' st' = (Inr (), st') \<and>
    (Open e' (Some st') = Inr st'' \<longrightarrow> st'' = st\<lparr>st_closed := False\<rparr>))"
proof -
  have "st_closed (snd (Close e st))" "snd (Close e st) = st\<lparr>st_closed := True\<rparr>" by (auto simp: Close_def)
  then show ?thesis
    by (auto simp: Let_def Register_def Enqueue_def PendingFor_def MarkDelivered_def MarkAcked_def RequeueUnacked_def
        AuditAppend_def AuditRows_def AuditCount_def AuditLast_def okToUse_def Open_def migrate_def
        Close_def [of e'] split: if_splits)
qed

theorem close_is_final_and_durable_witness:
  "Open (no_fault 9) (Some (snd (Close (no_fault 8) demo_store))) = Inr (demo_store\<lparr>st_closed := False\<rparr>)"
  using close_is_final_and_durable [of "no_fault 8" demo_store "no_fault 9" "[]" "demo_msg []" "\<lparr>ar_Seq = 0, ar_PrevHash = ''p'', ar_Hash = ''h'', ar_Event = ''e'', ar_TS = 0\<rparr>"
      "projr (Open (no_fault 9) (Some (snd (Close (no_fault 8) demo_store))))"]
  by (simp add: Let_def Open_def migrate_def no_fault_def)

end
