(* ===== verification/Audit_Log.thy ===== *)
theory Audit_Log
  imports Store Go_Crypto
begin

text \<open>
  Package \<open>internal/audit\<close>: the hash-chained audit log.  BLAKE3 is a third-party package, so the
  digest function is the parameter \<open>b3\<close>; what is relied on is that a digest has 32 bytes.
  The Go interface \<open>auditStore\<close> is a record of functions the operations take, and the locale
  \<open>audit_store\<close> is its contract, interpreted on the store.
\<close>

section \<open>audit.go\<close>

record 's auditStore =
  as_AuditAppend :: "audit_row \<Rightarrow> 's \<Rightarrow> (store_error, unit) result \<times> 's"
  as_AuditRows :: "'s \<Rightarrow> (store_error, audit_row list) result \<times> 's"
  as_AuditLast :: "'s \<Rightarrow> (store_error, audit_row option) result \<times> 's"

type_synonym digest = "bytes \<Rightarrow> bytes"

definition genesisPrevHash :: "digest \<Rightarrow> string" where
  "genesisPrevHash b3 = hex_encode (b3 [])"

definition chainHash :: "digest \<Rightarrow> string \<Rightarrow> bytes \<Rightarrow> string" where
  "chainHash b3 prevHash event = hex_encode (b3 (prevHash @ event))"

datatype audit_error = ReadTail store_error | Persist store_error | ReadRows store_error

definition NewAppender :: "dbenv \<Rightarrow> store auditStore" where
  "NewAppender e = \<lparr>as_AuditAppend = AuditAppend e, as_AuditRows = AuditRows e, as_AuditLast = AuditLast e\<rparr>"

definition Append :: "digest \<Rightarrow> 's auditStore \<Rightarrow> bytes \<Rightarrow> 's \<Rightarrow> (audit_error, audit_row) result \<times> 's" where
  "Append b3 a event st =
     (case as_AuditLast a st of
        (Inl err, st1) \<Rightarrow> (Inl (ReadTail err), st1)
      | (Inr tail, st1) \<Rightarrow>
          (let (seq, prevHash) =
                 (case tail of
                    Some row \<Rightarrow> (wrap64 (ar_Seq row + 1), ar_Hash row)
                  | None \<Rightarrow> (0, genesisPrevHash b3));
               row = \<lparr>ar_Seq = seq, ar_PrevHash = prevHash, ar_Hash = chainHash b3 prevHash event,
                      ar_Event = event, ar_TS = 0\<rparr>
           in case as_AuditAppend a row st1 of
                (Inl err, st2) \<Rightarrow> (Inl (Persist err), st2)
              | (Inr _, st2) \<Rightarrow> (Inr row, st2)))"

datatype break_detail =
    SeqOutOfOrder int int
  | PrevHashMismatch string string
  | HashMismatch string string

record break =
  brk_Index :: nat
  brk_Seq :: int
  brk_Detail :: break_detail

fun verify_loop :: "digest \<Rightarrow> nat \<Rightarrow> string \<Rightarrow> audit_row list \<Rightarrow> break option" where
  "verify_loop b3 i want [] = None"
| "verify_loop b3 i want (r # rs) =
     (let expectedSeq = wrap64 (int i) in
      if ar_Seq r \<noteq> expectedSeq then
        Some \<lparr>brk_Index = i, brk_Seq = expectedSeq, brk_Detail = SeqOutOfOrder (ar_Seq r) expectedSeq\<rparr>
      else if ar_PrevHash r \<noteq> want then
        Some \<lparr>brk_Index = i, brk_Seq = ar_Seq r, brk_Detail = PrevHashMismatch (ar_PrevHash r) want\<rparr>
      else
        (let got = chainHash b3 (ar_PrevHash r) (ar_Event r) in
         if got \<noteq> ar_Hash r then
           Some \<lparr>brk_Index = i, brk_Seq = ar_Seq r, brk_Detail = HashMismatch (ar_Hash r) got\<rparr>
         else verify_loop b3 (Suc i) (ar_Hash r) rs))"

definition verify :: "digest \<Rightarrow> 's auditStore \<Rightarrow> 's \<Rightarrow> (audit_error, break option) result" where
  "verify b3 a st =
     (case fst (as_AuditRows a st) of
        Inl err \<Rightarrow> Inl (ReadRows err)
      | Inr rows \<Rightarrow>
          if length rows = 0 then Inr None
          else Inr (verify_loop b3 0 (genesisPrevHash b3) rows))"

definition Verify_audit :: "digest \<Rightarrow> dbenv \<Rightarrow> store \<Rightarrow> (audit_error, break option) result" where
  "Verify_audit b3 e st = verify b3 (NewAppender e) st"

section \<open>Chains\<close>

text \<open>The declarative reading: positions count up, each row names its predecessor's hash and
  carries the hash of that link.\<close>

fun chained :: "digest \<Rightarrow> nat \<Rightarrow> string \<Rightarrow> audit_row list \<Rightarrow> bool" where
  "chained b3 i want [] = True"
| "chained b3 i want (r # rs) =
     (ar_Seq r = wrap64 (int i) \<and> ar_PrevHash r = want \<and> ar_Hash r = chainHash b3 want (ar_Event r) \<and>
      chained b3 (Suc i) (ar_Hash r) rs)"

definition tail_hash :: "digest \<Rightarrow> audit_row list \<Rightarrow> string" where
  "tail_hash b3 rs = (if rs = [] then genesisPrevHash b3 else ar_Hash (last rs))"

lemma verify_loop_None: "verify_loop b3 i want rs = None \<longleftrightarrow> chained b3 i want rs"
  by (induction rs arbitrary: i want) (auto simp: Let_def)

lemma verify_loop_Some:
  assumes "verify_loop b3 i want rs = Some b"
  shows "i \<le> brk_Index b \<and> brk_Index b < i + length rs \<and> chained b3 i want (take (brk_Index b - i) rs) \<and>
    \<not> chained b3 i want (take (Suc (brk_Index b - i)) rs)"
  using assms
proof (induction rs arbitrary: i want)
  case (Cons r rs)
  show ?case
  proof (cases "chained b3 i want [r]")
    case True
    with Cons.prems have "verify_loop b3 (Suc i) (ar_Hash r) rs = Some b" by (simp add: Let_def)
    note IH = Cons.IH [OF this]
    then obtain k where "brk_Index b = Suc (i + k)" by (metis Suc_le_D add_Suc le_Suc_ex)
    with IH True show ?thesis by auto
  next
    case False
    with Cons.prems have "brk_Index b = i" by (auto simp: Let_def split: if_splits)
    with False show ?thesis by simp
  qed
qed simp

lemma chained_append:
  "chained b3 i want (xs @ ys) \<longleftrightarrow>
     chained b3 i want xs \<and> chained b3 (i + length xs) (if xs = [] then want else ar_Hash (last xs)) ys"
  by (induction xs arbitrary: i want) auto

lemma chained_seqs: "chained b3 i want rs \<Longrightarrow> map ar_Seq rs = map (\<lambda>k. wrap64 (int k)) [i..<i + length rs]"
  by (induction rs arbitrary: i want) (auto simp: upt_conv_Cons simp del: upt_Suc)

text \<open>Two chains that end in the same hash are the same chain, or two different inputs have the
  same digest.\<close>

definition same_link :: "audit_row \<Rightarrow> audit_row \<Rightarrow> bool" where
  "same_link r r' \<longleftrightarrow> ar_Seq r = ar_Seq r' \<and> ar_PrevHash r = ar_PrevHash r' \<and> ar_Hash r = ar_Hash r' \<and> ar_Event r = ar_Event r'"

lemma chained_snoc:
  "chained b3 0 (genesisPrevHash b3) (rs @ [r]) \<longleftrightarrow>
     chained b3 0 (genesisPrevHash b3) rs \<and> ar_Seq r = wrap64 (int (length rs)) \<and>
     ar_PrevHash r = tail_hash b3 rs \<and> ar_Hash r = chainHash b3 (tail_hash b3 rs) (ar_Event r)"
  by (auto simp: chained_append tail_hash_def)

lemma length_tail_hash:
  assumes "chained b3 0 (genesisPrevHash b3) rs" "\<And>x. length (b3 x) = 32"
  shows "length (tail_hash b3 rs) = 64"
proof (cases rs rule: rev_cases)
  case Nil
  then show ?thesis using assms(2) by (simp add: tail_hash_def genesisPrevHash_def)
next
  case (snoc ys y)
  with assms(1) have "ar_Hash y = chainHash b3 (tail_hash b3 ys) (ar_Event y)" by (simp add: chained_snoc)
  with snoc show ?thesis using assms(2) by (simp add: tail_hash_def chainHash_def)
qed

text \<open>The bytes that a link hashes, and two logs with different bytes of the same digest at one position.\<close>

definition link_input :: "audit_row \<Rightarrow> bytes" where
  "link_input r = ar_PrevHash r @ ar_Event r"

definition links_collide :: "digest \<Rightarrow> audit_row list \<Rightarrow> audit_row list \<Rightarrow> bool" where
  "links_collide b3 rs rs' \<longleftrightarrow> (\<exists>(r, r')\<in>set (zip rs rs'). link_input r \<noteq> link_input r' \<and> b3 (link_input r) = b3 (link_input r'))"

lemma chains_agree:
  assumes "\<And>x. length (b3 x) = 32" "chained b3 0 (genesisPrevHash b3) rs" "chained b3 0 (genesisPrevHash b3) rs'"
    "length rs = length rs'" "tail_hash b3 rs = tail_hash b3 rs'"
  shows "list_all2 same_link rs rs' \<or> links_collide b3 rs rs'"
  using assms(2-5)
proof (induction rs arbitrary: rs' rule: rev_induct)
  case (snoc r rs)
  then obtain r' rs'' where rs': "rs' = rs'' @ [r']" "length rs = length rs''"
    by (cases rs' rule: rev_cases) auto
  note c = snoc.prems(1,2) [unfolded rs' chained_snoc]
  have h: "b3 (link_input r) = b3 (link_input r')"
    using snoc.prems(4) c by (simp add: rs' tail_hash_def chainHash_def link_input_def hex_encode_inj split: if_splits)
  show ?case
  proof (cases "link_input r = link_input r'")
    case True
    then have "tail_hash b3 rs = tail_hash b3 rs''" "ar_Event r = ar_Event r'"
      using length_tail_hash [OF _ assms(1)] c by (auto simp: link_input_def)
    with snoc.IH [of rs''] c rs' show ?thesis by (auto simp: same_link_def links_collide_def intro: list_all2_appendI)
  qed (use h rs' in \<open>simp add: links_collide_def\<close>)
qed (simp add: links_collide_def)

section \<open>The contract of an audit store\<close>

lemma sort_key_eq_Nil [simp]: "sort_key f xs = [] \<longleftrightarrow> xs = []"
  by (metis length_0_conv length_sort)

lemma insort_key_snoc: "f x \<le> f y \<Longrightarrow> insort_key f x (zs @ [y]) = insort_key f x zs @ [y]"
  by (induction zs) auto

lemma sort_key_snoc: "\<forall>x\<in>set xs. f x \<le> f y \<Longrightarrow> sort_key f (xs @ [y]) = sort_key f xs @ [y]"
  by (induction xs) (simp_all add: insort_key_snoc)

lemma chain_positions:
  assumes "chained b3 0 (genesisPrevHash b3) (sort_key ar_Seq xs)" "length xs < 2 ^ 63"
  shows "(if xs = [] then 0 else wrap64 (ar_Seq (last (sort_key ar_Seq xs)) + 1)) = int (length xs)"
    "\<forall>x\<in>set xs. ar_Seq x < int (length xs)"
proof -
  let ?rs = "sort_key ar_Seq xs"
  have seqs: "map ar_Seq ?rs = map int [0..<length xs]"
    using chained_seqs [OF assms(1)] assms(2) by simp
  have "ar_Seq (last ?rs) = int (length xs - 1)" if "xs \<noteq> []"
  proof -
    have "ar_Seq (last ?rs) = last (map ar_Seq ?rs)" using that by (simp add: last_map)
    also have "\<dots> = int (length xs - 1)" using that by (simp add: seqs last_map)
    finally show ?thesis .
  qed
  moreover have "wrap64 (int (length xs - 1) + 1) = int (length xs)" if "xs \<noteq> []"
    using that assms(2) by (cases "length xs") auto
  ultimately show "(if xs = [] then 0 else wrap64 (ar_Seq (last ?rs) + 1)) = int (length xs)" by auto
  show "\<forall>x\<in>set xs. ar_Seq x < int (length xs)"
  proof
    fix x
    assume "x \<in> set xs"
    then have "ar_Seq x \<in> set (map int [0..<length xs])" by (simp only: seqs [symmetric]) simp
    then show "ar_Seq x < int (length xs)" by auto
  qed
qed

locale audit_store =
  fixes a :: "'s auditStore"
    and content :: "'s \<Rightarrow> audit_row list"
  assumes append_ok: "as_AuditAppend a r s = (Inr (), s') \<Longrightarrow> \<exists>t. content s' = content s @ [r\<lparr>ar_TS := t\<rparr>]"
    and append_err: "as_AuditAppend a r s = (Inl err, s') \<Longrightarrow> content s' = content s"
    and rows_ok: "fst (as_AuditRows a s) = Inr rs \<Longrightarrow> rs = sort_key ar_Seq (content s)"
    and last_state: "snd (as_AuditLast a s) = s"
    and last_ok: "fst (as_AuditLast a s) = Inr t \<Longrightarrow>
      t = (if content s = [] then None else Some (last (sort_key ar_Seq (content s))))"
begin

lemma verify_chained:
  "verify b3 a s = Inr None \<longleftrightarrow>
     is_ok (fst (as_AuditRows a s)) \<and> chained b3 0 (genesisPrevHash b3) (sort_key ar_Seq (content s))"
  by (cases "fst (as_AuditRows a s)") (auto simp: verify_def verify_loop_None dest: rows_ok)

lemma Append_cases:
  obtains (ok) row s1 t where "Append b3 a event s = (Inr row, s1)" "content s1 = content s @ [row\<lparr>ar_TS := t\<rparr>]"
      "ar_Seq row = (if content s = [] then 0 else wrap64 (ar_Seq (last (sort_key ar_Seq (content s))) + 1))"
      "ar_PrevHash row = tail_hash b3 (sort_key ar_Seq (content s))"
      "ar_Hash row = chainHash b3 (ar_PrevHash row) event" "ar_Event row = event"
  | (err) e s1 where "Append b3 a event s = (Inl e, s1)" "content s1 = content s"
proof (cases "fst (as_AuditLast a s)")
  case (Inl e)
  then have "as_AuditLast a s = (Inl e, s)" using last_state [of s] by (metis prod.collapse)
  with err [of "ReadTail e" s] show ?thesis by (simp add: Append_def)
next
  case (Inr t)
  then have l: "as_AuditLast a s = (Inr t, s)" using last_state [of s] by (metis prod.collapse)
  let ?sp = "case t of Some row \<Rightarrow> (wrap64 (ar_Seq row + 1), ar_Hash row) | None \<Rightarrow> (0, genesisPrevHash b3)"
  let ?row = "\<lparr>ar_Seq = fst ?sp, ar_PrevHash = snd ?sp, ar_Hash = chainHash b3 (snd ?sp) event,
                      ar_Event = event, ar_TS = 0\<rparr>"
  have sp: "fst ?sp = (if content s = [] then 0 else wrap64 (ar_Seq (last (sort_key ar_Seq (content s))) + 1))"
    "snd ?sp = tail_hash b3 (sort_key ar_Seq (content s))"
    using last_ok [OF Inr] by (auto simp: tail_hash_def)
  have A: "Append b3 a event s = (case as_AuditAppend a ?row s of
                (Inl err, st2) \<Rightarrow> (Inl (Persist err), st2)
              | (Inr _, st2) \<Rightarrow> (Inr ?row, st2))"
    by (simp add: Append_def l Let_def split_beta)
  obtain x s2 where x: "as_AuditAppend a ?row s = (x, s2)" by fastforce
  show ?thesis
  proof (cases x)
    case (Inl e)
    with x A append_err [of ?row s e s2] show ?thesis by (intro err [of "Persist e" s2]) simp_all
  next
    case (Inr u)
    with x append_ok [of ?row s s2] obtain t' where "content s2 = content s @ [?row\<lparr>ar_TS := t'\<rparr>]" by auto
    with x A Inr sp show ?thesis by (intro ok [of ?row s2 t']) simp_all
  qed
qed

lemma Append_keeps_chain:
  assumes "chained b3 0 (genesisPrevHash b3) (sort_key ar_Seq (content s))" "length (content s) < 2 ^ 63"
  shows "chained b3 0 (genesisPrevHash b3) (sort_key ar_Seq (content (snd (Append b3 a event s))))"
proof (cases rule: Append_cases [of b3 event s])
  case (ok row s1 t)
  let ?rs = "sort_key ar_Seq (content s)" and ?r = "row\<lparr>ar_TS := t\<rparr>"
  note pos = chain_positions [OF assms]
  have "\<forall>x\<in>set (content s). ar_Seq x \<le> ar_Seq ?r" using pos ok(3) by auto
  then have "sort_key ar_Seq (content s1) = ?rs @ [?r]" using ok(2) by (simp add: sort_key_snoc)
  moreover have "wrap64 (int (length ?rs)) = int (length ?rs)" using assms(2) by simp
  ultimately show ?thesis using assms(1) ok pos(1) by (simp add: chained_snoc)
next
  case (err e s1)
  with assms(1) show ?thesis by simp
qed

end

section \<open>The store is an audit store\<close>

lemma AuditAppend_cases:
  "AuditAppend e r st = (Inr (), st\<lparr>st_audit := st_audit st @ [r\<lparr>ar_TS := db_now e\<rparr>]\<rparr>) \<or>
   (\<exists>err. AuditAppend e r st = (Inl err, st))"
  by (simp add: AuditAppend_def okToUse_def insert_audit_def)

interpretation au: audit_store "NewAppender e" st_audit for e
proof unfold_locales
  show "as_AuditAppend (NewAppender e) r s = (Inr (), s') \<Longrightarrow> \<exists>t. st_audit s' = st_audit s @ [r\<lparr>ar_TS := t\<rparr>]" for r s s'
    using AuditAppend_cases [of e r s] by (auto simp: NewAppender_def)
  show "as_AuditAppend (NewAppender e) r s = (Inl err, s') \<Longrightarrow> st_audit s' = st_audit s" for r s err s'
    using AuditAppend_cases [of e r s] by (auto simp: NewAppender_def)
  show "fst (as_AuditRows (NewAppender e) s) = Inr rs \<Longrightarrow> rs = sort_key ar_Seq (st_audit s)" for s rs
    by (auto simp: NewAppender_def AuditRows_def okToUse_def split: if_splits)
  show "snd (as_AuditLast (NewAppender e) s) = s" for s by (simp add: NewAppender_def)
  show "fst (as_AuditLast (NewAppender e) s) = Inr t \<Longrightarrow>
      t = (if st_audit s = [] then None else Some (last (sort_key ar_Seq (st_audit s))))" for s t
    by (auto simp: NewAppender_def AuditLast_def okToUse_def split: if_splits)
qed

lemma Verify_audit_chained:
  "Verify_audit b3 e st = Inr None \<longleftrightarrow>
     is_ok (fst (AuditRows e st)) \<and> chained b3 0 (genesisPrevHash b3) (sort_key ar_Seq (st_audit st))"
  by (simp add: Verify_audit_def au.verify_chained) (simp add: NewAppender_def)

text \<open>A database whose log verifies; nothing is claimed of a log that has outgrown its 64-bit positions.\<close>

abbreviation log_ok :: "digest \<Rightarrow> store \<Rightarrow> bool" where
  "log_ok b3 st \<equiv> (length (st_audit st) \<le> 2 ^ 63 \<longrightarrow> chained b3 0 (genesisPrevHash b3) (sort_key ar_Seq (st_audit st)))"

lemma Append_store:
  "snd (Append b3 (NewAppender e) event st) = st \<or>
   (\<exists>row. snd (Append b3 (NewAppender e) event st) = snd (AuditAppend e row st))"
proof -
  obtain x where x: "as_AuditLast (NewAppender e) st = (x, st)"
    by (metis au.last_state prod.collapse)
  show ?thesis
    by (cases x) (auto simp: Append_def x Let_def split_beta NewAppender_def split: sum.splits prod.splits)
qed

lemma Append_step: "store_step\<^sup>*\<^sup>* st (snd (Append b3 (NewAppender e) event st))"
  using Append_store [of b3 e event st] step_AuditAppend [of st e] by auto

lemma Append_tables [simp]:
  "st_messages (snd (Append b3 (NewAppender e) event st)) = st_messages st"
  "st_peers (snd (Append b3 (NewAppender e) event st)) = st_peers st"
  "st_sender_seq (snd (Append b3 (NewAppender e) event st)) = st_sender_seq st"
  "st_closed (snd (Append b3 (NewAppender e) event st)) = st_closed st"
  using Append_store [of b3 e event st] AuditAppend_snd [of e _ st] by (metis store.select_convs store.update_convs(4) store.surjective)+

section \<open>Properties of the audit log\<close>

lemma Append_succeeds:
  assumes "chained b3 0 (genesisPrevHash b3) (sort_key ar_Seq (st_audit st))" "length (st_audit st) < 2 ^ 63"
    "\<And>x. b3 x \<noteq> []" "\<not> st_closed st" "\<And>s. \<not> db_fault e s" "event \<noteq> []"
  shows "\<exists>row. fst (Append b3 (NewAppender e) event st) = Inr row"
proof -
  note pos = chain_positions [OF assms(1,2)]
  have "tail_hash b3 (sort_key ar_Seq (st_audit st)) \<noteq> []"
    using assms(1,3) by (cases "sort_key ar_Seq (st_audit st)" rule: rev_cases)
      (auto simp: tail_hash_def chained_snoc chainHash_def, simp add: genesisPrevHash_def)
  then show ?thesis
    using pos assms(3-6)
    by (auto simp: Append_def NewAppender_def AuditLast_def okToUse_def AuditAppend_def insert_audit_def
        tail_hash_def chainHash_def Let_def split: if_splits)
qed

text \<open>A concrete digest for the examples: the first 32 bytes, padded.\<close>

definition demo_digest :: digest where
  "demo_digest x = take 32 (x @ replicate 32 (CHR ''.''))"

lemma demo_digest_length: "length (demo_digest x) = 32" "demo_digest x \<noteq> []"
proof -
  show "length (demo_digest x) = 32" by (simp add: demo_digest_def)
  then show "demo_digest x \<noteq> []" by (metis list.size(3) zero_neq_numeral)
qed

definition demo_log :: store where
  "demo_log = snd (Append demo_digest (NewAppender (no_fault 1)) ''e1''
     (snd (Append demo_digest (NewAppender (no_fault 0)) ''e0'' empty_store)))"

text \<open>Its rows, with the hashes left as they are computed.\<close>

lemma demo_hash [simp]: "genesisPrevHash demo_digest \<noteq> []" "chainHash demo_digest p x \<noteq> []" "chainHash demo_digest p x \<noteq> ''h''"
proof -
  have "length (genesisPrevHash demo_digest) = 64" "length (chainHash demo_digest p x) = 64"
    using demo_digest_length(1) by (simp_all add: genesisPrevHash_def chainHash_def)
  then show "genesisPrevHash demo_digest \<noteq> []" "chainHash demo_digest p x \<noteq> []" "chainHash demo_digest p x \<noteq> ''h''"
    by auto
qed

definition demo_rows :: "audit_row list" where
  "demo_rows = (let g = genesisPrevHash demo_digest; h = chainHash demo_digest g ''e0'' in
     [\<lparr>ar_Seq = 0, ar_PrevHash = g, ar_Hash = h, ar_Event = ''e0'', ar_TS = 0\<rparr>,
      \<lparr>ar_Seq = 1, ar_PrevHash = h, ar_Hash = chainHash demo_digest h ''e1'', ar_Event = ''e1'', ar_TS = 1\<rparr>])"

lemma demo_log_eq: "demo_log = empty_store\<lparr>st_audit := demo_rows\<rparr>"
  by (simp add: demo_log_def demo_rows_def Append_def NewAppender_def AuditLast_def AuditAppend_def okToUse_def insert_audit_def
      empty_store_def no_fault_def Let_def wrap64_def)

lemmas demo_log_simps = demo_log_eq demo_rows_def empty_store_def no_fault_def okToUse_def AuditRows_def AuditTamper_def
  Verify_audit_def verify_def NewAppender_def wrap64_def Let_def

lemma demo_log_verifies: "Verify_audit demo_digest (no_fault 5) demo_log = Inr None" "length (st_audit demo_log) = 2"
  "\<not> st_closed demo_log"
  by (simp_all add: demo_log_simps)

text \<open>Appending keeps the log verifiable: from a log that verifies, \<open>Append\<close> leads to a log that
  verifies whatever statement fails on the way, and without failures it succeeds and adds
  exactly the given event at the end.\<close>

theorem append_keeps_log_verifiable:
  assumes "Verify_audit b3 e st = Inr None" "length (st_audit st) < 2 ^ 63"
  shows "Verify_audit b3 e (snd (Append b3 (NewAppender e') event st)) = Inr None \<and>
    ((\<forall>x. length (b3 x) = 32) \<and> (\<forall>s. \<not> db_fault e' s) \<and> event \<noteq> [] \<longrightarrow>
      (\<exists>row t. fst (Append b3 (NewAppender e') event st) = Inr row \<and> ar_Event row = event \<and>
         st_audit (snd (Append b3 (NewAppender e') event st)) = st_audit st @ [row\<lparr>ar_TS := t\<rparr>]))"
proof -
  have c: "chained b3 0 (genesisPrevHash b3) (sort_key ar_Seq (st_audit st))" "is_ok (fst (AuditRows e st))"
    using assms(1) by (simp_all add: Verify_audit_chained)
  have "is_ok (fst (AuditRows e (snd (Append b3 (NewAppender e') event st))))"
    using c(2) by (simp add: AuditRows_def okToUse_def split: if_splits)
  then have "Verify_audit b3 e (snd (Append b3 (NewAppender e') event st)) = Inr None"
    using au.Append_keeps_chain [OF c(1) assms(2)] by (simp add: Verify_audit_chained)
  moreover have "\<exists>row t. fst (Append b3 (NewAppender e') event st) = Inr row \<and> ar_Event row = event \<and>
         st_audit (snd (Append b3 (NewAppender e') event st)) = st_audit st @ [row\<lparr>ar_TS := t\<rparr>]"
    if h: "\<forall>x. length (b3 x) = 32" "\<forall>s. \<not> db_fault e' s" "event \<noteq> []"
  proof -
    have "b3 x \<noteq> []" for x using h(1) by (metis list.size(3) zero_neq_numeral)
    moreover have "\<not> st_closed st" using c(2) by (simp add: AuditRows_def okToUse_def split: if_splits)
    ultimately obtain row where "fst (Append b3 (NewAppender e') event st) = Inr row"
      using Append_succeeds [OF c(1) assms(2)] h by blast
    then show ?thesis by (cases rule: au.Append_cases [of b3 e' event st]) auto
  qed
  ultimately show ?thesis by blast
qed

theorem append_keeps_log_verifiable_witness:
  "Verify_audit demo_digest (no_fault 5) (snd (Append demo_digest (NewAppender (no_fault 6)) ''e2'' demo_log)) = Inr None \<and>
   (\<exists>row. fst (Append demo_digest (NewAppender (no_fault 6)) ''e2'' demo_log) = Inr row)"
  using append_keeps_log_verifiable [OF demo_log_verifies(1), of "no_fault 6" "''e2''"] demo_log_verifies(2) demo_digest_length
  by (auto simp: no_fault_def)

text \<open>C31: \<open>Verify\<close> accepts exactly the chains (positions 0, 1, 2, ..., each row carrying its
  predecessor's hash and the hash of its own link), and otherwise reports the first
  index at which the log stops being a chain.\<close>

theorem verify_reports_first_break:
  assumes "fst (AuditRows e st) = Inr rows"
  shows "(Verify_audit b3 e st = Inr None \<longleftrightarrow> chained b3 0 (genesisPrevHash b3) rows) \<and>
    (\<forall>b. Verify_audit b3 e st = Inr (Some b) \<longrightarrow> brk_Index b < length rows \<and>
       chained b3 0 (genesisPrevHash b3) (take (brk_Index b) rows) \<and>
       \<not> chained b3 0 (genesisPrevHash b3) (take (Suc (brk_Index b)) rows))"
proof -
  have v: "Verify_audit b3 e st = Inr (verify_loop b3 0 (genesisPrevHash b3) rows)"
    using assms by (auto simp: Verify_audit_def verify_def NewAppender_def)
  show ?thesis using verify_loop_Some [of b3 0 "genesisPrevHash b3" rows] by (auto simp: v verify_loop_None)
qed

theorem verify_reports_first_break_witness:
  "Verify_audit demo_digest (no_fault 5) (snd (AuditTamper (no_fault 4) 1 ''xx'' ''h'' demo_log)) =
     Inr (Some \<lparr>brk_Index = 1, brk_Seq = 1, brk_Detail = HashMismatch ''h'' (chainHash demo_digest (ar_Hash (st_audit demo_log ! 0)) ''xx'')\<rparr>) \<and>
   \<not> chained demo_digest 0 (genesisPrevHash demo_digest) (take 2 (st_audit (snd (AuditTamper (no_fault 4) 1 ''xx'' ''h'' demo_log))))"
proof -
  let ?st = "snd (AuditTamper (no_fault 4) 1 ''xx'' ''h'' demo_log)"
  have "fst (AuditRows (no_fault 5) ?st) = Inr (st_audit ?st)" by (simp add: demo_log_simps)
  moreover have v: "Verify_audit demo_digest (no_fault 5) ?st =
     Inr (Some \<lparr>brk_Index = 1, brk_Seq = 1, brk_Detail = HashMismatch ''h'' (chainHash demo_digest (ar_Hash (st_audit demo_log ! 0)) ''xx'')\<rparr>)"
    by (simp add: demo_log_simps)
  ultimately show ?thesis
    using verify_reports_first_break [of "no_fault 5" ?st "st_audit ?st" demo_digest] by (simp add: numeral_2_eq_2)
qed

text \<open>The log commits to its history: two verifying logs of the same length that end in the same
  hash hold the same events in the same order, unless at some position they hash different bytes to the same
  BLAKE3 digest.\<close>

theorem equal_tails_equal_logs:
  assumes "\<forall>x. length (b3 x) = 32" "Verify_audit b3 e st = Inr None" "Verify_audit b3 e' st' = Inr None"
    "fst (AuditRows e st) = Inr rows" "fst (AuditRows e' st') = Inr rows'"
    "length rows = length rows'" "tail_hash b3 rows = tail_hash b3 rows'"
  shows "map ar_Event rows = map ar_Event rows' \<or> links_collide b3 rows rows'"
proof -
  have "rows = sort_key ar_Seq (st_audit st)" "rows' = sort_key ar_Seq (st_audit st')"
    using assms(4,5) au.rows_ok by (simp_all add: NewAppender_def)
  with assms have "list_all2 same_link rows rows' \<or> links_collide b3 rows rows'"
    by (intro chains_agree) (simp_all add: Verify_audit_chained)
  moreover have "map ar_Event rows = map ar_Event rows'" if "list_all2 same_link rows rows'"
    using that by (induction rule: list_all2_induct) (simp_all add: same_link_def)
  ultimately show ?thesis by blast
qed

theorem equal_tails_equal_logs_witness:
  "map ar_Event (st_audit demo_log) = [''e0'', ''e1''] \<or> links_collide demo_digest (st_audit demo_log) (st_audit demo_log)"
proof -
  have "fst (AuditRows (no_fault 5) demo_log) = Inr (st_audit demo_log)" by (simp add: demo_log_simps)
  moreover have "map ar_Event (st_audit demo_log) = [''e0'', ''e1'']" by (simp add: demo_log_simps)
  ultimately show ?thesis
    using equal_tails_equal_logs [of demo_digest, OF _ demo_log_verifies(1) demo_log_verifies(1)] demo_digest_length by simp
qed

lemma sort_key_map_same: "(\<And>x. f (g x) = f x) \<Longrightarrow> sort_key f (map g xs) = map g (sort_key f xs)"
proof (induction xs)
  case (Cons x xs)
  have "insort_key f (g x) (map g ys) = map g (insort_key f x ys)" for ys
    by (induction ys) (simp_all add: Cons.prems)
  with Cons show ?case by simp
qed simp

lemma chained_two:
  assumes "chained b3 i want (xs @ r # r' # ys)"
  shows "ar_Hash r = chainHash b3 (ar_PrevHash r) (ar_Event r)" "ar_PrevHash r' = ar_Hash r"
  using assms by (auto simp: chained_append)

text \<open>A log that is not a chain breaks behind any part that is one and within any part that is none.\<close>

lemma verify_breaks_between:
  assumes "verify_loop b3 0 want rs = Some b" "chained b3 0 want (take k rs)" "\<not> chained b3 0 want (take n rs)"
  shows "k \<le> brk_Index b" "brk_Index b < n"
proof -
  note v = verify_loop_Some [OF assms(1), simplified]
  have prefix: "chained b3 0 want (take x rs)" if "x \<le> y" "chained b3 0 want (take y rs)" for x y
    using that chained_append [of b3 0 want "take x rs" "take (y - x) (drop x rs)"] by (simp add: take_add [symmetric])
  show "k \<le> brk_Index b" using v assms(2) prefix [of "Suc (brk_Index b)" k] by (meson not_less_eq_eq)
  show "brk_Index b < n" using v assms(3) prefix [of n "brk_Index b"] by (meson not_less)
qed

text \<open>C32: Rewriting the event of a row is detected: after \<open>AuditTamper\<close> has put a different event and any hash at a
  position of a verifying log that is not the last one, \<open>Verify\<close> reports a break at that row or at the next one,
  provided that the digest tells the new link of the row from the old one.\<close>

theorem tampering_detected:
  assumes "Verify_audit b3 e st = Inr None" "fst (AuditRows e st) = Inr (xs @ r # r' # ys)"
    "ar_Seq r \<notin> ar_Seq ` set (xs @ r' # ys)" "b3 (ar_PrevHash r @ event) \<noteq> b3 (ar_PrevHash r @ ar_Event r)"
    "AuditTamper e' (ar_Seq r) event hash st = (Inr (), st')"
  shows "\<exists>b. Verify_audit b3 e st' = Inr (Some b) \<and> brk_Index b \<in> {length xs, Suc (length xs)}"
proof -
  let ?g = "\<lambda>r'. if ar_Seq r' = ar_Seq r then r'\<lparr>ar_Event := event, ar_Hash := hash\<rparr> else r'"
  let ?rows = "xs @ ?g r # r' # ys"
  have rows: "sort_key ar_Seq (st_audit st) = xs @ r # r' # ys"
    using au.rows_ok [of e st] assms(2) by (simp add: NewAppender_def)
  have "st_audit st' = map ?g (st_audit st)"
    using assms(5) by (auto simp: AuditTamper_def okToUse_def split: if_splits)
  moreover have "map ?g zs = zs" if "set zs \<subseteq> set xs \<union> set ys" for zs
  proof (rule map_idI)
    fix x assume "x \<in> set zs"
    then have "ar_Seq x \<noteq> ar_Seq r" using assms(3) that by (metis Un_iff image_eqI list.set_intros(2) set_append subsetD)
    then show "?g x = x" by simp
  qed
  then have "map ?g xs = xs" "map ?g ys = ys" by simp_all
  ultimately have rows': "sort_key ar_Seq (st_audit st') = ?rows"
    using assms(3) rows by (simp add: sort_key_map_same)
  have c: "chained b3 0 (genesisPrevHash b3) (xs @ r # r' # ys)"
    using assms(1) by (simp only: Verify_audit_chained rows)
  have "\<not> chained b3 0 (genesisPrevHash b3) (xs @ [?g r, r'])"
  proof
    assume "chained b3 0 (genesisPrevHash b3) (xs @ [?g r, r'])"
    from chained_two [of _ _ _ _ _ _ "[]", OF this] chained_two [OF c] assms(4) show False
      by (simp add: chainHash_def hex_encode_inj)
  qed
  then have n: "\<not> chained b3 0 (genesisPrevHash b3) (take (Suc (Suc (length xs))) ?rows)" by simp
  have k: "chained b3 0 (genesisPrevHash b3) (take (length xs) ?rows)" using c by (simp add: chained_append)
  have "st_closed st' = st_closed st" using assms(5) by (auto simp: AuditTamper_def okToUse_def split: if_splits)
  then have "fst (AuditRows e st') = Inr ?rows"
    using assms(2) rows' by (auto simp: AuditRows_def okToUse_def split: if_splits)
  then have v: "Verify_audit b3 e st' = Inr (verify_loop b3 0 (genesisPrevHash b3) ?rows)"
    by (auto simp: Verify_audit_def verify_def NewAppender_def)
  moreover obtain b where b: "verify_loop b3 0 (genesisPrevHash b3) ?rows = Some b"
    using n verify_loop_None [of b3 0 "genesisPrevHash b3" ?rows] chained_append [of b3 0 "genesisPrevHash b3" "xs @ [?g r, r']" ys]
    by fastforce
  ultimately show ?thesis using verify_breaks_between [OF b k n] by auto
qed

text \<open>A digest that sees the end of its input, and a log whose first event is rewritten with its hash kept.\<close>

definition demo_tail_digest :: digest where
  "demo_tail_digest x = take 32 (rev x @ replicate 32 (CHR ''.''))"

definition demo_tail_rows :: "audit_row list" where
  "demo_tail_rows = (let g = genesisPrevHash demo_tail_digest; h = chainHash demo_tail_digest g ''e0'' in
     [\<lparr>ar_Seq = 0, ar_PrevHash = g, ar_Hash = h, ar_Event = ''e0'', ar_TS = 0\<rparr>,
      \<lparr>ar_Seq = 1, ar_PrevHash = h, ar_Hash = chainHash demo_tail_digest h ''e1'', ar_Event = ''e1'', ar_TS = 1\<rparr>])"

theorem tampering_detected_witness:
  "\<exists>b. Verify_audit demo_tail_digest (no_fault 5)
      (snd (AuditTamper (no_fault 4) 0 ''xx'' (ar_Hash (demo_tail_rows ! 0)) (empty_store\<lparr>st_audit := demo_tail_rows\<rparr>))) = Inr (Some b) \<and>
    brk_Index b \<in> {0, 1}"
proof -
  let ?st = "empty_store\<lparr>st_audit := demo_tail_rows\<rparr>"
  let ?t = "AuditTamper (no_fault 4) 0 ''xx'' (ar_Hash (demo_tail_rows ! 0)) ?st"
  note simps = demo_tail_rows_def empty_store_def no_fault_def okToUse_def AuditRows_def AuditTamper_def
    Verify_audit_def verify_def NewAppender_def wrap64_def Let_def
  have "Verify_audit demo_tail_digest (no_fault 5) ?st = Inr None" by (simp add: simps)
  moreover have "fst (AuditRows (no_fault 5) ?st) = Inr ([] @ demo_tail_rows ! 0 # demo_tail_rows ! 1 # [])" by (simp add: simps)
  moreover have "ar_Seq (demo_tail_rows ! 0) = 0" "ar_Seq (demo_tail_rows ! 1) = 1" "ar_Event (demo_tail_rows ! 0) = ''e0''"
    by (simp_all add: simps)
  moreover have "demo_tail_digest (p @ ''xx'') \<noteq> demo_tail_digest (p @ ''e0'')" for p by (simp add: demo_tail_digest_def)
  moreover have "?t = (Inr (), snd ?t)" by (simp add: simps)
  ultimately show ?thesis
    using tampering_detected [of demo_tail_digest "no_fault 5" ?st "[]" "demo_tail_rows ! 0" "demo_tail_rows ! 1" "[]" "''xx''"
        "no_fault 4" "ar_Hash (demo_tail_rows ! 0)" "snd ?t"] by simp
qed

text \<open>Truncation is not detected: cutting any number of rows off the end of a verifying log leaves
  a log that verifies.\<close>

theorem truncation_undetected:
  assumes "Verify_audit b3 e st = Inr None" "fst (AuditRows e st) = Inr rows"
  shows "Verify_audit b3 e (st\<lparr>st_audit := take k rows\<rparr>) = Inr None"
proof -
  have rows: "rows = sort_key ar_Seq (st_audit st)"
    using au.rows_ok [of e st] assms(2) by (simp add: NewAppender_def)
  then have "sorted (map ar_Seq (take k rows))" by (simp add: take_map [symmetric])
  then have s: "sort_key ar_Seq (take k rows) = take k rows" by (rule sort_key_id_if_sorted)
  have "chained b3 0 (genesisPrevHash b3) (take k rows @ drop k rows)"
    using assms(1) rows by (simp add: Verify_audit_chained)
  then have "chained b3 0 (genesisPrevHash b3) (take k rows)" by (simp only: chained_append)
  moreover have "is_ok (fst (AuditRows e (st\<lparr>st_audit := take k rows\<rparr>)))"
    using assms(2) by (auto simp: AuditRows_def okToUse_def split: if_splits)
  ultimately show ?thesis by (simp add: Verify_audit_chained s)
qed

theorem truncation_undetected_witness:
  "Verify_audit demo_digest (no_fault 5) (demo_log\<lparr>st_audit := take 1 (st_audit demo_log)\<rparr>) = Inr None"
proof (rule truncation_undetected [OF demo_log_verifies(1)])
  show "fst (AuditRows (no_fault 5) demo_log) = Inr (st_audit demo_log)" by (simp add: demo_log_simps)
qed

end
