(* ===== verification/Registry.thy ===== *)
theory Registry
  imports Peerbus_Prelude "HOL-Library.AList"
begin

text \<open>
  Package \<open>internal/broker\<close>, \<open>auth.go\<close> and \<open>registry.go\<close>: bearer tokens and the map from peer names to
  live connections.  A connection is an index into the broker's connection table; the
  connection that a takeover displaces is returned so that the caller closes it, as
  \<open>Bind\<close> does after releasing its lock.  Every method holds the one mutex for its whole
  access to the map, so a call is one atomic step.
\<close>

section \<open>auth.go\<close>

definition NewAuthenticator :: "string list \<Rightarrow> string list" where
  "NewAuthenticator tokens = tokens"

definition Valid :: "string list \<Rightarrow> string \<Rightarrow> bool" where
  "Valid tokens tok =
     (if tok = [] then False
      else foldl (\<lambda>ok t. if ConstantTimeCompare t tok = 1 then True else ok) False tokens)"

section \<open>registry.go\<close>

record binding =
  bind_conn :: nat
  bind_token :: string

type_synonym registry = "(string \<times> binding) list"

datatype registry_error = ErrNameClaimed

definition NewRegistry :: registry where
  "NewRegistry = []"

definition tokenEq :: "string \<Rightarrow> string \<Rightarrow> bool" where
  "tokenEq a b = (ConstantTimeCompare a b = 1)"

definition Bind :: "string \<Rightarrow> string \<Rightarrow> nat \<Rightarrow> registry \<Rightarrow> (registry_error, nat option) result \<times> registry" where
  "Bind name token conn r =
     (case map_of r name of
        Some existing \<Rightarrow>
          if \<not> tokenEq (bind_token existing) token then (Inl ErrNameClaimed, r)
          else (Inr (Some (bind_conn existing)),
                AList.update name \<lparr>bind_conn = conn, bind_token = token\<rparr> r)
      | None \<Rightarrow> (Inr None, AList.update name \<lparr>bind_conn = conn, bind_token = token\<rparr> r))"

definition Remove :: "string \<Rightarrow> nat \<Rightarrow> registry \<Rightarrow> registry" where
  "Remove name conn r =
     (case map_of r name of
        Some b \<Rightarrow> if bind_conn b = conn then AList.delete name r else r
      | None \<Rightarrow> r)"

definition Get :: "string \<Rightarrow> registry \<Rightarrow> nat option" where
  "Get name r = map_option bind_conn (map_of r name)"

definition List :: "registry \<Rightarrow> string list" where
  "List r = sort (map fst r)"

section \<open>Lemmas\<close>

lemma Valid_iff: "Valid tokens tok \<longleftrightarrow> tok \<noteq> [] \<and> tok \<in> set tokens"
proof -
  have "foldl (\<lambda>ok t. if ConstantTimeCompare t tok = 1 then True else ok) b ts \<longleftrightarrow> b \<or> tok \<in> set ts" for b ts
    by (induction ts arbitrary: b) auto
  then show ?thesis by (simp add: Valid_def)
qed

lemma tokenEq_iff [simp]: "tokenEq a b \<longleftrightarrow> a = b"
  by (simp add: tokenEq_def)

definition registry_ok :: "registry \<Rightarrow> bool" where
  "registry_ok r \<longleftrightarrow> distinct (map fst r)"

lemma registry_ok_ops [simp]:
  "registry_ok NewRegistry"
  "registry_ok r \<Longrightarrow> registry_ok (snd (Bind n t c r))"
  "registry_ok r \<Longrightarrow> registry_ok (Remove n c r)"
  by (auto simp: registry_ok_def NewRegistry_def Bind_def Remove_def distinct_update distinct_delete
      split: option.splits)

lemma Get_Bind:
  "fst (Bind n t c r) = Inr old \<Longrightarrow> Get n' (snd (Bind n t c r)) = (if n' = n then Some c else Get n' r)"
  by (auto simp: Bind_def Get_def update_conv' split: option.splits if_splits)

lemma Bind_old: "fst (Bind n t c r) = Inr old \<Longrightarrow> old = Get n r"
  by (auto simp: Bind_def Get_def split: option.splits if_splits)

lemma Bind_err: "fst (Bind n t c r) = Inl e \<longleftrightarrow> snd (Bind n t c r) = r \<and> (\<exists>b. map_of r n = Some b \<and> bind_token b \<noteq> t) \<and> e = ErrNameClaimed"
  by (cases e) (auto simp: Bind_def split: option.splits if_splits)

lemma Get_Remove: "Get n' (Remove n c r) = (if n' = n \<and> Get n r = Some c then None else Get n' r)"
  by (auto simp: Get_def Remove_def delete_conv' split: option.splits)

lemma List_props: "registry_ok r \<Longrightarrow> sorted (List r) \<and> distinct (List r) \<and> set (List r) = {n. Get n r \<noteq> None}"
  by (auto simp: List_def registry_ok_def Get_def map_of_eq_None_iff)

section \<open>The interface of a peer registry\<close>

locale peer_registry =
  fixes bind :: "string \<Rightarrow> string \<Rightarrow> 'c \<Rightarrow> 'r \<Rightarrow> ('e, 'c option) result \<times> 'r"
    and remove :: "string \<Rightarrow> 'c \<Rightarrow> 'r \<Rightarrow> 'r"
    and get :: "string \<Rightarrow> 'r \<Rightarrow> 'c option"
  assumes get_bind: "fst (bind n t c r) = Inr old \<Longrightarrow> get n' (snd (bind n t c r)) = (if n' = n then Some c else get n' r)"
    and bind_old: "fst (bind n t c r) = Inr old \<Longrightarrow> old = get n r"
    and bind_err: "fst (bind n t c r) = Inl e \<Longrightarrow> snd (bind n t c r) = r"
    and get_remove: "get n' (remove n c r) = (if n' = n \<and> get n r = Some c then None else get n' r)"
begin

lemma takeover_survives_stale_remove:
  assumes "fst (bind n t c r) = Inr (Some c0)" "c0 \<noteq> c"
  shows "get n (remove n c0 (snd (bind n t c r))) = Some c"
  using assms get_bind [OF assms(1)] by (simp add: get_remove)

lemma remove_own: "fst (bind n t c r) = Inr old \<Longrightarrow> get n (remove n c (snd (bind n t c r))) = None"
  by (simp add: get_remove get_bind)

end

interpretation preg: peer_registry Bind Remove Get
  by unfold_locales (auto simp: Get_Bind Get_Remove Bind_err dest: Bind_old)

section \<open>Properties of authentication and registration\<close>

definition demo_registry :: registry where
  "demo_registry = snd (Bind ''bob'' ''tok'' 1 NewRegistry)"

text \<open>A bound name can only be taken over under the token it was bound with: \<open>Bind\<close> under another
  token is refused and changes nothing; under the same token the new connection gets the
  name, the displaced connection is reported for closing, and its own late \<open>Remove\<close> does not evict
  the new binding.\<close>

theorem takeover_needs_same_token:
  assumes "map_of r n = Some b"
  shows "(t \<noteq> bind_token b \<longrightarrow> Bind n t c r = (Inl ErrNameClaimed, r)) \<and>
    (t = bind_token b \<and> c \<noteq> bind_conn b \<longrightarrow>
       fst (Bind n t c r) = Inr (Some (bind_conn b)) \<and> Get n (snd (Bind n t c r)) = Some c \<and>
       Get n (Remove n (bind_conn b) (snd (Bind n t c r))) = Some c \<and>
       (\<forall>n'. n' \<noteq> n \<longrightarrow> Get n' (snd (Bind n t c r)) = Get n' r))"
proof -
  have "fst (Bind n t c r) = Inr (Some (bind_conn b))" if "t = bind_token b"
    using assms that by (simp add: Bind_def)
  then show ?thesis
    using assms preg.takeover_survives_stale_remove [of n t c r "bind_conn b"] Get_Bind [of n t c r]
    by (auto simp: Bind_def)
qed

theorem takeover_needs_same_token_witness:
  "Bind ''bob'' ''other'' 2 demo_registry = (Inl ErrNameClaimed, demo_registry) \<and>
   Get ''bob'' (Remove ''bob'' 1 (snd (Bind ''bob'' ''tok'' 2 demo_registry))) = Some 2"
proof -
  have "map_of demo_registry ''bob'' = Some \<lparr>bind_conn = 1, bind_token = ''tok''\<rparr>" by code_simp
  from takeover_needs_same_token [OF this, of "''other''" 2] takeover_needs_same_token [OF this, of "''tok''" 2]
  show ?thesis by simp
qed

end
