(* ===== verification/Broker.thy ===== *)
theory Broker
  imports Hmac Audit_Log Registry
begin

text \<open>
  Package \<open>internal/broker\<close>, \<open>server.go\<close> and \<open>router.go\<close>: the register handshake, the flush of the
  pending queue, and the routing of frames.  The server's state is a record; every
  handler is a function on it.  What lies outside the repository is the argument \<open>benv\<close>: the
  digest of the audit log, the outcome of the \<open>n\<close>-th database call and of the \<open>n\<close>-th WebSocket
  write, counted by \<open>sv_tick\<close>.  A write that fails may still have reached the peer.
\<close>

section \<open>State\<close>

record benv =
  be_digest :: digest
  be_db :: "nat \<Rightarrow> dbenv"
  be_write :: "nat \<Rightarrow> write_outcome"

text \<open>The reasons for which the broker closes a connection, in the words of the source.\<close>

datatype close_reason =
    NoHandshakeFrame | HandshakeNotText | MalformedHandshake | FirstFrameNotRegister
  | UnsupportedVersion | EmptyName | InvalidToken | PersistenceFailed | NameClaimed
  | HandshakeAckFailed | ShuttingDown | Bye | TakenOver

record peerConn =
  pc_name :: string
  pc_closed :: bool
  pc_takeover :: bool
  pc_done :: bool
  pc_out :: "bytes list"
  pc_reason :: "close_reason option"

record server =
  sv_auth :: "string list"
  sv_registry :: registry
  sv_store :: store
  sv_audit :: bool
  sv_conns :: "nat \<Rightarrow> peerConn"
  sv_tick :: nat

definition newPeerConn :: peerConn where
  "newPeerConn = \<lparr>pc_name = [], pc_closed = False, pc_takeover = False, pc_done = False, pc_out = [], pc_reason = None\<rparr>"

definition NewServer :: "string list \<Rightarrow> registry \<Rightarrow> store \<Rightarrow> server" where
  "NewServer auth reg st = \<lparr>sv_auth = auth, sv_registry = reg, sv_store = st, sv_audit = True,
     sv_conns = (\<lambda>_. newPeerConn), sv_tick = 0\<rparr>"

definition db_call :: "benv \<Rightarrow> (dbenv \<Rightarrow> 'a store_op) \<Rightarrow> server \<Rightarrow> (store_error, 'a) result \<times> server" where
  "db_call env f s =
     (case f (be_db env (sv_tick s)) (sv_store s) of
        (r, st) \<Rightarrow> (r, s\<lparr>sv_store := st, sv_tick := Suc (sv_tick s)\<rparr>))"

definition upd_conn :: "nat \<Rightarrow> (peerConn \<Rightarrow> peerConn) \<Rightarrow> server \<Rightarrow> server" where
  "upd_conn c f s = s\<lparr>sv_conns := (sv_conns s)(c := f (sv_conns s c))\<rparr>"

section \<open>server.go: one connection\<close>

definition CloseTakenOver :: "nat \<Rightarrow> server \<Rightarrow> server" where
  "CloseTakenOver c s =
     (if pc_closed (sv_conns s c) then s
      else upd_conn c (\<lambda>p. p\<lparr>pc_closed := True, pc_takeover := True, pc_done := True, pc_reason := Some TakenOver\<rparr>) s)"

definition closeNormal :: "nat \<Rightarrow> close_reason \<Rightarrow> server \<Rightarrow> server" where
  "closeNormal c reason s =
     (if pc_closed (sv_conns s c) then s
      else upd_conn c (\<lambda>p. p\<lparr>pc_closed := True, pc_done := True, pc_reason := Some reason\<rparr>) s)"

text \<open>\<open>writeJSON\<close>: \<open>b\<close> is the marshalled frame, \<open>None\<close> when marshalling fails.  A write on a closed
  WebSocket fails.\<close>

definition writeJSON :: "benv \<Rightarrow> nat \<Rightarrow> bytes option \<Rightarrow> server \<Rightarrow> bool \<times> server" where
  "writeJSON env c b s =
     (case b of
        None \<Rightarrow> (False, s)
      | Some frame \<Rightarrow>
          (let s' = s\<lparr>sv_tick := Suc (sv_tick s)\<rparr>;
               sent = upd_conn c (\<lambda>p. p\<lparr>pc_out := pc_out p @ [frame]\<rparr>) s'
           in if pc_closed (sv_conns s c) then (False, s')
              else (case be_write env (sv_tick s) of
                 Written \<Rightarrow> (True, sent)
               | WriteFailed \<Rightarrow> (False, s')
               | FailedAfterSend \<Rightarrow> (False, sent))))"

section \<open>router.go\<close>

definition audit_event_bytes :: "string \<Rightarrow> string \<Rightarrow> string \<Rightarrow> string \<Rightarrow> bytes" where
  "audit_event_bytes kind i from to = print_object
     [(''event'', json_quote kind), (''id'', json_quote i), (''from'', json_quote from), (''to'', json_quote to)]"

definition auditEvent :: "benv \<Rightarrow> string \<Rightarrow> string \<Rightarrow> string \<Rightarrow> string \<Rightarrow> server \<Rightarrow> server" where
  "auditEvent env kind i from to s =
     (if \<not> sv_audit s then s
      else s\<lparr>sv_store := snd (Append (be_digest env) (NewAppender (be_db env (sv_tick s)))
                 (audit_event_bytes kind i from to) (sv_store s)),
             sv_tick := Suc (sv_tick s)\<rparr>)"

definition deliver_of :: "string \<Rightarrow> envelope \<Rightarrow> deliver_frame" where
  "deliver_of key env = \<lparr>del_ProtocolVersion = ProtocolVersion, del_Type = ControlDeliver,
     del_DeliveryKey = key, del_Envelope = env\<rparr>"

definition deliverTo :: "benv \<Rightarrow> string \<Rightarrow> message \<Rightarrow> server \<Rightarrow> server" where
  "deliverTo env recipient m s =
     (case Get recipient (sv_registry s) of
        None \<Rightarrow> s
      | Some pc \<Rightarrow>
          (case unmarshal_envelope (msg_Envelope m) of
             Inl _ \<Rightarrow> s
           | Inr e \<Rightarrow>
               (case writeJSON env pc (marshal_deliver (deliver_of (msg_ID m) e)) s of
                  (False, s1) \<Rightarrow> s1
                | (True, s1) \<Rightarrow>
                    (let s2 = snd (db_call env (\<lambda>d. MarkDelivered d (msg_ID m)) s1)
                     in auditEvent env ''deliver'' (msg_ID m) (msg_From m) recipient s2))))"

definition mk_message :: "string \<Rightarrow> string \<Rightarrow> string \<Rightarrow> bytes \<Rightarrow> message" where
  "mk_message i from to raw = \<lparr>msg_ID = i, msg_From = from, msg_To = to, msg_Envelope = raw, msg_Delivered = False,
     msg_Acked = False, msg_Attempts = 0, msg_Seq = 0, msg_TS = 0\<rparr>"

definition routeDirect :: "benv \<Rightarrow> string \<Rightarrow> envelope \<Rightarrow> server \<Rightarrow> server" where
  "routeDirect env from e s =
     (case marshal_envelope e of
        None \<Rightarrow> s
      | Some raw \<Rightarrow>
          (let msg = mk_message (env_ID e) from (env_To e) raw in
           case db_call env (\<lambda>d. Enqueue d msg) s of
             (Inl _, s1) \<Rightarrow> s1
           | (Inr _, s1) \<Rightarrow>
               deliverTo env (env_To e) msg (auditEvent env ''send'' (env_ID e) from (env_To e) s1)))"

definition row_id :: "string \<Rightarrow> string \<Rightarrow> string" where
  "row_id i r = i @ ''|'' @ r"

fun broadcast_loop :: "benv \<Rightarrow> string \<Rightarrow> envelope \<Rightarrow> bytes \<Rightarrow> string list \<Rightarrow> server \<Rightarrow> server" where
  "broadcast_loop env from e raw [] s = s"
| "broadcast_loop env from e raw (r # rs) s =
     (if r = from then broadcast_loop env from e raw rs s
      else
        (let msg = mk_message (row_id (env_ID e) r) from r raw in
         case db_call env (\<lambda>d. Enqueue d msg) s of
           (Inl _, s1) \<Rightarrow> broadcast_loop env from e raw rs s1
         | (Inr _, s1) \<Rightarrow>
             broadcast_loop env from e raw rs
               (deliverTo env r msg (auditEvent env ''send'' (row_id (env_ID e) r) from r s1))))"

definition routeBroadcast :: "benv \<Rightarrow> string \<Rightarrow> envelope \<Rightarrow> server \<Rightarrow> server" where
  "routeBroadcast env from e s =
     (case marshal_envelope e of
        None \<Rightarrow> s
      | Some raw \<Rightarrow> broadcast_loop env from e raw (List (sv_registry s)) s)"

definition routeEnvelope :: "benv \<Rightarrow> string \<Rightarrow> envelope \<Rightarrow> server \<Rightarrow> server" where
  "routeEnvelope env from e s =
     (let isBroadcast = (env_To e = ''*'') in
      if isBroadcast \<noteq> (env_Kind e = KindBroadcast) then s
      else if isBroadcast then routeBroadcast env from e s
      else routeDirect env from e s)"

definition handleAck :: "benv \<Rightarrow> ack_frame \<Rightarrow> string \<Rightarrow> server \<Rightarrow> server" where
  "handleAck env ack from s =
     (if ack_ID ack = [] then s
      else (case db_call env (\<lambda>d. MarkAcked d (ack_ID ack)) s of
         (Inl _, s1) \<Rightarrow> s1
       | (Inr _, s1) \<Rightarrow> auditEvent env ''ack'' (ack_ID ack) from [] s1))"

definition peers_reply :: "server \<Rightarrow> bytes" where
  "peers_reply s = marshal_peers \<lparr>peers_ProtocolVersion = ProtocolVersion, peers_Type = ControlPeers,
     peers_Names = Some (List (sv_registry s))\<rparr>"

definition handlePeers :: "benv \<Rightarrow> nat \<Rightarrow> server \<Rightarrow> server" where
  "handlePeers env c s = snd (writeJSON env c (Some (peers_reply s)) s)"

definition routeFrame :: "benv \<Rightarrow> nat \<Rightarrow> bytes \<Rightarrow> server \<Rightarrow> server" where
  "routeFrame env c data s =
     (let name = pc_name (sv_conns s c);
          data_frame =
            (case unmarshal_envelope data of
               Inl _ \<Rightarrow> s
             | Inr e \<Rightarrow> if env_ID e = [] \<or> env_To e = [] then s else routeEnvelope env name e s)
      in case ControlTypeOf data of
           Inl _ \<Rightarrow> data_frame
         | Inr ct \<Rightarrow>
             if ct = ControlAck then
               (case unmarshal_ack data of Inl _ \<Rightarrow> s | Inr ack \<Rightarrow> handleAck env ack name s)
             else if ct = ControlPeers then handlePeers env c s
             else if ct = ControlRegister then s
             else if ct = ControlDeliver then s
             else data_frame)"

section \<open>server.go: handshake and read loop\<close>

fun flush_loop :: "benv \<Rightarrow> nat \<Rightarrow> message list \<Rightarrow> server \<Rightarrow> server" where
  "flush_loop env c [] s = s"
| "flush_loop env c (m # ms) s =
     (case unmarshal_envelope (msg_Envelope m) of
        Inl _ \<Rightarrow> flush_loop env c ms s
      | Inr e \<Rightarrow>
          (case writeJSON env c (marshal_deliver (deliver_of (msg_ID m) e)) s of
             (False, s1) \<Rightarrow> s1
           | (True, s1) \<Rightarrow>
               (let s2 = snd (db_call env (\<lambda>d. MarkDelivered d (msg_ID m)) s1)
                in flush_loop env c ms
                     (auditEvent env ''deliver'' (msg_ID m) (msg_From m) (pc_name (sv_conns s2 c)) s2))))"

definition flushPending :: "benv \<Rightarrow> nat \<Rightarrow> server \<Rightarrow> server" where
  "flushPending env c s =
     (case db_call env (\<lambda>d. PendingFor d (pc_name (sv_conns s c))) s of
        (Inl _, s1) \<Rightarrow> s1
      | (Inr pend, s1) \<Rightarrow> flush_loop env c pend s1)"

text \<open>What a read on the WebSocket returns: an error (closed by either side, or a frame above the
  read limit), a text message or a binary one.\<close>

datatype ws_read = ReadErr | ReadText bytes | ReadBinary bytes

text \<open>A frame above the read limit \<open>MaxFrameBytes\<close> makes the read fail.\<close>

definition limited :: "ws_read \<Rightarrow> ws_read" where
  "limited r = (case r of
      ReadText b \<Rightarrow> if MaxFrameBytes < length b then ReadErr else r
    | ReadBinary b \<Rightarrow> if MaxFrameBytes < length b then ReadErr else r
    | ReadErr \<Rightarrow> ReadErr)"

definition handshake :: "benv \<Rightarrow> nat \<Rightarrow> ws_read \<Rightarrow> server \<Rightarrow> string option \<times> server" where
  "handshake env c frame s =
     (case frame of
        ReadErr \<Rightarrow> (None, closeNormal c NoHandshakeFrame s)
      | ReadBinary _ \<Rightarrow> (None, closeNormal c HandshakeNotText s)
      | ReadText data \<Rightarrow>
          (case unmarshal_register data of
             Inl _ \<Rightarrow> (None, closeNormal c MalformedHandshake s)
           | Inr reg \<Rightarrow>
               if reg_Type reg \<noteq> ControlRegister then (None, closeNormal c FirstFrameNotRegister s)
               else if \<not> is_ok (CheckVersion (reg_ProtocolVersion reg)) then (None, closeNormal c UnsupportedVersion s)
               else if reg_Name reg = [] then (None, closeNormal c EmptyName s)
               else if \<not> Valid (sv_auth s) (reg_Token reg) then (None, closeNormal c InvalidToken s)
               else
                 (case db_call env (\<lambda>d. Register d (reg_Name reg)) s of
                    (Inl _, s1) \<Rightarrow> (None, closeNormal c PersistenceFailed s1)
                  | (Inr _, s1) \<Rightarrow>
                      (case Bind (reg_Name reg) (reg_Token reg) c (sv_registry s1) of
                         (Inl ErrNameClaimed, _) \<Rightarrow> (None, closeNormal c NameClaimed s1)
                       | (Inr displaced, r') \<Rightarrow>
                           (let s2 = s1\<lparr>sv_registry := r'\<rparr>;
                                s3 = (case displaced of Some old \<Rightarrow> CloseTakenOver old s2 | None \<Rightarrow> s2);
                                s4 = snd (db_call env (\<lambda>d. RequeueUnacked d (reg_Name reg)) s3)
                            in case writeJSON env c (Some (peers_reply s4)) s4 of
                                 (False, s5) \<Rightarrow>
                                   (None, closeNormal c HandshakeAckFailed
                                      (s5\<lparr>sv_registry := Remove (reg_Name reg) c (sv_registry s5)\<rparr>))
                               | (True, s5) \<Rightarrow>
                                   (Some (reg_Name reg),
                                    flushPending env c (upd_conn c (\<lambda>p. p\<lparr>pc_name := reg_Name reg\<rparr>) s5)))))))"

text \<open>
  One turn of the read loop, which tells whether the loop goes on, and the loop over what the
  connection's reads return.
\<close>

datatype loop_event = CtxDone | GotRead ws_read

definition serve_turn :: "benv \<Rightarrow> nat \<Rightarrow> loop_event \<Rightarrow> server \<Rightarrow> bool \<times> server" where
  "serve_turn env c ev s =
     (if pc_done (sv_conns s c) then (False, s)
      else (case ev of
         CtxDone \<Rightarrow> (False, closeNormal c ShuttingDown s)
       | GotRead r \<Rightarrow>
           (case limited r of
              ReadErr \<Rightarrow> (False, s)
            | ReadBinary _ \<Rightarrow> (True, s)
            | ReadText data \<Rightarrow> (True, routeFrame env c data s))))"

fun serve :: "benv \<Rightarrow> nat \<Rightarrow> loop_event list \<Rightarrow> server \<Rightarrow> server" where
  "serve env c [] s = s"
| "serve env c (ev # evs) s =
     (case serve_turn env c ev s of (True, s1) \<Rightarrow> serve env c evs s1 | (False, s1) \<Rightarrow> s1)"

definition disconnect :: "nat \<Rightarrow> server \<Rightarrow> server" where
  "disconnect c s =
     (let s1 = closeNormal c Bye s
      in s1\<lparr>sv_registry := Remove (pc_name (sv_conns s c)) c (sv_registry s1)\<rparr>)"

text \<open>The life of one connection, with no other connection in between.\<close>

definition ServeHTTP :: "benv \<Rightarrow> nat \<Rightarrow> ws_read \<Rightarrow> loop_event list \<Rightarrow> server \<Rightarrow> server" where
  "ServeHTTP env c frame evs s =
     (case handshake env c (limited frame) s of
        (None, s1) \<Rightarrow> s1
      | (Some name, s1) \<Rightarrow> disconnect c (serve env c evs s1))"

section \<open>What the building blocks leave alone\<close>

lemma db_call_simps [simp]:
  "sv_auth (snd (db_call env f s)) = sv_auth s" "sv_registry (snd (db_call env f s)) = sv_registry s"
  "sv_conns (snd (db_call env f s)) = sv_conns s" "sv_audit (snd (db_call env f s)) = sv_audit s"
  "sv_store (snd (db_call env f s)) = snd (f (be_db env (sv_tick s)) (sv_store s))"
  "fst (db_call env f s) = fst (f (be_db env (sv_tick s)) (sv_store s))"
  by (simp_all add: db_call_def split_beta)

lemma upd_conn_simps [simp]:
  "sv_auth (upd_conn c f s) = sv_auth s" "sv_registry (upd_conn c f s) = sv_registry s"
  "sv_store (upd_conn c f s) = sv_store s" "sv_audit (upd_conn c f s) = sv_audit s"
  "sv_tick (upd_conn c f s) = sv_tick s"
  "sv_conns (upd_conn c f s) c' = (if c' = c then f (sv_conns s c) else sv_conns s c')"
  by (simp_all add: upd_conn_def)

lemma close_simps [simp]:
  "sv_auth (CloseTakenOver c s) = sv_auth s" "sv_auth (closeNormal c r s) = sv_auth s"
  "sv_registry (CloseTakenOver c s) = sv_registry s" "sv_registry (closeNormal c r s) = sv_registry s"
  "sv_store (CloseTakenOver c s) = sv_store s" "sv_store (closeNormal c r s) = sv_store s"
  "sv_audit (CloseTakenOver c s) = sv_audit s" "sv_audit (closeNormal c r s) = sv_audit s"
  "pc_name (sv_conns (CloseTakenOver c s) c') = pc_name (sv_conns s c')"
  "pc_name (sv_conns (closeNormal c r s) c') = pc_name (sv_conns s c')"
  "pc_out (sv_conns (CloseTakenOver c s) c') = pc_out (sv_conns s c')"
  "pc_out (sv_conns (closeNormal c r s) c') = pc_out (sv_conns s c')"
  "pc_closed (sv_conns (CloseTakenOver c s) c') = (c' = c \<or> pc_closed (sv_conns s c'))"
  "pc_closed (sv_conns (closeNormal c r s) c') = (c' = c \<or> pc_closed (sv_conns s c'))"
  by (auto simp: CloseTakenOver_def closeNormal_def)

lemma writeJSON_simps [simp]:
  "sv_auth (snd (writeJSON env c b s)) = sv_auth s" "sv_registry (snd (writeJSON env c b s)) = sv_registry s"
  "sv_store (snd (writeJSON env c b s)) = sv_store s" "sv_audit (snd (writeJSON env c b s)) = sv_audit s"
  "pc_name (sv_conns (snd (writeJSON env c b s)) c') = pc_name (sv_conns s c')"
  "pc_closed (sv_conns (snd (writeJSON env c b s)) c') = pc_closed (sv_conns s c')"
  by (simp_all add: writeJSON_def Let_def split: option.splits write_outcome.splits)

lemma writeJSON_out:
  "pc_out (sv_conns (snd (writeJSON env c b s)) c') = pc_out (sv_conns s c') \<or>
   c' = c \<and> (\<exists>fr. b = Some fr \<and> pc_out (sv_conns (snd (writeJSON env c b s)) c') = pc_out (sv_conns s c') @ [fr])"
  by (simp add: writeJSON_def Let_def split: option.splits write_outcome.splits)

lemma writeJSON_ok:
  "fst (writeJSON env c b s) \<Longrightarrow> \<exists>fr. b = Some fr \<and> pc_out (sv_conns (snd (writeJSON env c b s)) c) = pc_out (sv_conns s c) @ [fr]"
  by (simp add: writeJSON_def Let_def split: option.splits write_outcome.splits if_splits)

lemma auditEvent_simps [simp]:
  "sv_auth (auditEvent env k i f t s) = sv_auth s" "sv_registry (auditEvent env k i f t s) = sv_registry s"
  "sv_conns (auditEvent env k i f t s) = sv_conns s" "sv_audit (auditEvent env k i f t s) = sv_audit s"
  "st_messages (sv_store (auditEvent env k i f t s)) = st_messages (sv_store s)"
  "st_peers (sv_store (auditEvent env k i f t s)) = st_peers (sv_store s)"
  "st_closed (sv_store (auditEvent env k i f t s)) = st_closed (sv_store s)"
  by (simp_all add: auditEvent_def)

lemma auditEvent_store: "store_step\<^sup>*\<^sup>* (sv_store s) (sv_store (auditEvent env k i f t s))"
  by (simp add: auditEvent_def Append_step)

section \<open>Interleaved execution\<close>

text \<open>
  The goroutines of the connections share the store, the registry and the sockets.  A
  micro step is one access to one of them, as the handlers perform it; the relation
  allows any order of micro steps of any connections.  The second component remembers
  the name each connection was bound to (a connection binds at most once).
\<close>

type_synonym gstate = "server \<times> (nat \<Rightarrow> string option)"

inductive micro :: "benv \<Rightarrow> gstate \<Rightarrow> gstate \<Rightarrow> bool" for env where
  m_register: "micro env (s, g) (snd (db_call env (\<lambda>d. Register d n) s), g)"
| m_enqueue: "micro env (s, g) (snd (db_call env (\<lambda>d. Enqueue d msg) s), g)"
| m_delivered: "micro env (s, g) (snd (db_call env (\<lambda>d. MarkDelivered d i) s), g)"
| m_acked: "micro env (s, g) (snd (db_call env (\<lambda>d. MarkAcked d i) s), g)"
| m_requeue: "micro env (s, g) (snd (db_call env (\<lambda>d. RequeueUnacked d n) s), g)"
| m_pending: "micro env (s, g) (snd (db_call env (\<lambda>d. PendingFor d n) s), g)"
| m_audit: "micro env (s, g) (auditEvent env k i f t s, g)"
| m_bind: "n \<in> peer_name ` set (st_peers (sv_store s)) \<Longrightarrow> n \<noteq> [] \<Longrightarrow> Valid (sv_auth s) t \<Longrightarrow> g c = None \<Longrightarrow>
    Bind n t c (sv_registry s) = (Inr old, r') \<Longrightarrow> micro env (s, g) (s\<lparr>sv_registry := r'\<rparr>, g(c := Some n))"
| m_takeover: "micro env (s, g) (CloseTakenOver c s, g)"
| m_close: "micro env (s, g) (closeNormal c r s, g)"
| m_remove: "micro env (s, g) (s\<lparr>sv_registry := Remove n c (sv_registry s)\<rparr>, g)"
| m_name: "g c = Some n \<Longrightarrow> n \<noteq> [] \<Longrightarrow> micro env (s, g) (upd_conn c (\<lambda>p. p\<lparr>pc_name := n\<rparr>) s, g)"
| m_peers: "peers_Type p = ControlPeers \<Longrightarrow> micro env (s, g) (snd (writeJSON env c (Some (marshal_peers p)) s), g)"
| m_deliver: "message_row (sv_store s) i = Some m \<Longrightarrow> g c = Some (msg_To m) \<Longrightarrow>
    unmarshal_envelope (msg_Envelope m) = Inr e \<Longrightarrow>
    micro env (s, g) (snd (writeJSON env c (marshal_deliver (deliver_of i e)) s), g)"

definition initial :: "string list \<Rightarrow> store \<Rightarrow> gstate" where
  "initial tokens st = (NewServer tokens NewRegistry st, (\<lambda>_. None))"

text \<open>A frame that may have been written to the connection of peer \<open>n\<close>: a peers frame, or a
  delivery of a row addressed to \<open>n\<close>, under that row's key.\<close>

definition frame_ok :: "store \<Rightarrow> string option \<Rightarrow> bytes \<Rightarrow> bool" where
  "frame_ok st n fr \<longleftrightarrow>
     (\<exists>p. peers_Type p = ControlPeers \<and> fr = marshal_peers p) \<or>
     (\<exists>i m e. message_row st i = Some m \<and> n = Some (msg_To m) \<and>
        unmarshal_envelope (msg_Envelope m) = Inr e \<and> marshal_deliver (deliver_of i e) = Some fr)"

definition binding_ok :: "server \<Rightarrow> (nat \<Rightarrow> string option) \<Rightarrow> string \<Rightarrow> binding \<Rightarrow> bool" where
  "binding_ok s g n b \<longleftrightarrow> n \<noteq> [] \<and> n \<in> peer_name ` set (st_peers (sv_store s)) \<and>
     Valid (sv_auth s) (bind_token b) \<and> g (bind_conn b) = Some n"

definition micro_inv :: "benv \<Rightarrow> gstate \<Rightarrow> bool" where
  "micro_inv env = (\<lambda>(s, g).
     store_inv (sv_store s) \<and> registry_ok (sv_registry s) \<and>
     (\<forall>n b. map_of (sv_registry s) n = Some b \<longrightarrow> binding_ok s g n b) \<and>
     (\<forall>c. pc_name (sv_conns s c) \<noteq> [] \<longrightarrow> g c = Some (pc_name (sv_conns s c))) \<and>
     (\<forall>c fr. fr \<in> set (pc_out (sv_conns s c)) \<longrightarrow> frame_ok (sv_store s) (g c) fr) \<and>
     log_ok (be_digest env) (sv_store s))"

text \<open>Every micro step changes the store through store operations only.\<close>

lemma micro_store: "micro env (s, g) (s', g') \<Longrightarrow> store_step\<^sup>*\<^sup>* (sv_store s) (sv_store s')"
  by (cases rule: micro.cases, assumption)
    (auto intro: r_into_rtranclp store_step.intros auditEvent_store)

lemma frame_ok_later: "store_step\<^sup>*\<^sup>* st st' \<Longrightarrow> frame_ok st n fr \<Longrightarrow> frame_ok st' n fr"
proof -
  assume a: "store_step\<^sup>*\<^sup>* st st'" "frame_ok st n fr"
  have "\<exists>m'. message_row st' i = Some m' \<and> msg_To m' = msg_To m \<and> msg_Envelope m' = msg_Envelope m"
    if "message_row st i = Some m" for i m
    using mrow.steps_row [OF a(1) that] by (auto simp: row_le_def)
  with a(2) show ?thesis unfolding frame_ok_def by metis
qed

lemma micro_inv_keep:
  assumes "micro_inv env (s, g)" "store_step\<^sup>*\<^sup>* (sv_store s) (sv_store s')"
    "sv_auth s' = sv_auth s" "sv_registry s' = sv_registry s"
    "\<And>c. pc_name (sv_conns s' c) = pc_name (sv_conns s c)"
    "\<And>c fr. fr \<in> set (pc_out (sv_conns s' c)) \<Longrightarrow> fr \<in> set (pc_out (sv_conns s c)) \<or> frame_ok (sv_store s') (g c) fr"
    "length (st_audit (sv_store s')) \<le> 2 ^ 63 \<Longrightarrow>
        chained (be_digest env) 0 (genesisPrevHash (be_digest env)) (sort_key ar_Seq (st_audit (sv_store s')))"
  shows "micro_inv env (s', g)"
proof -
  have "store_inv (sv_store s')" using assms(1,2) store_steps_inv by (auto simp: micro_inv_def)
  moreover have "frame_ok (sv_store s') (g c) fr" if "fr \<in> set (pc_out (sv_conns s' c))" for c fr
    using assms(6) [OF that] assms(1) frame_ok_later [OF assms(2)] by (auto simp: micro_inv_def)
  moreover have "binding_ok s' g n b" if "map_of (sv_registry s') n = Some b" for n b
    using that assms(1,3,4) peers_grow [OF assms(2)] by (auto simp: micro_inv_def binding_ok_def)
  ultimately show ?thesis using assms(1,4,5,7) by (simp add: micro_inv_def)
qed

lemma chained_auditEvent:
  assumes "length (st_audit (sv_store s)) \<le> 2 ^ 63 \<Longrightarrow>
      chained (be_digest env) 0 (genesisPrevHash (be_digest env)) (sort_key ar_Seq (st_audit (sv_store s)))"
    "length (st_audit (sv_store (auditEvent env k i f t s))) \<le> 2 ^ 63"
  shows "chained (be_digest env) 0 (genesisPrevHash (be_digest env)) (sort_key ar_Seq (st_audit (sv_store (auditEvent env k i f t s))))"
proof (cases "sv_audit s")
  case True
  let ?st' = "snd (Append (be_digest env) (NewAppender (be_db env (sv_tick s))) (audit_event_bytes k i f t) (sv_store s))"
  have "st_audit ?st' = st_audit (sv_store s) \<or> length (st_audit (sv_store s)) < length (st_audit ?st')"
    by (rule au.Append_cases [of "be_digest env" "be_db env (sv_tick s)" "audit_event_bytes k i f t" "sv_store s"]) auto
  then show ?thesis
    using assms True au.Append_keeps_chain [of "be_digest env" "sv_store s"] by (auto simp: auditEvent_def)
qed (use assms in \<open>simp add: auditEvent_def\<close>)

lemma micro_inv_db:
  assumes "micro_inv env (s, g)" "store_step\<^sup>*\<^sup>* (sv_store s) (snd (f (be_db env (sv_tick s)) (sv_store s)))"
    "st_audit (snd (f (be_db env (sv_tick s)) (sv_store s))) = st_audit (sv_store s)"
  shows "micro_inv env (snd (db_call env f s), g)"
  by (rule micro_inv_keep [OF assms(1)]) (use assms in \<open>simp_all add: micro_inv_def\<close>)

lemma micro_inv_write:
  assumes "micro_inv env (s, g)" "\<And>fr. b = Some fr \<Longrightarrow> frame_ok (sv_store s) (g c) fr"
  shows "micro_inv env (snd (writeJSON env c b s), g)"
proof (rule micro_inv_keep [OF assms(1)])
  fix c' fr
  assume "fr \<in> set (pc_out (sv_conns (snd (writeJSON env c b s)) c'))"
  then show "fr \<in> set (pc_out (sv_conns s c')) \<or> frame_ok (sv_store (snd (writeJSON env c b s))) (g c') fr"
    using writeJSON_out [of env c b s c'] assms(2) by auto
qed (use assms(1) in \<open>simp_all add: micro_inv_def\<close>)

lemma micro_inv_bind:
  assumes "micro_inv env (s, g)" "n \<in> peer_name ` set (st_peers (sv_store s))" "n \<noteq> []" "Valid (sv_auth s) t" "g c = None"
    "Bind n t c (sv_registry s) = (Inr old, r')"
  shows "micro_inv env (s\<lparr>sv_registry := r'\<rparr>, g(c := Some n))"
proof -
  have r: "registry_ok r'" using registry_ok_ops(2) [of "sv_registry s" n t c] assms(1,6) by (simp add: micro_inv_def)
  have m: "map_of r' k = (if k = n then Some \<lparr>bind_conn = c, bind_token = t\<rparr> else map_of (sv_registry s) k)" for k
    using assms(6) by (auto simp: Bind_def update_conv' split: option.splits if_splits)
  have no: "pc_name (sv_conns s c) = []" "bind_conn b \<noteq> c" if "map_of (sv_registry s) k = Some b" for k b
    using assms(1,5) that by (auto simp: micro_inv_def binding_ok_def)
  have out: "frame_ok (sv_store s) ((g(c := Some n)) c') fr" if "fr \<in> set (pc_out (sv_conns s c'))" for c' fr
  proof -
    have "frame_ok (sv_store s) (g c') fr" using assms(1) that by (auto simp: micro_inv_def)
    then show ?thesis using assms(5) by (cases "c' = c") (auto simp: frame_ok_def)
  qed
  have "pc_name (sv_conns s c) = []" using assms(1,5) by (auto simp: micro_inv_def)
  with r m no out assms show ?thesis by (auto simp: micro_inv_def binding_ok_def)
qed

lemma micro_inv_step:
  assumes "micro env x y" "micro_inv env x"
  shows "micro_inv env y"
  using assms
proof (induction rule: micro.induct)
  case (m_bind n s t g c old r')
  then show ?case by (intro micro_inv_bind)
next
  case (m_audit s g k i f t)
  then show ?case
    by (intro micro_inv_keep [OF m_audit]) (auto simp: micro_inv_def intro: auditEvent_store chained_auditEvent)
next
  case (m_remove s g n c)
  have "map_of (Remove n c (sv_registry s)) k = Some b \<Longrightarrow> map_of (sv_registry s) k = Some b" for k b
    by (auto simp: Remove_def delete_conv' split: option.splits if_splits)
  with m_remove show ?case by (auto simp: micro_inv_def binding_ok_def)
next
  case (m_name g c n s)
  then show ?case by (auto simp: micro_inv_def binding_ok_def) metis+
next
  case (m_peers p s g c)
  then show ?case by (intro micro_inv_write) (auto simp: frame_ok_def)
next
  case (m_deliver s i m g c e)
  then show ?case by (intro micro_inv_write) (auto simp: frame_ok_def)
next
  case (m_takeover s g c)
  show ?case by (rule micro_inv_keep [OF m_takeover]) (use m_takeover in \<open>simp_all add: micro_inv_def\<close>)
next
  case (m_close s g c r)
  show ?case by (rule micro_inv_keep [OF m_close]) (use m_close in \<open>simp_all add: micro_inv_def\<close>)
qed (rule micro_inv_db; simp add: r_into_rtranclp store_step.intros)+

section \<open>The handlers are sequences of micro steps\<close>

lemmas micro_one = r_into_rtranclp [where r = "micro env" for env]

lemma micros_inv: "(micro env)\<^sup>*\<^sup>* x y \<Longrightarrow> micro_inv env x \<Longrightarrow> micro_inv env y"
  by (induction rule: rtranclp_induct) (auto intro: micro_inv_step)

lemma micros_store: "(micro env)\<^sup>*\<^sup>* (s, g) (s', g') \<Longrightarrow> store_step\<^sup>*\<^sup>* (sv_store s) (sv_store s')"
proof (induction "(s', g')" arbitrary: s' g' rule: rtranclp_induct)
  case (step y)
  then show ?case by (cases y) (auto dest: micro_store)
qed simp

definition row_for :: "store \<Rightarrow> message \<Rightarrow> bool" where
  "row_for st m \<longleftrightarrow> (\<exists>r. message_row st (msg_ID m) = Some r \<and> msg_To r = msg_To m \<and> msg_Envelope r = msg_Envelope m)"

lemma row_for_later: "store_step\<^sup>*\<^sup>* st st' \<Longrightarrow> row_for st m \<Longrightarrow> row_for st' m"
proof -
  assume a: "store_step\<^sup>*\<^sup>* st st'" "row_for st m"
  then obtain r where r: "message_row st (msg_ID m) = Some r" "msg_To r = msg_To m" "msg_Envelope r = msg_Envelope m"
    by (auto simp: row_for_def)
  from mrow.steps_row [OF a(1) r(1)] r(2,3) show ?thesis by (auto simp: row_for_def row_le_def)
qed

lemma write_deliver_micro:
  assumes "row_for (sv_store s) m" "g c = Some (msg_To m)" "unmarshal_envelope (msg_Envelope m) = Inr e"
  shows "(micro env)\<^sup>*\<^sup>* (s, g) (snd (writeJSON env c (marshal_deliver (deliver_of (msg_ID m) e)) s), g)"
proof -
  obtain r where "message_row (sv_store s) (msg_ID m) = Some r" "msg_To r = msg_To m" "msg_Envelope r = msg_Envelope m"
    using assms(1) by (auto simp: row_for_def)
  with assms(2,3) show ?thesis by (intro r_into_rtranclp m_deliver [of s "msg_ID m" r]) auto
qed

text \<open>The common tail of a successful delivery: mark the row, append the audit event.\<close>

lemma mark_and_audit_micro:
  "(micro env)\<^sup>*\<^sup>* (s, g) (auditEvent env k i f t (snd (db_call env (\<lambda>d. MarkDelivered d j) s)), g)"
  by (rule rtranclp.rtrancl_into_rtrancl [OF micro_one [OF m_delivered] m_audit])

lemma deliverTo_micro:
  assumes "micro_inv env (s, g)" "row_for (sv_store s) m" "r = msg_To m"
  shows "(micro env)\<^sup>*\<^sup>* (s, g) (deliverTo env r m s, g)"
proof (cases "Get r (sv_registry s)")
  case (Some c)
  then have g: "g c = Some (msg_To m)"
    using assms(1,3) by (auto simp: Get_def micro_inv_def binding_ok_def)
  show ?thesis
  proof (cases "unmarshal_envelope (msg_Envelope m)")
    case (Inr e)
    note w = write_deliver_micro [of s m g c e env, OF assms(2) g Inr]
    obtain ok s1 where s1: "writeJSON env c (marshal_deliver (deliver_of (msg_ID m) e)) s = (ok, s1)" by fastforce
    then have w1: "(micro env)\<^sup>*\<^sup>* (s, g) (s1, g)" using w by simp
    show ?thesis
    proof (cases ok)
      case True
      then show ?thesis
        using w1 mark_and_audit_micro by (simp add: deliverTo_def Some Inr s1 Let_def) (rule rtranclp_trans)
    qed (use w1 in \<open>simp add: deliverTo_def Some Inr s1\<close>)
  qed (simp add: deliverTo_def Some)
qed (simp add: deliverTo_def)

lemma row_for_enqueued:
  assumes "store_inv (sv_store s)" "fst (db_call env (\<lambda>d. Enqueue d msg) s) = Inr u"
  shows "row_for (sv_store (snd (db_call env (\<lambda>d. Enqueue d msg) s))) msg"
proof -
  let ?d = "be_db env (sv_tick s)"
  have ok: "fst (Enqueue ?d msg (sv_store s)) = Inr ()" using assms(2) by simp
  have "store_inv (enqueued ?d msg (sv_store s))" using assms(1) ok by (rule store_inv_enqueued)
  then have "message_row (enqueued ?d msg (sv_store s)) (msg_ID msg) = Some (fresh_row ?d msg (sv_store s))"
    by (simp add: message_row_in)
  then show ?thesis by (simp add: row_for_def Enqueue_ok(1) [OF ok])
qed

text \<open>Enqueue, audit the send, deliver: what direct and broadcast routing share.\<close>

lemma send_micro:
  assumes "micro_inv env (s, g)" "db_call env (\<lambda>d. Enqueue d msg) s = (Inr u, s1)" "r = msg_To msg"
  shows "(micro env)\<^sup>*\<^sup>* (s, g) (deliverTo env r msg (auditEvent env k i f t s1), g)"
proof -
  have s1: "s1 = snd (db_call env (\<lambda>d. Enqueue d msg) s)" using assms(2) by simp
  have m1: "(micro env)\<^sup>*\<^sup>* (s, g) (auditEvent env k i f t s1, g)"
    unfolding s1 by (rule rtranclp.rtrancl_into_rtrancl [OF micro_one [OF m_enqueue] m_audit])
  have "row_for (sv_store s1) msg"
    unfolding s1 using assms(1,2) by (intro row_for_enqueued) (auto simp: micro_inv_def)
  then have "row_for (sv_store (auditEvent env k i f t s1)) msg"
    using row_for_later [OF auditEvent_store] by blast
  with deliverTo_micro [OF micros_inv [OF m1 assms(1)]] m1 assms(3) show ?thesis
    by (metis rtranclp_trans)
qed

lemma enqueue_failed_micro:
  "db_call env (\<lambda>d. Enqueue d msg) s = (x, s1) \<Longrightarrow> (micro env)\<^sup>*\<^sup>* (s, g) (s1, g)"
  using micro_one [OF m_enqueue [of env s g msg]] by simp

lemma routeDirect_micro: "micro_inv env (s, g) \<Longrightarrow> (micro env)\<^sup>*\<^sup>* (s, g) (routeDirect env from e s, g)"
  by (auto simp: routeDirect_def mk_message_def Let_def split: option.splits prod.splits sum.splits
      intro: send_micro enqueue_failed_micro)

lemma broadcast_loop_micro:
  "micro_inv env (s, g) \<Longrightarrow> (micro env)\<^sup>*\<^sup>* (s, g) (broadcast_loop env from e raw rs s, g)"
proof (induction rs arbitrary: s)
  case (Cons r rs)
  let ?msg = "mk_message (row_id (env_ID e) r) from r raw"
  obtain x s1 where x: "db_call env (\<lambda>d. Enqueue d ?msg) s = (x, s1)" by fastforce
  define s2 where "s2 = (case x of Inl _ \<Rightarrow> s1
    | Inr _ \<Rightarrow> deliverTo env r ?msg (auditEvent env ''send'' (row_id (env_ID e) r) from r s1))"
  have "(micro env)\<^sup>*\<^sup>* (s, g) (s2, g)"
    using x Cons.prems enqueue_failed_micro [OF x] send_micro [of env s g ?msg _ s1 r]
    by (auto simp: s2_def mk_message_def split: sum.splits)
  moreover have "broadcast_loop env from e raw (r # rs) s =
      (if r = from then broadcast_loop env from e raw rs s else broadcast_loop env from e raw rs s2)"
    by (simp add: x s2_def Let_def split: sum.splits)
  ultimately show ?case using Cons micros_inv by (auto intro: rtranclp_trans)
qed simp

lemma routeEnvelope_micro: "micro_inv env (s, g) \<Longrightarrow> (micro env)\<^sup>*\<^sup>* (s, g) (routeEnvelope env from e s, g)"
  by (auto simp: routeEnvelope_def routeBroadcast_def Let_def broadcast_loop_micro routeDirect_micro split: option.splits)

lemma handleAck_micro: "(micro env)\<^sup>*\<^sup>* (s, g) (handleAck env ack from s, g)"
proof -
  obtain x s1 where x: "db_call env (\<lambda>d. MarkAcked d (ack_ID ack)) s = (x, s1)" by fastforce
  then have "(micro env)\<^sup>*\<^sup>* (s, g) (s1, g)" using micro_one [OF m_acked [of env s g "ack_ID ack"]] by simp
  then show ?thesis
    by (auto simp: handleAck_def x split: sum.splits intro: rtranclp.rtrancl_into_rtrancl m_audit)
qed

lemma handlePeers_micro: "(micro env)\<^sup>*\<^sup>* (s, g) (handlePeers env c s, g)"
  unfolding handlePeers_def peers_reply_def by (rule micro_one [OF m_peers]) simp

lemma routeFrame_micro: "micro_inv env (s, g) \<Longrightarrow> (micro env)\<^sup>*\<^sup>* (s, g) (routeFrame env c data s, g)"
  by (auto simp: routeFrame_def Let_def routeEnvelope_micro handleAck_micro handlePeers_micro split: sum.splits)

lemma flush_loop_micro:
  assumes "\<forall>m\<in>set ms. row_for (sv_store s) m \<and> msg_To m = n" "g c = Some n" 
  shows "(micro env)\<^sup>*\<^sup>* (s, g) (flush_loop env c ms s, g)"
  using assms(1)
proof (induction ms arbitrary: s)
  case (Cons m ms)
  show ?case
  proof (cases "unmarshal_envelope (msg_Envelope m)")
    case (Inr e)
    obtain ok s1 where s1: "writeJSON env c (marshal_deliver (deliver_of (msg_ID m) e)) s = (ok, s1)" by fastforce
    have w1: "(micro env)\<^sup>*\<^sup>* (s, g) (s1, g)"
      using write_deliver_micro [of s m g c e env] Cons.prems assms(2) Inr s1 by simp
    let ?s2 = "snd (db_call env (\<lambda>d. MarkDelivered d (msg_ID m)) s1)"
    let ?s3 = "auditEvent env ''deliver'' (msg_ID m) (msg_From m) (pc_name (sv_conns ?s2 c)) ?s2"
    have w3: "(micro env)\<^sup>*\<^sup>* (s, g) (?s3, g)" using w1 mark_and_audit_micro by (rule rtranclp_trans)
    have "\<forall>m\<in>set ms. row_for (sv_store ?s3) m \<and> msg_To m = n"
      using Cons.prems row_for_later [OF micros_store [OF w3]] by simp
    from Cons.IH [OF this] w3 have "(micro env)\<^sup>*\<^sup>* (s, g) (flush_loop env c ms ?s3, g)" by (rule rtranclp_trans [rotated])
    with w1 show ?thesis by (cases ok) (simp_all add: Inr s1 Let_def)
  qed (use Cons in simp)
qed simp

lemma flushPending_micro:
  assumes "micro_inv env (s, g)" "g c = Some (pc_name (sv_conns s c))"
  shows "(micro env)\<^sup>*\<^sup>* (s, g) (flushPending env c s, g)"
proof -
  let ?n = "pc_name (sv_conns s c)"
  obtain x s1 where x: "db_call env (\<lambda>d. PendingFor d ?n) s = (x, s1)" by fastforce
  have p: "(micro env)\<^sup>*\<^sup>* (s, g) (s1, g)"
    using micro_one [OF m_pending [of env s g ?n]] x by simp
  have st: "sv_store s1 = sv_store s" using db_call_simps(5) [of env "\<lambda>d. PendingFor d ?n" s] x by simp
  show ?thesis
  proof (cases x)
    case (Inr ms)
    have "ms = select_pending ?n (st_messages (sv_store s))"
      using PendingFor_ok [of "be_db env (sv_tick s)" ?n "sv_store s" ms] x Inr
        db_call_simps(6) [of env "\<lambda>d. PendingFor d ?n" s] by simp
    then have "\<forall>m\<in>set ms. row_for (sv_store s1) m \<and> msg_To m = ?n"
      using assms(1) message_row_in [of "sv_store s"] by (auto simp: set_select_pending row_for_def st micro_inv_def)
    from flush_loop_micro [of ms s1 ?n g c env, OF this assms(2)] p show ?thesis
      by (simp add: flushPending_def x Inr)
  qed (use p in \<open>simp add: flushPending_def x\<close>)
qed

text \<open>The part of the handshake after a successful \<open>Bind\<close>.\<close>

definition bound_handshake :: "benv \<Rightarrow> nat \<Rightarrow> string \<Rightarrow> nat option \<Rightarrow> server \<Rightarrow> string option \<times> server" where
  "bound_handshake env c n displaced s2 =
     (let s3 = (case displaced of Some old \<Rightarrow> CloseTakenOver old s2 | None \<Rightarrow> s2);
          s4 = snd (db_call env (\<lambda>d. RequeueUnacked d n) s3)
      in case writeJSON env c (Some (peers_reply s4)) s4 of
           (False, s5) \<Rightarrow> (None, closeNormal c HandshakeAckFailed (s5\<lparr>sv_registry := Remove n c (sv_registry s5)\<rparr>))
         | (True, s5) \<Rightarrow> (Some n, flushPending env c (upd_conn c (\<lambda>p. p\<lparr>pc_name := n\<rparr>) s5)))"

lemma bound_handshake_micro:
  assumes "micro_inv env (s2, g)" "g c = Some n" "n \<noteq> []"
  shows "(micro env)\<^sup>*\<^sup>* (s2, g) (snd (bound_handshake env c n displaced s2), g)"
proof -
  let ?s3 = "case displaced of Some old \<Rightarrow> CloseTakenOver old s2 | None \<Rightarrow> s2"
  let ?s4 = "snd (db_call env (\<lambda>d. RequeueUnacked d n) ?s3)"
  have m3: "(micro env)\<^sup>*\<^sup>* (s2, g) (?s3, g)" by (cases displaced) (auto intro: micro_one m_takeover)
  then have m4: "(micro env)\<^sup>*\<^sup>* (s2, g) (?s4, g)" by (rule rtranclp.rtrancl_into_rtrancl) (rule m_requeue)
  obtain ok s5 where w: "writeJSON env c (Some (peers_reply ?s4)) ?s4 = (ok, s5)" by fastforce
  have "micro env (?s4, g) (snd (writeJSON env c (Some (peers_reply ?s4)) ?s4), g)"
    unfolding peers_reply_def by (rule m_peers) simp
  with m4 w have m5: "(micro env)\<^sup>*\<^sup>* (s2, g) (s5, g)" by (simp add: rtranclp.rtrancl_into_rtrancl)
  show ?thesis
  proof (cases ok)
    case True
    let ?s6 = "upd_conn c (\<lambda>p. p\<lparr>pc_name := n\<rparr>) s5"
    have m6: "(micro env)\<^sup>*\<^sup>* (s2, g) (?s6, g)"
      using m5 m_name [of g c n env s5] assms(2,3) by (simp add: rtranclp.rtrancl_into_rtrancl)
    from flushPending_micro [OF micros_inv [OF m6 assms(1)], of c] assms(2) m6 True show ?thesis
      by (simp add: bound_handshake_def w Let_def)
  next
    case False
    have "(micro env)\<^sup>*\<^sup>* (s5, g) (closeNormal c HandshakeAckFailed (s5\<lparr>sv_registry := Remove n c (sv_registry s5)\<rparr>), g)"
      by (rule rtranclp.rtrancl_into_rtrancl [OF micro_one [OF m_remove] m_close])
    with m5 False show ?thesis by (simp add: bound_handshake_def w Let_def)
  qed
qed

text \<open>What a handshake can do: close the connection, at most after recording the peer, or bind
  the name under a valid token and go on.\<close>

lemma handshake_cases:
  obtains (closed) r where "handshake env c frame s = (None, closeNormal c r s)"
  | (failed) n r where "n \<noteq> []" "handshake env c frame s = (None, closeNormal c r (snd (db_call env (\<lambda>d. Register d n) s)))"
  | (bound) data reg displaced r' where "frame = ReadText data" "unmarshal_register data = Inr reg"
      "reg_Type reg = ControlRegister" "reg_ProtocolVersion reg = ProtocolVersion"
      "reg_Name reg \<noteq> []" "Valid (sv_auth s) (reg_Token reg)"
      "fst (db_call env (\<lambda>d. Register d (reg_Name reg)) s) = Inr ()"
      "Bind (reg_Name reg) (reg_Token reg) c (sv_registry s) = (Inr displaced, r')"
      "handshake env c frame s = bound_handshake env c (reg_Name reg) displaced
         ((snd (db_call env (\<lambda>d. Register d (reg_Name reg)) s))\<lparr>sv_registry := r'\<rparr>)"
proof (cases frame)
  case ReadErr
  then show ?thesis using closed by (simp add: handshake_def)
next
  case (ReadBinary b)
  then show ?thesis using closed by (simp add: handshake_def)
next
  case (ReadText data)
  show ?thesis
  proof (cases "unmarshal_register data")
    case (Inr reg)
    let ?ok = "reg_Type reg = ControlRegister \<and> is_ok (CheckVersion (reg_ProtocolVersion reg)) \<and> reg_Name reg \<noteq> [] \<and>
      Valid (sv_auth s) (reg_Token reg)"
    obtain x s1 where x: "db_call env (\<lambda>d. Register d (reg_Name reg)) s = (x, s1)" by fastforce
    have r: "sv_registry s1 = sv_registry s" using db_call_simps(2) [of env "\<lambda>d. Register d (reg_Name reg)" s] x by simp
    show ?thesis
    proof (cases ?ok)
      case False
      then have "handshake env c frame s = (None, closeNormal c
          (if reg_Type reg \<noteq> ControlRegister then FirstFrameNotRegister
           else if \<not> is_ok (CheckVersion (reg_ProtocolVersion reg)) then UnsupportedVersion
           else if reg_Name reg = [] then EmptyName else InvalidToken) s)"
        by (auto simp: handshake_def ReadText Inr)
      then show ?thesis by (rule closed)
    next
      case True
      show ?thesis
      proof (cases x)
        case (Inl e)
        with True x show ?thesis using failed [of "reg_Name reg" PersistenceFailed]
          by (simp add: handshake_def ReadText Inr)
      next
        case (Inr u)
        obtain y r' where y: "Bind (reg_Name reg) (reg_Token reg) c (sv_registry s1) = (y, r')" by fastforce
        show ?thesis
        proof (cases y)
          case (Inl e)
          with True x Inr y show ?thesis using failed [of "reg_Name reg" NameClaimed] \<open>unmarshal_register data = Inr reg\<close>
            by (cases e) (simp add: handshake_def ReadText)
        next
          case (Inr displaced)
          with True x \<open>x = Inr u\<close> y r \<open>unmarshal_register data = Inr reg\<close> ReadText show ?thesis
            by (intro bound [of data reg displaced r'])
              (auto simp: handshake_def bound_handshake_def CheckVersion_def Let_def split: if_splits)
        qed
      qed
    qed
  qed (use closed in \<open>simp add: handshake_def ReadText\<close>)
qed

section \<open>Handler-level steps\<close>

text \<open>Each step runs one handler to its end: the handshake of a fresh connection, one turn of
  the read loop of an established one, or the cleanup after its loop has ended.\<close>

inductive broker_step :: "benv \<Rightarrow> server \<Rightarrow> server \<Rightarrow> bool" for env where
  bs_accept: "sv_conns s c = newPeerConn \<Longrightarrow> broker_step env s (snd (handshake env c (limited r) s))"
| bs_turn: "pc_name (sv_conns s c) \<noteq> [] \<Longrightarrow> broker_step env s (snd (serve_turn env c ev s))"
| bs_end: "pc_name (sv_conns s c) \<noteq> [] \<Longrightarrow> broker_step env s (disconnect c s)"

definition settled :: "peerConn \<Rightarrow> bool" where
  "settled p \<longleftrightarrow> pc_name p \<noteq> [] \<or> pc_closed p"

lemma micro_settled: "micro env (s, g) (s', g') \<Longrightarrow> settled (sv_conns s c) \<Longrightarrow> settled (sv_conns s' c)"
  by (cases rule: micro.cases, assumption) (auto simp: settled_def)

lemma micros_settled: "(micro env)\<^sup>*\<^sup>* (s, g) (s', g') \<Longrightarrow> settled (sv_conns s c) \<Longrightarrow> settled (sv_conns s' c)"
proof (induction "(s', g')" arbitrary: s' g' rule: rtranclp_induct)
  case (step y)
  then show ?case by (cases y) (auto dest: micro_settled)
qed simp

lemma bound_handshake_settled:
  assumes "micro_inv env (s2, g)" "g c = Some n" "n \<noteq> []"
  shows "settled (sv_conns (snd (bound_handshake env c n displaced s2)) c)"
proof -
  let ?s3 = "case displaced of Some old \<Rightarrow> CloseTakenOver old s2 | None \<Rightarrow> s2"
  let ?s4 = "snd (db_call env (\<lambda>d. RequeueUnacked d n) ?s3)"
  obtain ok s5 where w: "writeJSON env c (Some (peers_reply ?s4)) ?s4 = (ok, s5)" by fastforce
  show ?thesis
  proof (cases ok)
    case True
    let ?s6 = "upd_conn c (\<lambda>p. p\<lparr>pc_name := n\<rparr>) s5"
    have "(micro env)\<^sup>*\<^sup>* (s2, g) (?s4, g)"
      by (cases displaced) (auto intro: micro_one m_requeue rtranclp.rtrancl_into_rtrancl m_takeover)
    moreover have "micro env (?s4, g) (snd (writeJSON env c (Some (peers_reply ?s4)) ?s4), g)"
      unfolding peers_reply_def by (rule m_peers) simp
    ultimately have "(micro env)\<^sup>*\<^sup>* (s2, g) (s5, g)" using w by (simp add: rtranclp.rtrancl_into_rtrancl)
    then have "(micro env)\<^sup>*\<^sup>* (s2, g) (?s6, g)"
      using m_name [of g c n env s5] assms(2,3) by (simp add: rtranclp.rtrancl_into_rtrancl)
    from flushPending_micro [OF micros_inv [OF this assms(1)], of c] assms(2)
    have "(micro env)\<^sup>*\<^sup>* (?s6, g) (flushPending env c ?s6, g)" by simp
    from micros_settled [OF this, of c] assms(3) True show ?thesis
      by (simp add: bound_handshake_def w Let_def settled_def)
  qed (simp add: bound_handshake_def w Let_def settled_def)
qed

lemma handshake_micro:
  assumes "micro_inv env (s, g)" "g c = None"
  shows "\<exists>g'. (micro env)\<^sup>*\<^sup>* (s, g) (snd (handshake env c frame s), g') \<and> (\<forall>c'. c' \<noteq> c \<longrightarrow> g' c' = g c') \<and>
    settled (sv_conns (snd (handshake env c frame s)) c)"
proof (cases rule: handshake_cases [of env c frame s])
  case (closed r)
  then show ?thesis by (intro exI [of _ g]) (auto simp: settled_def intro: micro_one m_close)
next
  case (failed n r)
  have "(micro env)\<^sup>*\<^sup>* (s, g) (closeNormal c r (snd (db_call env (\<lambda>d. Register d n) s)), g)"
    by (rule rtranclp.rtrancl_into_rtrancl [OF micro_one [OF m_register] m_close])
  with failed show ?thesis by (intro exI [of _ g]) (auto simp: settled_def)
next
  case (bound data reg displaced r')
  let ?n = "reg_Name reg" and ?g = "g(c := Some (reg_Name reg))"
  let ?s1 = "snd (db_call env (\<lambda>d. Register d ?n) s)"
  have "?n \<in> peer_name ` set (st_peers (sv_store ?s1))"
    using bound(5,7) by (auto simp: Register_def okToUse_def names_upsert_peer_set split: if_splits)
  then have "micro env (?s1, g) (?s1\<lparr>sv_registry := r'\<rparr>, ?g)"
    using bound(5,6,8) assms(2) by (intro m_bind) simp_all
  then have m2: "(micro env)\<^sup>*\<^sup>* (s, g) (?s1\<lparr>sv_registry := r'\<rparr>, ?g)"
    by (rule rtranclp.rtrancl_into_rtrancl [OF micro_one [OF m_register]])
  note inv2 = micros_inv [OF m2 assms(1)]
  have gn: "?g c = Some ?n" by simp
  have "(micro env)\<^sup>*\<^sup>* (s, g) (snd (handshake env c frame s), ?g)"
    unfolding bound(9) using m2 bound_handshake_micro [OF inv2 gn bound(5)] by (rule rtranclp_trans)
  moreover have "settled (sv_conns (snd (handshake env c frame s)) c)"
    using bound_handshake_settled [OF inv2 gn bound(5), of displaced] bound(9) by simp
  ultimately show ?thesis by (intro exI [of _ ?g]) simp
qed

lemma serve_turn_micro: "micro_inv env (s, g) \<Longrightarrow> (micro env)\<^sup>*\<^sup>* (s, g) (snd (serve_turn env c ev s), g)"
  by (auto simp: serve_turn_def routeFrame_micro split: loop_event.splits ws_read.splits intro: micro_one m_close)

lemma disconnect_micro: "(micro env)\<^sup>*\<^sup>* (s, g) (disconnect c s, g)"
  unfolding disconnect_def Let_def
  by (rule rtranclp.rtrancl_into_rtrancl [OF micro_one [OF m_close] m_remove])

lemma micro_inv_initial: "store_inv st \<Longrightarrow> log_ok (be_digest env) st \<Longrightarrow> micro_inv env (initial tokens st)"
  by (simp add: initial_def micro_inv_def NewServer_def newPeerConn_def NewRegistry_def registry_ok_def)

text \<open>Every run of whole handlers is an interleaved run, with the remembered names known.\<close>

definition handler_sim :: "benv \<Rightarrow> gstate \<Rightarrow> server \<Rightarrow> (nat \<Rightarrow> string option) \<Rightarrow> bool" where
  "handler_sim env x s g \<longleftrightarrow> (micro env)\<^sup>*\<^sup>* x (s, g) \<and> (\<forall>c. g c \<noteq> None \<longrightarrow> settled (sv_conns s c))"

lemma broker_step_sim:
  assumes "broker_step env s s'" "handler_sim env x s g" "micro_inv env x"
  shows "\<exists>g'. handler_sim env x s' g'"
proof -
  have "(micro env)\<^sup>*\<^sup>* x (s, g)" using assms(2) by (simp add: handler_sim_def)
  then have inv: "micro_inv env (s, g)" using assms(3) by (rule micros_inv)
  have keep: "handler_sim env x s' g" if "(micro env)\<^sup>*\<^sup>* (s, g) (s', g)"
    using assms(2) that micros_settled [OF that] by (auto simp: handler_sim_def)
  from assms(1) show ?thesis
  proof cases
    case (bs_accept c r)
    then have "\<not> settled (sv_conns s c)" by (simp add: settled_def newPeerConn_def)
    then have "g c = None" using assms(2) by (auto simp: handler_sim_def)
    from handshake_micro [OF inv this, of "limited r"] obtain g' where g':
      "(micro env)\<^sup>*\<^sup>* (s, g) (s', g')" "\<forall>c'. c' \<noteq> c \<longrightarrow> g' c' = g c'" "settled (sv_conns s' c)"
      using bs_accept by auto
    then have "\<forall>c'. g' c' \<noteq> None \<longrightarrow> settled (sv_conns s' c')"
      using assms(2) micros_settled [OF g'(1)] by (metis handler_sim_def)
    moreover have "(micro env)\<^sup>*\<^sup>* x (s', g')"
      using assms(2) g'(1) unfolding handler_sim_def by (blast intro: rtranclp_trans)
    ultimately show ?thesis unfolding handler_sim_def by blast
  next
    case (bs_turn c ev)
    then show ?thesis using keep serve_turn_micro [OF inv] by blast
  next
    case (bs_end c)
    then show ?thesis using keep disconnect_micro by blast
  qed
qed

lemma broker_steps_sim:
  assumes "(broker_step env)\<^sup>*\<^sup>* (fst (initial tokens st)) s" "store_inv st" "log_ok (be_digest env) st"
  shows "\<exists>g. handler_sim env (initial tokens st) s g"
  using assms(1)
proof (induction rule: rtranclp_induct)
  case base
  show ?case by (intro exI [of _ "\<lambda>_. None"]) (simp add: handler_sim_def initial_def)
next
  case (step y z)
  then show ?case using broker_step_sim micro_inv_initial [OF assms(2,3)] by blast
qed

end
