(* ===== verification/Restarts.thy ===== *)
theory Restarts
  imports Broker
begin

text \<open>
  The broker over more than one life of its process.  A run is a sequence of accesses to shared state, as in
  \<open>micro\<close>, in which at any moment the process may be stopped, closing the store, or die without closing
  it; a new process then opens the database with its own tokens and starts with an empty registry and no
  connections (\<open>brokerServe\<close> in \<open>cmd/peerbus/broker.go\<close>).  What holds of every interleaving of one life holds of all of them,
  because the invariant \<open>micro_inv\<close> only needs a well-formed database to start from.
\<close>

inductive broker_run :: "digest \<Rightarrow> gstate \<Rightarrow> gstate \<Rightarrow> bool" for b3 where
  br_step: "micro env x y \<Longrightarrow> be_digest env = b3 \<Longrightarrow> broker_run b3 x y"
| br_stop: "Open e (Some (snd (Close e' (sv_store s)))) = Inr st \<Longrightarrow> broker_run b3 (s, g) (initial tokens st)"
| br_crash: "Open e (Some (sv_store s)) = Inr st \<Longrightarrow> broker_run b3 (s, g) (initial tokens st)"

inductive_cases broker_runE: "broker_run b3 x y"

lemma micros_run: "(micro env)\<^sup>*\<^sup>* x y \<Longrightarrow> (broker_run (be_digest env))\<^sup>*\<^sup>* x y"
  by (erule rtranclp_mono [THEN predicate2D, rotated]) (blast intro: br_step)

section \<open>The database between two lives\<close>

lemma initial_store [simp]: "sv_store (fst (initial tokens st)) = st"
  by (simp add: initial_def NewServer_def)

lemma reopened: "Open e (Some st) = Inr st' \<Longrightarrow> st' = st\<lparr>st_closed := False\<rparr>"
  by (auto simp: Open_def migrate_def split: if_splits)

lemma Close_audit [simp]: "st_audit (snd (Close e st)) = st_audit st"
  by (simp add: Close_def)

lemma broker_run_store:
  assumes "broker_run b3 x y"
  shows "store_step\<^sup>*\<^sup>* (sv_store (fst x)) (sv_store (fst y))"
  using assms
proof cases
  case (br_step env)
  then show ?thesis using micro_store by (cases x, cases y) simp
next
  case (br_stop e e' s st g tokens)
  have "store_step (sv_store s) (snd (Close e' (sv_store s)))" by (rule step_Close)
  moreover have "store_step (snd (Close e' (sv_store s))) st" using br_stop(3) by (rule step_Open)
  ultimately show ?thesis using br_stop(1,2) by simp
next
  case (br_crash e s st g tokens)
  then show ?thesis by (auto intro: step_Open)
qed

lemma broker_runs_store: "(broker_run b3)\<^sup>*\<^sup>* x y \<Longrightarrow> store_step\<^sup>*\<^sup>* (sv_store (fst x)) (sv_store (fst y))"
  by (induction rule: rtranclp_induct) (blast intro: rtranclp_trans dest: broker_run_store)+

text \<open>A process that dies at any moment and is started again with the given tokens.\<close>

definition reborn :: "string list \<Rightarrow> server \<Rightarrow> server" where
  "reborn tokens s = fst (initial tokens ((sv_store s)\<lparr>st_closed := False\<rparr>))"

lemma reborn_simps [simp]:
  "sv_registry (reborn tokens s) = []" "sv_auth (reborn tokens s) = tokens" "sv_conns (reborn tokens s) c = newPeerConn"
  "\<not> st_closed (sv_store (reborn tokens s))" "st_messages (sv_store (reborn tokens s)) = st_messages (sv_store s)"
  by (simp_all add: reborn_def initial_def NewServer_def NewRegistry_def)

lemma reborn_run: "broker_run b3 (s, g) (reborn tokens s, \<lambda>_. None)"
proof -
  have "Open (no_fault 0) (Some (sv_store s)) = Inr ((sv_store s)\<lparr>st_closed := False\<rparr>)"
    by (simp add: Open_def migrate_def no_fault_def)
  from br_crash [OF this, of b3 g tokens] show ?thesis by (simp add: reborn_def initial_def)
qed

section \<open>Handlers and the store\<close>

text \<open>Whatever a frame makes the broker do, it changes the store by store operations only.\<close>

lemma db_call_store:
  assumes "\<And>d st. store_step st (snd (f d st))"
  shows "store_step\<^sup>*\<^sup>* (sv_store s) (sv_store (snd (db_call env f s)))"
  using assms [of "sv_store s" "be_db env (sv_tick s)"] by (auto simp: db_call_def split: prod.split)

lemma deliverTo_store: "store_step\<^sup>*\<^sup>* (sv_store s) (sv_store (deliverTo env r m s))"
proof -
  have mark: "store_step\<^sup>*\<^sup>* (sv_store s1) (sv_store (auditEvent env k i f t (snd (db_call env (\<lambda>d. MarkDelivered d j) s1))))" for s1 k i f t j
    by (rule rtranclp_trans [OF db_call_store [OF step_MarkDelivered] auditEvent_store])
  show ?thesis
  proof (cases "unmarshal_envelope (msg_Envelope m)")
    case (Inr e)
    obtain c where c: "Get r (sv_registry s) = None \<or> Get r (sv_registry s) = Some c" by (cases "Get r (sv_registry s)") auto
    obtain ok s1 where w: "writeJSON env c (marshal_deliver (deliver_of (msg_ID m) e)) s = (ok, s1)" by fastforce
    then have "sv_store s1 = sv_store s" using writeJSON_simps(3) [of env c _ s] by (metis snd_conv)
    then show ?thesis using Inr c w mark [of s1] by (auto simp: deliverTo_def Let_def split: bool.splits)
  qed (simp add: deliverTo_def split: option.split)
qed

lemma enqueue_deliver_store:
  assumes "db_call env (\<lambda>d. Enqueue d msg) s = (x, s1)"
  shows "store_step\<^sup>*\<^sup>* (sv_store s) (sv_store s1)" "store_step\<^sup>*\<^sup>* (sv_store s) (sv_store (deliverTo env r m (auditEvent env k i f t s1)))"
proof -
  show q: "store_step\<^sup>*\<^sup>* (sv_store s) (sv_store s1)"
    using db_call_store [of "\<lambda>d. Enqueue d msg" s env] step_Enqueue assms by (metis snd_conv)
  show "store_step\<^sup>*\<^sup>* (sv_store s) (sv_store (deliverTo env r m (auditEvent env k i f t s1)))"
    by (rule rtranclp_trans [OF q rtranclp_trans [OF auditEvent_store deliverTo_store]])
qed

lemma broadcast_loop_store: "store_step\<^sup>*\<^sup>* (sv_store s) (sv_store (broadcast_loop env from e raw rs s))"
proof (induction rs arbitrary: s)
  case (Cons r rs)
  let ?msg = "mk_message (row_id (env_ID e) r) from r raw"
  obtain x s1 where q: "db_call env (\<lambda>d. Enqueue d ?msg) s = (x, s1)" by fastforce
  note IH = rtranclp_trans [OF _ Cons.IH]
  show ?case using q IH [OF enqueue_deliver_store(1) [OF q]] IH [OF enqueue_deliver_store(2) [OF q]] Cons.IH
    by (cases x) (simp_all add: Let_def)
qed simp

lemma routeFrame_store: "store_step\<^sup>*\<^sup>* (sv_store s) (sv_store (routeFrame env c data s))"
proof -
  have d: "store_step\<^sup>*\<^sup>* (sv_store s) (sv_store (routeDirect env from e s))" for "from" e
  proof (cases "marshal_envelope e")
    case (Some raw)
    obtain x s1 where q: "db_call env (\<lambda>d. Enqueue d (mk_message (env_ID e) from (env_To e) raw)) s = (x, s1)" by fastforce
    then show ?thesis using Some enqueue_deliver_store [OF q] by (cases x) (simp_all add: routeDirect_def Let_def)
  qed (simp add: routeDirect_def)
  have e: "store_step\<^sup>*\<^sup>* (sv_store s) (sv_store (routeEnvelope env from e s))" for "from" e
    using d broadcast_loop_store by (simp add: routeEnvelope_def routeBroadcast_def Let_def split: option.split)
  have a: "store_step\<^sup>*\<^sup>* (sv_store s) (sv_store (handleAck env ack n s))" for ack n
  proof -
    obtain x s1 where q: "db_call env (\<lambda>d. MarkAcked d (ack_ID ack)) s = (x, s1)" by fastforce
    then have "store_step\<^sup>*\<^sup>* (sv_store s) (sv_store s1)" using db_call_store [of "\<lambda>d. MarkAcked d (ack_ID ack)" s env] step_MarkAcked by (metis snd_conv)
    then show ?thesis using q auditEvent_store [of s1] by (cases x) (auto simp: handleAck_def intro: rtranclp_trans)
  qed
  have p: "sv_store (handlePeers env c s) = sv_store s" by (simp add: handlePeers_def)
  show ?thesis using e a p by (simp add: routeFrame_def Let_def split: sum.split)
qed

section \<open>The invariant of all lives\<close>

definition run_env :: "digest \<Rightarrow> benv" where
  "run_env b3 = \<lparr>be_digest = b3, be_db = (\<lambda>_. no_fault 0), be_write = (\<lambda>_. Written)\<rparr>"

text \<open>The invariant depends on the digest only, not on what fails.\<close>

lemma micro_inv_digest: "be_digest env = b3 \<Longrightarrow> micro_inv (run_env b3) = micro_inv env"
  by (simp add: micro_inv_def run_env_def)

lemma broker_run_inv:
  assumes "broker_run b3 x y" "micro_inv (run_env b3) x"
  shows "micro_inv (run_env b3) y"
  using assms(1)
proof cases
  case (br_step env)
  then show ?thesis using micro_inv_step assms(2) by (simp add: micro_inv_digest)
next
  case (br_stop e e' s st g tokens)
  from assms(2) have "store_inv (sv_store s)" "log_ok b3 (sv_store s)" by (simp_all add: br_stop micro_inv_def run_env_def)
  then have "store_inv st" "log_ok b3 st"
    using store_steps_inv [OF broker_run_store [OF assms(1)]] br_stop reopened [OF br_stop(3)] by simp_all
  then show ?thesis unfolding br_stop(2) by (intro micro_inv_initial) (simp_all add: run_env_def)
next
  case (br_crash e s st g tokens)
  from assms(2) have "store_inv (sv_store s)" "log_ok b3 (sv_store s)" by (simp_all add: br_crash micro_inv_def run_env_def)
  then have "store_inv st" "log_ok b3 st"
    using store_steps_inv [OF broker_run_store [OF assms(1)]] br_crash reopened [OF br_crash(3)] by simp_all
  then show ?thesis unfolding br_crash(2) by (intro micro_inv_initial) (simp_all add: run_env_def)
qed

lemma reachable_micro_inv:
  assumes "(broker_run b3)\<^sup>*\<^sup>* (initial tokens st) (s, g)" "store_inv st" "log_ok b3 st"
  shows "micro_inv (run_env b3) (s, g)"
  using assms(1)
proof (induction rule: rtranclp_induct)
  case base
  show ?case using assms(2,3) by (intro micro_inv_initial) (simp_all add: run_env_def)
qed (rule broker_run_inv)

text \<open>In a reachable state a connection is bound under one name, which is stored.\<close>

lemma reachable_registry:
  assumes "(broker_run b3)\<^sup>*\<^sup>* (initial tokens st) (s, g)" "store_inv st" "log_ok b3 st"
  shows "registry_ok (sv_registry s)" "r \<in> set (List (sv_registry s)) \<Longrightarrow> r \<noteq> [] \<and> r \<in> peer_name ` set (st_peers (sv_store s))"
    "Get r (sv_registry s) = Some c \<Longrightarrow> Get r' (sv_registry s) = Some c \<Longrightarrow> r' = r"
    "Get r (sv_registry s) = Some c \<Longrightarrow> r \<in> set (List (sv_registry s))"
proof -
  have inv: "micro_inv (run_env b3) (s, g)" by (rule reachable_micro_inv [OF assms])
  then show ok: "registry_ok (sv_registry s)" by (simp add: micro_inv_def)
  have b: "binding_ok s g n x" if "map_of (sv_registry s) n = Some x" for n x using inv that by (simp add: micro_inv_def)
  show "r \<noteq> [] \<and> r \<in> peer_name ` set (st_peers (sv_store s))" if r: "r \<in> set (List (sv_registry s))"
  proof -
    obtain x where "(r, x) \<in> set (sv_registry s)" using r by (auto simp: List_def)
    then have "map_of (sv_registry s) r = Some x" using ok by (simp add: registry_ok_def)
    from b [OF this] show ?thesis by (simp add: binding_ok_def)
  qed
  show "r' = r" if q: "Get r (sv_registry s) = Some c" "Get r' (sv_registry s) = Some c"
  proof -
    obtain x x' where x: "map_of (sv_registry s) r = Some x" "map_of (sv_registry s) r' = Some x'" "bind_conn x = bind_conn x'"
      using q by (auto simp: Get_def)
    from b [OF x(1)] b [OF x(2)] x(3) show ?thesis by (simp add: binding_ok_def)
  qed
  show "r \<in> set (List (sv_registry s))" if "Get r (sv_registry s) = Some c"
    using that by (force simp: Get_def List_def dest: map_of_SomeD)
qed

text \<open>Rows only grow, whatever ends the process.\<close>

definition broker_row :: "gstate \<Rightarrow> string \<Rightarrow> message option" where
  "broker_row x i = message_row (sv_store (fst x)) i"

interpretation brow: growing_table "broker_run b3" broker_row row_le for b3
proof unfold_locales
  show "row_le v v" for v by (rule mrow.le_refl)
  show "row_le u v \<Longrightarrow> row_le v w \<Longrightarrow> row_le u w" for u v w by (rule mrow.le_trans)
  fix x y k v
  assume "broker_run b3 x y" "broker_row x k = Some v"
  then show "\<exists>v'. broker_row y k = Some v' \<and> row_le v v'"
    using mrow.steps_row [OF broker_run_store] by (auto simp: broker_row_def)
qed

end
