(* ===== verification/Broker_Safety.thy ===== *)
theory Broker_Safety
  imports Restarts
begin

text \<open>
  Properties of the broker.  The safety properties hold for every interleaving of the
  connections' goroutines (\<open>micro\<close>), over restarts and crashes of the process (\<open>broker_run\<close>), and so for every
  run of whole handlers (\<open>broker_step\<close>); the
  functional ones describe what a handler does when the database and the socket work.
\<close>

section \<open>Working environments\<close>

definition db_good :: "benv \<Rightarrow> bool" where
  "db_good env \<longleftrightarrow> (\<forall>t st. \<not> db_fault (be_db env t) st)"

definition env_good :: "benv \<Rightarrow> bool" where
  "env_good env \<longleftrightarrow> db_good env \<and> (\<forall>t. be_write env t = Written)"

definition deliver_bytes :: "message \<Rightarrow> bytes option" where
  "deliver_bytes m = (case unmarshal_envelope (msg_Envelope m) of
      Inl _ \<Rightarrow> None | Inr e \<Rightarrow> marshal_deliver (deliver_of (msg_ID m) e))"

lemma good_write:
  assumes "env_good env" "\<not> pc_closed (sv_conns s c)"
  shows "writeJSON env c (Some fr) s =
    (True, upd_conn c (\<lambda>p. p\<lparr>pc_out := pc_out p @ [fr]\<rparr>) (s\<lparr>sv_tick := Suc (sv_tick s)\<rparr>))"
  using assms by (simp add: writeJSON_def env_good_def db_good_def Let_def)

lemma good_mark:
  assumes "env_good env" "\<not> st_closed (sv_store s)"
  shows "st_messages (sv_store (snd (db_call env (\<lambda>d. MarkDelivered d i) s))) = map (set_delivered i) (st_messages (sv_store s))"
    "st_closed (sv_store (snd (db_call env (\<lambda>d. MarkDelivered d i) s))) = st_closed (sv_store s)"
    "st_peers (sv_store (snd (db_call env (\<lambda>d. MarkDelivered d i) s))) = st_peers (sv_store s)"
  using assms by (simp_all add: store_simps env_good_def db_good_def)

lemma flush_loop_good:
  assumes "env_good env" "\<not> pc_closed (sv_conns s c)" "\<not> st_closed (sv_store s)"
    "\<forall>m\<in>set ms. deliver_bytes m \<noteq> None"
  shows "pc_out (sv_conns (flush_loop env c ms s) c) = pc_out (sv_conns s c) @ map (the \<circ> deliver_bytes) ms \<and>
    st_messages (sv_store (flush_loop env c ms s)) =
      fold (\<lambda>m. map (set_delivered (msg_ID m))) ms (st_messages (sv_store s)) \<and>
    pc_name (sv_conns (flush_loop env c ms s) c) = pc_name (sv_conns s c)"
  using assms(2-4)
proof (induction ms arbitrary: s)
  case (Cons m ms)
  then obtain e fr where e: "unmarshal_envelope (msg_Envelope m) = Inr e"
    "marshal_deliver (deliver_of (msg_ID m) e) = Some fr" "deliver_bytes m = Some fr"
    by (auto simp: deliver_bytes_def split: sum.splits)
  let ?s1 = "upd_conn c (\<lambda>p. p\<lparr>pc_out := pc_out p @ [fr]\<rparr>) (s\<lparr>sv_tick := Suc (sv_tick s)\<rparr>)"
  let ?s2 = "snd (db_call env (\<lambda>d. MarkDelivered d (msg_ID m)) ?s1)"
  let ?s3 = "auditEvent env ''deliver'' (msg_ID m) (msg_From m) (pc_name (sv_conns ?s2 c)) ?s2"
  have "flush_loop env c (m # ms) s = flush_loop env c ms ?s3"
    by (simp add: e good_write [OF assms(1) Cons.prems(1)] Let_def)
  moreover have "\<not> pc_closed (sv_conns ?s3 c)" "\<not> st_closed (sv_store ?s3)"
    using Cons.prems good_mark(2) [OF assms(1), of ?s1] by simp_all
  ultimately show ?case
    using Cons.IH [of ?s3] Cons.prems good_mark(1) [OF assms(1), of ?s1] e(3) by simp
qed simp

lemma good_register:
  assumes "env_good env" "\<not> st_closed (sv_store s)" "n \<noteq> []"
  shows "db_call env (\<lambda>d. Register d n) s = (Inr (), s\<lparr>sv_store := (sv_store s)\<lparr>st_peers :=
     upsert_peer n (db_now (be_db env (sv_tick s))) (st_peers (sv_store s))\<rparr>, sv_tick := Suc (sv_tick s)\<rparr>)"
  using assms by (simp add: db_call_def Register_def okToUse_def env_good_def db_good_def)

lemma good_requeue:
  assumes "env_good env" "\<not> st_closed (sv_store s)" "n \<in> peer_name ` set (st_peers (sv_store s))"
  shows "snd (db_call env (\<lambda>d. RequeueUnacked d n) s) = s\<lparr>sv_store := (sv_store s)\<lparr>st_messages :=
     map (set_requeued n) (st_messages (sv_store s))\<rparr>, sv_tick := Suc (sv_tick s)\<rparr>"
  using assms
  by (simp add: db_call_def RequeueUnacked_def okToUse_def peerExists_def env_good_def db_good_def Let_def set_requeued_def [abs_def])

lemma good_pending:
  assumes "env_good env" "\<not> st_closed (sv_store s)" "n \<in> peer_name ` set (st_peers (sv_store s))"
  shows "db_call env (\<lambda>d. PendingFor d n) s =
    (Inr (select_pending n (st_messages (sv_store s))), s\<lparr>sv_tick := Suc (sv_tick s)\<rparr>)"
  using assms by (simp add: db_call_def PendingFor_def okToUse_def peerExists_def env_good_def db_good_def)

lemma handshake_bound:
  assumes "unmarshal_register data = Inr reg" "reg_Type reg = ControlRegister"
    "reg_ProtocolVersion reg = ProtocolVersion" "reg_Name reg \<noteq> []" "Valid (sv_auth s) (reg_Token reg)"
    "db_call env (\<lambda>d. Register d (reg_Name reg)) s = (Inr u, s1)"
    "Bind (reg_Name reg) (reg_Token reg) c (sv_registry s1) = (Inr displaced, r')"
  shows "handshake env c (ReadText data) s = bound_handshake env c (reg_Name reg) displaced (s1\<lparr>sv_registry := r'\<rparr>)"
  using assms by (simp add: handshake_def bound_handshake_def CheckVersion_def Let_def)

lemma flushPending_good:
  assumes "env_good env" "\<not> pc_closed (sv_conns s c)" "\<not> st_closed (sv_store s)"
    "pc_name (sv_conns s c) \<in> peer_name ` set (st_peers (sv_store s))"
    "\<forall>m\<in>set (select_pending (pc_name (sv_conns s c)) (st_messages (sv_store s))). deliver_bytes m \<noteq> None"
  shows "pc_out (sv_conns (flushPending env c s) c) = pc_out (sv_conns s c) @
      map (the \<circ> deliver_bytes) (select_pending (pc_name (sv_conns s c)) (st_messages (sv_store s)))"
    "st_messages (sv_store (flushPending env c s)) =
      fold (\<lambda>m. map (set_delivered (msg_ID m))) (select_pending (pc_name (sv_conns s c)) (st_messages (sv_store s)))
        (st_messages (sv_store s))"
    "pc_name (sv_conns (flushPending env c s) c) = pc_name (sv_conns s c)"
  using flush_loop_good [OF assms(1), of "s\<lparr>sv_tick := Suc (sv_tick s)\<rparr>" c] assms(2-5)
  by (simp_all add: flushPending_def good_pending [OF assms(1,3,4)])

lemma flush_loop_registry [simp]: "sv_registry (flush_loop env c ms s) = sv_registry s"
proof (induction ms arbitrary: s)
  case (Cons m ms)
  have "sv_registry s1 = sv_registry s" if "writeJSON env c b s = (ok, s1)" for b ok s1
    using writeJSON_simps(2) [of env c b s] that by simp
  with Cons.IH show ?case by (auto simp: Let_def split: sum.splits prod.splits bool.splits)
qed simp

lemma flushPending_registry [simp]: "sv_registry (flushPending env c s) = sv_registry s"
proof -
  have "sv_registry s1 = sv_registry s" if "db_call env (\<lambda>d. PendingFor d n) s = (x, s1)" for n x s1
    using db_call_simps(2) [of env "\<lambda>d. PendingFor d n" s] that by simp
  then show ?thesis by (auto simp: flushPending_def split: prod.splits sum.splits)
qed

lemma bound_handshake_good:
  assumes "env_good env" "\<not> pc_closed (sv_conns s c)" "displaced \<noteq> Some c" "\<not> st_closed (sv_store s)"
    "n \<in> peer_name ` set (st_peers (sv_store s))"
    "pend = select_pending n (map (set_requeued n) (st_messages (sv_store s)))"
    "\<forall>m\<in>set pend. deliver_bytes m \<noteq> None"
  shows "fst (bound_handshake env c n displaced s) = Some n"
    "pc_out (sv_conns (snd (bound_handshake env c n displaced s)) c) =
       pc_out (sv_conns s c) @ peers_reply s # map (the \<circ> deliver_bytes) pend"
    "st_messages (sv_store (snd (bound_handshake env c n displaced s))) =
       fold (\<lambda>m. map (set_delivered (msg_ID m))) pend (map (set_requeued n) (st_messages (sv_store s)))"
    "sv_registry (snd (bound_handshake env c n displaced s)) = sv_registry s"
    "pc_name (sv_conns (snd (bound_handshake env c n displaced s)) c) = n"
proof -
  define s3 where "s3 = (case displaced of Some old \<Rightarrow> CloseTakenOver old s | None \<Rightarrow> s)"
  have s3: "\<not> pc_closed (sv_conns s3 c)" "sv_store s3 = sv_store s" "sv_registry s3 = sv_registry s"
    "pc_out (sv_conns s3 c) = pc_out (sv_conns s c)"
    using assms(2,3) by (auto simp: s3_def split: option.splits)
  define s4 where "s4 = snd (db_call env (\<lambda>d. RequeueUnacked d n) s3)"
  have s4: "s4 = s3\<lparr>sv_store := (sv_store s)\<lparr>st_messages := map (set_requeued n) (st_messages (sv_store s))\<rparr>,
      sv_tick := Suc (sv_tick s3)\<rparr>"
    using good_requeue [OF assms(1), of s3 n] assms(4,5) s3(2) by (simp add: s4_def)
  let ?fr = "peers_reply s4"
  have fr: "?fr = peers_reply s" using s3(3) by (simp add: peers_reply_def s4)
  let ?s5 = "upd_conn c (\<lambda>p. p\<lparr>pc_out := pc_out p @ [?fr]\<rparr>) (s4\<lparr>sv_tick := Suc (sv_tick s4)\<rparr>)"
  let ?s6 = "upd_conn c (\<lambda>p. p\<lparr>pc_name := n\<rparr>) ?s5"
  have w: "writeJSON env c (Some ?fr) s4 = (True, ?s5)" using assms(1) s3(1) by (intro good_write) (simp_all add: s4)
  have b: "bound_handshake env c n displaced s = (Some n, flushPending env c ?s6)"
    using w by (simp add: bound_handshake_def Let_def s4_def s3_def)
  have p6: "select_pending (pc_name (sv_conns ?s6 c)) (st_messages (sv_store ?s6)) = pend" by (simp add: s4 assms(6))
  have "\<not> pc_closed (sv_conns ?s6 c)" "\<not> st_closed (sv_store ?s6)"
    "pc_name (sv_conns ?s6 c) \<in> peer_name ` set (st_peers (sv_store ?s6))"
    using s3 assms(4,5) by (simp_all add: s4)
  note f = flushPending_good [OF assms(1) this, unfolded p6, OF assms(7)]
  show "fst (bound_handshake env c n displaced s) = Some n"
    "sv_registry (snd (bound_handshake env c n displaced s)) = sv_registry s" using s3(3) by (simp_all add: b s4)
  show "pc_out (sv_conns (snd (bound_handshake env c n displaced s)) c) =
       pc_out (sv_conns s c) @ peers_reply s # map (the \<circ> deliver_bytes) pend"
    using f(1) s3(4) fr by (simp add: b s4)
  show "st_messages (sv_store (snd (bound_handshake env c n displaced s))) =
       fold (\<lambda>m. map (set_delivered (msg_ID m))) pend (map (set_requeued n) (st_messages (sv_store s)))"
    using f(2) by (simp add: b s4)
  show "pc_name (sv_conns (snd (bound_handshake env c n displaced s)) c) = n"
    using f(3) by (simp add: b)
qed

lemma fold_delivered:
  "fold (\<lambda>m. map (set_delivered (msg_ID m))) pend ms = map (\<lambda>r. fold (\<lambda>m. set_delivered (msg_ID m)) pend r) ms"
  by (induction pend arbitrary: ms) simp_all

lemma fold_delivered_row:
  "msg_Delivered (fold (\<lambda>m. set_delivered (msg_ID m)) pend r) \<longleftrightarrow> msg_Delivered r \<or> msg_ID r \<in> msg_ID ` set pend"
  "msg_To (fold (\<lambda>m. set_delivered (msg_ID m)) pend r) = msg_To r"
  "msg_ID (fold (\<lambda>m. set_delivered (msg_ID m)) pend r) = msg_ID r"
  by (induction pend arbitrary: r) (auto simp: set_delivered_def)

lemma deliver_bytes_requeued [simp]: "deliver_bytes (set_requeued n m) = deliver_bytes m"
  by (simp add: deliver_bytes_def split: sum.splits)

lemma requeued_pending:
  "msg_To m = n \<Longrightarrow> msg_Delivered (set_requeued n m) \<longleftrightarrow> msg_Delivered m \<and> msg_Acked m"
  by (auto simp: set_requeued_def)

lemma requeued_fifo:
  assumes "store_inv st" "length (st_messages st) \<le> 2 ^ 63"
    "pend = select_pending n (map (set_requeued n) (st_messages st))"
  shows "map msg_ID (filter (\<lambda>m. msg_From m = sndr) pend) =
    map msg_ID (filter (\<lambda>m. msg_From m = sndr \<and> msg_To m = n \<and> \<not> (msg_Delivered m \<and> msg_Acked m)) (st_messages st))"
proof -
  let ?st = "st\<lparr>st_messages := map (set_requeued n) (st_messages st)\<rparr>"
  have "store_inv ?st" using assms(1) by (rule store_inv_messages) simp
  from select_pending_fifo [OF this, of sndr n] assms(2)
  have "filter (\<lambda>m. msg_From m = sndr) pend =
      filter (\<lambda>m. msg_To m = n \<and> \<not> msg_Delivered m) (filter (\<lambda>m. msg_From m = sndr) (map (set_requeued n) (st_messages st)))"
    by (simp add: assms(3) from_sender_def)
  also have "map msg_ID \<dots> = map msg_ID (filter (\<lambda>m. msg_From m = sndr \<and> msg_To m = n \<and> \<not> (msg_Delivered m \<and> msg_Acked m)) (st_messages st))"
    by (simp add: filter_map comp_def) (rule arg_cong [where f = "map msg_ID"], rule filter_cong, auto simp: requeued_pending)
  finally show ?thesis .
qed

section \<open>A small running broker\<close>

definition demo_benv :: benv where
  "demo_benv = \<lparr>be_digest = demo_digest, be_db = (\<lambda>t. no_fault (int t)), be_write = (\<lambda>_. Written)\<rparr>"

lemma demo_benv_good: "env_good demo_benv"
  by (simp add: env_good_def db_good_def demo_benv_def no_fault_def)

definition demo_register :: register_frame where
  "demo_register = \<lparr>reg_ProtocolVersion = ProtocolVersion, reg_Type = ControlRegister, reg_Token = ''tok'', reg_Name = ''bob''\<rparr>"

lemma demo_register_parsed: "unmarshal_register (marshal_register demo_register) = Inr demo_register"
  by (rule unmarshal_register_print) (simp add: demo_register_def ProtocolVersion_def valid_utf8_Cons_ascii)

definition demo_server :: server where
  "demo_server = fst (initial [''tok''] demo_store)"

lemma demo_store_ok: "store_inv demo_store" "log_ok b3 demo_store" "\<not> st_closed demo_store"
  "st_messages demo_store = [(demo_msg ''m1'')\<lparr>msg_Seq := 0, msg_TS := 2\<rparr>]"
proof -
  have "st_audit demo_store = []" by code_simp
  then show "log_ok b3 demo_store" by simp
qed (use store_steps_inv [OF demo_store_reached(1)] in simp, code_simp, code_simp)

lemma demo_deliverable: "deliver_bytes ((demo_msg ''m1'')\<lparr>msg_Seq := 0, msg_TS := 2\<rparr>) \<noteq> None"
  by code_simp

definition demo_row :: message where
  "demo_row = (demo_msg ''m1'')\<lparr>msg_Seq := 0, msg_TS := 2\<rparr>"

definition demo_after :: server where
  "demo_after = snd (handshake demo_benv 0 (ReadText (marshal_register demo_register)) demo_server)"

lemma demo_server_simps [simp]: "sv_conns demo_server c = newPeerConn" "sv_store demo_server = demo_store"
    "sv_registry demo_server = []" "sv_auth demo_server = [''tok'']"
  by (simp_all add: demo_server_def initial_def NewServer_def NewRegistry_def)

lemma demo_after_bound:
  "demo_after = snd (bound_handshake demo_benv 0 ''bob'' None
     ((snd (db_call demo_benv (\<lambda>d. Register d ''bob'') demo_server))\<lparr>sv_registry := [(''bob'', \<lparr>bind_conn = 0, bind_token = ''tok''\<rparr>)]\<rparr>))"
proof -
  have "Bind ''bob'' ''tok'' 0 [] = (Inr None, [(''bob'', \<lparr>bind_conn = 0, bind_token = ''tok''\<rparr>)])"
    by (simp add: Bind_def)
  then show ?thesis
    using handshake_bound [of "marshal_register demo_register" demo_register demo_server demo_benv "()" _ 0 None]
      good_register [OF demo_benv_good, of demo_server "''bob''"] demo_register_parsed demo_store_ok(3)
    by (simp add: demo_after_def demo_register_def Valid_iff)
qed

lemma demo_after_facts:
  "pc_out (sv_conns demo_after 0) = peers_reply demo_after # [the (deliver_bytes demo_row)]"
  "sv_registry demo_after = [(''bob'', \<lparr>bind_conn = 0, bind_token = ''tok''\<rparr>)]"
  "pc_name (sv_conns demo_after 0) = ''bob''"
proof -
  let ?s1 = "snd (db_call demo_benv (\<lambda>d. Register d ''bob'') demo_server)"
  let ?s2 = "?s1\<lparr>sv_registry := [(''bob'', \<lparr>bind_conn = 0, bind_token = ''tok''\<rparr>)]\<rparr>"
  have s1: "?s1 = demo_server\<lparr>sv_store := demo_store\<lparr>st_peers :=
     upsert_peer ''bob'' (db_now (be_db demo_benv (sv_tick demo_server))) (st_peers demo_store)\<rparr>, sv_tick := Suc (sv_tick demo_server)\<rparr>"
    using good_register [OF demo_benv_good, of demo_server "''bob''"] demo_store_ok(3) by simp
  have p: "select_pending ''bob'' (map (set_requeued ''bob'') [demo_row]) = [demo_row]" by code_simp
  have "\<not> pc_closed (sv_conns ?s2 0)" "\<not> st_closed (sv_store ?s2)"
    "''bob'' \<in> peer_name ` set (st_peers (sv_store ?s2))" "st_messages (sv_store ?s2) = [demo_row]"
    using demo_store_ok(3,4) by (simp_all add: s1 newPeerConn_def names_upsert_peer_set demo_row_def)
  with bound_handshake_good [OF demo_benv_good, of ?s2 0 None "''bob''" "[demo_row]"] p demo_deliverable
  have "pc_out (sv_conns demo_after 0) = pc_out (sv_conns ?s2 0) @ peers_reply ?s2 # [the (deliver_bytes demo_row)]"
    "sv_registry demo_after = sv_registry ?s2" "pc_name (sv_conns demo_after 0) = ''bob''"
    by (simp_all add: demo_after_bound demo_row_def)
  then show "pc_out (sv_conns demo_after 0) = peers_reply demo_after # [the (deliver_bytes demo_row)]"
    "sv_registry demo_after = [(''bob'', \<lparr>bind_conn = 0, bind_token = ''tok''\<rparr>)]"
    "pc_name (sv_conns demo_after 0) = ''bob''"
    by (simp_all add: newPeerConn_def peers_reply_def s1)
qed

lemma demo_after_reached:
  "\<exists>g. (micro demo_benv)\<^sup>*\<^sup>* (initial [''tok''] demo_store) (demo_after, g)"
  using handshake_micro [OF micro_inv_initial [OF demo_store_ok(1,2), of demo_benv "[''tok'']", unfolded initial_def], of 0]
  unfolding demo_after_def demo_server_def initial_def by auto

lemma demo_after_run: "\<exists>g. (broker_run demo_digest)\<^sup>*\<^sup>* (initial [''tok''] demo_store) (demo_after, g)"
proof -
  have "be_digest demo_benv = demo_digest" by (simp add: demo_benv_def)
  then show ?thesis using demo_after_reached micros_run [of demo_benv] by metis
qed

section \<open>Safety in every interleaving\<close>

text \<open>C7: Whole handlers are interleavings: every state reached by running handshakes, turns of the
  read loops and cleanups one after the other, in any order and with any faults, is reached
  by a sequence of micro steps, so what holds of every interleaving holds of them.\<close>

theorem handlers_refine_interleaving:
  assumes "(broker_step env)\<^sup>*\<^sup>* (fst (initial tokens st)) s" "store_inv st" "log_ok (be_digest env) st"
  shows "\<exists>g. (micro env)\<^sup>*\<^sup>* (initial tokens st) (s, g) \<and>
    (\<forall>c. pc_name (sv_conns s c) \<noteq> [] \<longrightarrow> g c = Some (pc_name (sv_conns s c)))"
proof -
  obtain g where g: "(micro env)\<^sup>*\<^sup>* (initial tokens st) (s, g)"
    using broker_steps_sim [OF assms] by (auto simp: handler_sim_def)
  from micros_inv [OF this micro_inv_initial [OF assms(2,3)]] have
    "\<forall>c. pc_name (sv_conns s c) \<noteq> [] \<longrightarrow> g c = Some (pc_name (sv_conns s c))" by (simp add: micro_inv_def)
  with g show ?thesis by blast
qed

theorem handlers_refine_interleaving_witness:
  "\<exists>g. (micro demo_benv)\<^sup>*\<^sup>* (initial [''tok''] demo_store) (demo_after, g) \<and> g 0 = Some ''bob''"
proof -
  have "length (marshal_register demo_register) \<le> 200" by code_simp
  then have "limited (ReadText (marshal_register demo_register)) = ReadText (marshal_register demo_register)"
    by (simp add: limited_def MaxFrameBytes_def)
  then have "broker_step demo_benv demo_server demo_after"
    using bs_accept [of demo_server 0 demo_benv "ReadText (marshal_register demo_register)"] by (simp add: demo_after_def)
  then have "(broker_step demo_benv)\<^sup>*\<^sup>* (fst (initial [''tok''] demo_store)) demo_after" by (simp add: demo_server_def)
  from handlers_refine_interleaving [OF this demo_store_ok(1,2)] demo_after_facts(3) show ?thesis by force
qed





text \<open>C19: The broker's audit log verifies at every moment of every interleaving, through restarts and crashes of the process (up to
  \<open>2^63\<close> rows).\<close>

theorem audit_always_verifies:
  assumes "(broker_run b3)\<^sup>*\<^sup>* (initial tokens st) (s, g)" "store_inv st" "log_ok b3 st"
    "length (st_audit (sv_store s)) \<le> 2 ^ 63" "is_ok (fst (AuditRows e (sv_store s)))"
  shows "Verify_audit b3 e (sv_store s) = Inr None"
  using reachable_micro_inv [OF assms(1-3)] assms(4,5) by (simp add: micro_inv_def run_env_def Verify_audit_chained)

theorem audit_always_verifies_witness:
  "Verify_audit demo_digest (no_fault 9) (sv_store (auditEvent demo_benv ''send'' ''m1'' ''alice'' ''bob'' demo_server)) = Inr None"
proof -
  let ?s = "auditEvent demo_benv ''send'' ''m1'' ''alice'' ''bob'' demo_server"
  have "(micro demo_benv)\<^sup>*\<^sup>* (initial [''tok''] demo_store) (?s, \<lambda>_. None)"
    unfolding demo_server_def initial_def fst_conv by (rule micro_one [OF m_audit])
  then have "(broker_run demo_digest)\<^sup>*\<^sup>* (initial [''tok''] demo_store) (?s, \<lambda>_. None)"
    using micros_run [of demo_benv] by (metis benv.select_convs(1) demo_benv_def)
  moreover have "length (st_audit (sv_store ?s)) = 1" by code_simp
  then have "length (st_audit (sv_store ?s)) \<le> 2 ^ 63" by simp
  moreover have "is_ok (fst (AuditRows (no_fault 9) (sv_store ?s)))" by code_simp
  ultimately show ?thesis using audit_always_verifies [OF _ demo_store_ok(1,2)] by blast
qed

text \<open>C18: Nothing the broker has accepted is lost or altered: once a row is in the store, every later
  state of every interleaving, of this process or of one started after it, still has it, with the same sender, recipient, envelope and
  sequence number, and an acknowledgement is never taken back.\<close>

theorem accepted_rows_survive:
  assumes "(broker_run b3)\<^sup>*\<^sup>* (s, g) (s', g')" "message_row (sv_store s) i = Some m"
  shows "\<exists>m'. message_row (sv_store s') i = Some m' \<and> msg_From m' = msg_From m \<and> msg_To m' = msg_To m \<and>
    msg_Envelope m' = msg_Envelope m \<and> msg_Seq m' = msg_Seq m \<and> (msg_Acked m \<longrightarrow> msg_Acked m')"
  using brow.steps_row [OF assms(1), of i m] assms(2) by (auto simp: broker_row_def row_le_def)

theorem accepted_rows_survive_witness:
  "\<exists>m'. message_row (sv_store (reborn [''tok2''] demo_after)) ''m1'' = Some m' \<and> msg_From m' = ''alice'' \<and> msg_To m' = ''bob'' \<and> msg_Envelope m' = ''{}''"
proof -
  obtain g where "(broker_run demo_digest)\<^sup>*\<^sup>* (demo_server, \<lambda>_. None) (demo_after, g)"
    using demo_after_run by (auto simp: initial_def demo_server_def)
  then have "(broker_run demo_digest)\<^sup>*\<^sup>* (demo_server, \<lambda>_. None) ((reborn [''tok2''] demo_after), \<lambda>_. None)"
    using reborn_run by (rule rtranclp.rtrancl_into_rtrancl)
  moreover have "message_row (sv_store demo_server) ''m1'' = Some demo_row"
    using demo_store_ok(4) by (simp add: message_row_def demo_row_def demo_msg_def)
  ultimately show ?thesis
    using accepted_rows_survive [of demo_digest demo_server _ "reborn [''tok2''] demo_after" _ "''m1''" demo_row] by (auto simp: demo_row_def demo_msg_def)
qed

section \<open>Registration and redelivery\<close>

text \<open>The handshake of a returning peer, in terms of the rows it selects.\<close>

lemma reconnect_handshake:
  assumes "env_good env" "sv_conns s c = newPeerConn" "\<not> st_closed (sv_store s)" "length data \<le> MaxFrameBytes"
    "unmarshal_register data = Inr reg" "reg_Type reg = ControlRegister"
    "reg_ProtocolVersion reg = ProtocolVersion" "reg_Name reg = n" "n \<noteq> []" "Valid (sv_auth s) (reg_Token reg)"
    "\<forall>b. map_of (sv_registry s) n = Some b \<longrightarrow> bind_token b = reg_Token reg \<and> bind_conn b \<noteq> c"
    "\<forall>m\<in>set (st_messages (sv_store s)). msg_To m = n \<longrightarrow> deliver_bytes m \<noteq> None"
    "pend = select_pending n (map (set_requeued n) (st_messages (sv_store s)))"
  shows "\<exists>s' names. handshake env c (limited (ReadText data)) s = (Some n, s') \<and> Get n (sv_registry s') = Some c \<and>
    pc_out (sv_conns s' c) = marshal_peers \<lparr>peers_ProtocolVersion = ProtocolVersion, peers_Type = ControlPeers, peers_Names = names\<rparr>
      # map (the \<circ> deliver_bytes) pend \<and>
    st_messages (sv_store s') = fold (\<lambda>m. map (set_delivered (msg_ID m))) pend (map (set_requeued n) (st_messages (sv_store s)))"
proof -
  obtain s1 where s1: "db_call env (\<lambda>d. Register d n) s = (Inr (), s1)"
    "sv_store s1 = (sv_store s)\<lparr>st_peers := upsert_peer n (db_now (be_db env (sv_tick s))) (st_peers (sv_store s))\<rparr>"
    "sv_conns s1 = sv_conns s" "sv_registry s1 = sv_registry s"
    using good_register [OF assms(1,3,9)] by simp
  define r' where "r' = snd (Bind n (reg_Token reg) c (sv_registry s))"
  have bind: "Bind n (reg_Token reg) c (sv_registry s) = (Inr (Get n (sv_registry s)), r')"
    using assms(11) by (auto simp: Bind_def Get_def r'_def split: option.splits)
  let ?s2 = "s1\<lparr>sv_registry := r'\<rparr>"
  let ?h = "bound_handshake env c n (Get n (sv_registry s)) ?s2"
  have h: "handshake env c (limited (ReadText data)) s = ?h"
    using handshake_bound [of data reg s env "()" s1 c "Get n (sv_registry s)" r'] assms(4-10) s1 bind by (simp add: limited_def)
  have "Get n (sv_registry s) \<noteq> Some c" using assms(11) by (auto simp: Get_def)
  moreover have "\<not> pc_closed (sv_conns ?s2 c)" using assms(2) s1(3) by (simp add: newPeerConn_def)
  moreover have "\<forall>m\<in>set pend. deliver_bytes m \<noteq> None" using assms(12,13) by (auto simp: set_select_pending)
  ultimately have g: "fst ?h = Some n" "sv_registry (snd ?h) = r'"
    "pc_out (sv_conns (snd ?h) c) = pc_out (sv_conns ?s2 c) @ peers_reply ?s2 # map (the \<circ> deliver_bytes) pend"
    "st_messages (sv_store (snd ?h)) = fold (\<lambda>m. map (set_delivered (msg_ID m))) pend (map (set_requeued n) (st_messages (sv_store s)))"
    using bound_handshake_good [OF assms(1), of ?s2 c "Get n (sv_registry s)" n pend] assms(3) s1(2)
    by (simp_all add: assms(13) names_upsert_peer_set)
  have "Get n (sv_registry (snd ?h)) = Some c"
    using Get_Bind [of n "reg_Token reg" c "sv_registry s"] bind by (simp add: g(2))
  moreover have "pc_out (sv_conns (snd ?h) c) = marshal_peers \<lparr>peers_ProtocolVersion = ProtocolVersion,
      peers_Type = ControlPeers, peers_Names = Some (List r')\<rparr> # map (the \<circ> deliver_bytes) pend"
    using g(3) assms(2) s1(3) by (simp add: newPeerConn_def peers_reply_def)
  ultimately show ?thesis using g(1,4) h by (metis prod.collapse)
qed

lemma set_requeued_pending:
  "set (select_pending n (map (set_requeued n) ms)) = set_requeued n ` {m \<in> set ms. msg_To m = n \<and> \<not> (msg_Delivered m \<and> msg_Acked m)}"
  by (auto simp: set_select_pending requeued_pending)



text \<open>C16: Only a well-formed \<open>register\<close> frame of the right version with a configured token completes
  the handshake, and a name held under another token is refused without touching the
  registry or the connection that holds it.\<close>

theorem handshake_authenticates:
  "(fst (handshake env c frame s) = Some n \<longrightarrow>
     (\<exists>data reg. frame = ReadText data \<and> unmarshal_register data = Inr reg \<and> reg_Type reg = ControlRegister \<and>
        reg_ProtocolVersion reg = ProtocolVersion \<and> reg_Name reg = n \<and> n \<noteq> [] \<and>
        reg_Token reg \<in> set (sv_auth s) \<and> reg_Token reg \<noteq> [] \<and>
        (\<forall>b. map_of (sv_registry s) n = Some b \<longrightarrow> bind_token b = reg_Token reg))) \<and>
   (\<forall>data reg b. frame = ReadText data \<and> unmarshal_register data = Inr reg \<and>
        map_of (sv_registry s) (reg_Name reg) = Some b \<and> bind_token b \<noteq> reg_Token reg \<longrightarrow>
        fst (handshake env c frame s) = None \<and> sv_registry (snd (handshake env c frame s)) = sv_registry s \<and>
        (\<forall>c'. c' \<noteq> c \<longrightarrow> sv_conns (snd (handshake env c frame s)) c' = sv_conns s c'))"
proof (cases rule: handshake_cases [of env c frame s])
  case (closed r)
  then show ?thesis by (auto simp: closeNormal_def)
next
  case (failed n' r)
  have "sv_conns (closeNormal c r (snd (db_call env (\<lambda>d. Register d n') s))) c' = sv_conns s c'" if "c' \<noteq> c" for c'
    using that by (simp add: closeNormal_def)
  with failed show ?thesis by auto
next
  case (bound data reg displaced r')
  have "fst (bound_handshake env c m d s2) = Some n \<Longrightarrow> m = n" for m d s2
    by (auto simp: bound_handshake_def Let_def split: prod.splits bool.splits)
  then have n: "fst (handshake env c frame s) = Some n \<Longrightarrow> n = reg_Name reg" using bound(9) by auto
  have t: "map_of (sv_registry s) (reg_Name reg) = Some b \<Longrightarrow> bind_token b = reg_Token reg" for b
    using bound(8) by (auto simp: Bind_def split: if_splits)
  have "\<exists>data reg. frame = ReadText data \<and> unmarshal_register data = Inr reg \<and> reg_Type reg = ControlRegister \<and>
        reg_ProtocolVersion reg = ProtocolVersion \<and> reg_Name reg = n \<and> n \<noteq> [] \<and>
        reg_Token reg \<in> set (sv_auth s) \<and> reg_Token reg \<noteq> [] \<and>
        (\<forall>b. map_of (sv_registry s) n = Some b \<longrightarrow> bind_token b = reg_Token reg)" if "n = reg_Name reg"
    using bound(1-6) that t by (intro exI [of _ data] exI [of _ reg]) (auto simp: Valid_iff)
  with n t bound(1,2) show ?thesis by auto
qed

theorem handshake_authenticates_witness:
  "fst (handshake demo_benv 1 (ReadText (marshal_register (demo_register\<lparr>reg_Token := ''nope''\<rparr>))) demo_after) = None \<and>
   sv_registry (snd (handshake demo_benv 1 (ReadText (marshal_register (demo_register\<lparr>reg_Token := ''nope''\<rparr>))) demo_after)) = sv_registry demo_after"
proof -
  let ?reg = "demo_register\<lparr>reg_Token := ''nope''\<rparr>"
  have "unmarshal_register (marshal_register ?reg) = Inr ?reg"
    by (rule unmarshal_register_print) (simp add: demo_register_def ProtocolVersion_def valid_utf8_Cons_ascii)
  moreover have "map_of (sv_registry demo_after) (reg_Name ?reg) = Some \<lparr>bind_conn = 0, bind_token = ''tok''\<rparr>"
    by (simp add: demo_after_facts demo_register_def)
  ultimately show ?thesis
    using handshake_authenticates [of demo_benv 1 "ReadText (marshal_register ?reg)" demo_after "[]"] by auto
qed

section \<open>Routing\<close>

lemma marshal_envelope_nonempty: "marshal_envelope e = Some raw \<Longrightarrow> raw \<noteq> []"
  by (auto simp: marshal_envelope_def print_object_def)

lemma good_enqueue:
  assumes "db_good env" "\<not> st_closed (sv_store s)" "msg_ID m \<noteq> []" "msg_From m \<noteq> []" "msg_To m \<noteq> []" "msg_Envelope m \<noteq> []"
    "msg_To m \<in> peer_name ` set (st_peers (sv_store s))" "msg_ID m \<notin> msg_ID ` set (st_messages (sv_store s))"
  shows "db_call env (\<lambda>d. Enqueue d m) s =
    (Inr (), s\<lparr>sv_store := enqueued (be_db env (sv_tick s)) m (sv_store s), sv_tick := Suc (sv_tick s)\<rparr>)"
proof -
  have "fst (Enqueue (be_db env (sv_tick s)) m (sv_store s)) = Inr ()"
    using assms by (simp add: Enqueue_def okToUse_def insert_message_def db_good_def Let_def)
  moreover note Enqueue_ok(1) [OF this]
  ultimately have "Enqueue (be_db env (sv_tick s)) m (sv_store s) = (Inr (), enqueued (be_db env (sv_tick s)) m (sv_store s))"
    by (metis prod.collapse)
  then show ?thesis by (simp add: db_call_def)
qed

text \<open>Which rows a delivery attempt can touch: none but the delivered flag and attempt counter.\<close>

definition row_key :: "message \<Rightarrow> string \<times> string \<times> string \<times> bytes" where
  "row_key m = (msg_ID m, msg_From m, msg_To m, msg_Envelope m)"

lemma row_key_delivered: "map row_key (map (set_delivered i) ms) = map row_key ms"
  by (simp add: row_key_def)

lemma ids_row_key: "msg_ID ` set ms = fst ` set (map row_key ms)"
  by (force simp: row_key_def)

lemma deliverTo_keeps:
  "map row_key (st_messages (sv_store (deliverTo env r m s))) = map row_key (st_messages (sv_store s))"
  "st_peers (sv_store (deliverTo env r m s)) = st_peers (sv_store s)"
  "st_closed (sv_store (deliverTo env r m s)) = st_closed (sv_store s)"
  "sv_registry (deliverTo env r m s) = sv_registry s"
proof -
  have w: "sv_store s1 = sv_store s \<and> sv_registry s1 = sv_registry s" if "writeJSON env c b s = (ok, s1)" for c b ok s1
    using writeJSON_simps(2,3) [of env c b s] that by simp
  have m: "map row_key (st_messages (snd (MarkDelivered d i st))) = map row_key (st_messages st)"
    "st_peers (snd (MarkDelivered d i st)) = st_peers st" "st_closed (snd (MarkDelivered d i st)) = st_closed st" for d i st
    using row_key_delivered by (simp_all add: store_simps)
  show "map row_key (st_messages (sv_store (deliverTo env r m s))) = map row_key (st_messages (sv_store s))"
    "st_peers (sv_store (deliverTo env r m s)) = st_peers (sv_store s)"
    "st_closed (sv_store (deliverTo env r m s)) = st_closed (sv_store s)"
    "sv_registry (deliverTo env r m s) = sv_registry s"
    by (auto simp: deliverTo_def Let_def m dest!: w split: option.splits sum.splits prod.splits bool.splits)
qed

text \<open>The state in which a fresh direct message has been stored and its sending audited.\<close>

definition after_enqueue :: "benv \<Rightarrow> string \<Rightarrow> envelope \<Rightarrow> bytes \<Rightarrow> server \<Rightarrow> server" where
  "after_enqueue env from e raw s = auditEvent env ''send'' (env_ID e) from (env_To e)
     (s\<lparr>sv_store := enqueued (be_db env (sv_tick s)) (mk_message (env_ID e) from (env_To e) raw) (sv_store s), sv_tick := Suc (sv_tick s)\<rparr>)"

lemma mk_message_simps [simp]:
  "msg_ID (mk_message i from to raw) = i" "msg_From (mk_message i from to raw) = from"
  "msg_To (mk_message i from to raw) = to" "msg_Envelope (mk_message i from to raw) = raw"
  by (simp_all add: mk_message_def)

lemma after_enqueue_simps [simp]:
  "sv_registry (after_enqueue env from e raw s) = sv_registry s" "sv_conns (after_enqueue env from e raw s) = sv_conns s"
  "st_closed (sv_store (after_enqueue env from e raw s)) = st_closed (sv_store s)"
  "st_messages (sv_store (after_enqueue env from e raw s)) = st_messages (sv_store s) @
     [fresh_row (be_db env (sv_tick s)) (mk_message (env_ID e) from (env_To e) raw) (sv_store s)]"
  by (simp_all add: after_enqueue_def enqueued_def)

lemma routeEnvelope_direct:
  assumes "db_good env" "\<not> st_closed (sv_store s)" "from \<noteq> []" "env_ID e \<noteq> []" "env_To e \<noteq> []" "env_To e \<noteq> ''*''"
    "env_Kind e \<noteq> KindBroadcast" "marshal_envelope e = Some raw"
    "env_To e \<in> peer_name ` set (st_peers (sv_store s))" "env_ID e \<notin> msg_ID ` set (st_messages (sv_store s))"
  shows "routeEnvelope env from e s =
    deliverTo env (env_To e) (mk_message (env_ID e) from (env_To e) raw) (after_enqueue env from e raw s)"
  using good_enqueue [of env s "mk_message (env_ID e) from (env_To e) raw"] assms marshal_envelope_nonempty [OF assms(8)]
  by (simp add: routeEnvelope_def routeDirect_def after_enqueue_def Let_def)

lemma deliverTo_online:
  assumes "env_good env" "\<not> st_closed (sv_store s)" "Get r (sv_registry s) = Some c" "\<not> pc_closed (sv_conns s c)"
    "deliver_bytes m = Some fr"
  shows "st_messages (sv_store (deliverTo env r m s)) = map (set_delivered (msg_ID m)) (st_messages (sv_store s))"
    "pc_out (sv_conns (deliverTo env r m s) c) = pc_out (sv_conns s c) @ [fr]"
    "c' \<noteq> c \<Longrightarrow> pc_out (sv_conns (deliverTo env r m s) c') = pc_out (sv_conns s c')"
proof -
  obtain e where e: "unmarshal_envelope (msg_Envelope m) = Inr e" "marshal_deliver (deliver_of (msg_ID m) e) = Some fr"
    using assms(5) by (auto simp: deliver_bytes_def split: sum.splits)
  let ?s1 = "upd_conn c (\<lambda>p. p\<lparr>pc_out := pc_out p @ [fr]\<rparr>) (s\<lparr>sv_tick := Suc (sv_tick s)\<rparr>)"
  let ?s2 = "snd (db_call env (\<lambda>d. MarkDelivered d (msg_ID m)) ?s1)"
  have d: "deliverTo env r m s = auditEvent env ''deliver'' (msg_ID m) (msg_From m) r ?s2"
    using assms(3) e good_write [OF assms(1,4), of fr] by (simp add: deliverTo_def Let_def)
  then show "st_messages (sv_store (deliverTo env r m s)) = map (set_delivered (msg_ID m)) (st_messages (sv_store s))"
    using good_mark(1) [OF assms(1), of ?s1 "msg_ID m"] assms(2) by simp
  show "pc_out (sv_conns (deliverTo env r m s) c) = pc_out (sv_conns s c) @ [fr]"
    "c' \<noteq> c \<Longrightarrow> pc_out (sv_conns (deliverTo env r m s) c') = pc_out (sv_conns s c')"
    by (simp_all add: d)
qed

text \<open>A direct message to a connected peer is stored and handed over: when the database and the
  socket work, the recipient's connection receives exactly one further frame, the
  delivery of the sender's envelope under the message id, and the row is marked delivered;
  when the recipient is known but offline, the row is stored undelivered and nothing is written.\<close>

theorem direct_message_routed:
  assumes "env_good env" "\<not> st_closed (sv_store s)" "from \<noteq> []" "env_ID e \<noteq> []" "env_To e \<noteq> []" "env_To e \<noteq> ''*''"
    "env_Kind e \<noteq> KindBroadcast" "marshal_envelope e = Some raw"
    "env_To e \<in> peer_name ` set (st_peers (sv_store s))" "env_ID e \<notin> msg_ID ` set (st_messages (sv_store s))"
  shows "let s' = routeEnvelope env from e s in
    map row_key (st_messages (sv_store s')) = map row_key (st_messages (sv_store s)) @ [(env_ID e, from, env_To e, raw)] \<and>
    (Get (env_To e) (sv_registry s) = None \<longrightarrow>
       \<not> msg_Delivered (last (st_messages (sv_store s'))) \<and> (\<forall>c. pc_out (sv_conns s' c) = pc_out (sv_conns s c))) \<and>
    (\<forall>c fr. Get (env_To e) (sv_registry s) = Some c \<and> \<not> pc_closed (sv_conns s c) \<and>
         deliver_bytes (mk_message (env_ID e) from (env_To e) raw) = Some fr \<longrightarrow>
       msg_Delivered (last (st_messages (sv_store s'))) \<and> pc_out (sv_conns s' c) = pc_out (sv_conns s c) @ [fr] \<and>
       (\<forall>c'. c' \<noteq> c \<longrightarrow> pc_out (sv_conns s' c') = pc_out (sv_conns s c')))"
proof -
  let ?m = "mk_message (env_ID e) from (env_To e) raw"
  let ?s2 = "after_enqueue env from e raw s"
  have "db_good env" using assms(1) by (simp add: env_good_def)
  note r = routeEnvelope_direct [OF this assms(2-10)]
  have keys: "map row_key (st_messages (sv_store (deliverTo env (env_To e) ?m ?s2))) =
      map row_key (st_messages (sv_store s)) @ [(env_ID e, from, env_To e, raw)]"
    using deliverTo_keeps(1) [of env "env_To e" ?m ?s2] by (simp add: row_key_def)
  have "deliverTo env (env_To e) ?m ?s2 = ?s2" if "Get (env_To e) (sv_registry s) = None"
    using that by (simp add: deliverTo_def)
  then show ?thesis using keys deliverTo_online [OF assms(1), of ?s2 "env_To e" _ ?m] assms(2)
    by (auto simp: r Let_def last_map set_delivered_def)
qed

definition demo_online :: server where
  "demo_online = demo_server\<lparr>sv_registry := [(''bob'', \<lparr>bind_conn = 0, bind_token = ''tok''\<rparr>)]\<rparr>"

lemma demo_online_simps: "sv_store demo_online = demo_store" "List (sv_registry demo_online) = [''bob'']"
  "registry_ok (sv_registry demo_online)" "\<not> st_closed (sv_store demo_online)"
  "''bob'' \<in> peer_name ` set (st_peers (sv_store demo_online))" "msg_ID ` set (st_messages (sv_store demo_online)) = {''m1''}"
proof -
  have "''bob'' \<in> peer_name ` set (st_peers demo_store)" by code_simp
  then show "''bob'' \<in> peer_name ` set (st_peers (sv_store demo_online))" by (simp add: demo_online_def)
qed (simp_all add: demo_online_def List_def registry_ok_def demo_store_ok, simp add: demo_msg_def)

theorem direct_message_routed_witness:
  "map row_key (st_messages (sv_store (routeEnvelope demo_benv ''alice'' (demo_envelope\<lparr>env_ID := ''m2''\<rparr>) demo_online))) =
     map row_key (st_messages (sv_store demo_online)) @
       [(''m2'', ''alice'', ''bob'', the (marshal_envelope (demo_envelope\<lparr>env_ID := ''m2''\<rparr>)))]"
proof -
  let ?e = "demo_envelope\<lparr>env_ID := ''m2''\<rparr>"
  have e: "env_ID ?e = ''m2''" "env_To ?e = ''bob''" "env_Kind ?e \<noteq> KindBroadcast"
    by (simp_all add: demo_envelope_def KindBroadcast_def)
  obtain raw where "marshal_envelope ?e = Some raw"
    using body_fits_text(1) [OF demo_envelope_ok(2)] by (simp add: marshal_envelope_def)
  then show ?thesis
    using direct_message_routed [OF demo_benv_good demo_online_simps(4), of "''alice''" ?e raw] e demo_online_simps(5,6)
    by (simp add: Let_def)
qed

lemma row_id_inj [simp]: "row_id i r = row_id i r' \<longleftrightarrow> r = r'"
  by (simp add: row_id_def)

lemma row_id_nonempty [simp]: "row_id i r \<noteq> []"
  by (simp add: row_id_def)

lemma broadcast_loop_rows:
  assumes "db_good env" "from \<noteq> []" "raw \<noteq> []" "env_ID e \<noteq> []"
    "\<not> st_closed (sv_store s)" "distinct rs" "\<forall>r\<in>set rs. r \<noteq> [] \<and> r \<in> peer_name ` set (st_peers (sv_store s))"
    "\<forall>r\<in>set rs. row_id (env_ID e) r \<notin> msg_ID ` set (st_messages (sv_store s))"
  shows "map row_key (st_messages (sv_store (broadcast_loop env from e raw rs s))) =
    map row_key (st_messages (sv_store s)) @ map (\<lambda>r. (row_id (env_ID e) r, from, r, raw)) (filter (\<lambda>r. r \<noteq> from) rs)"
  using assms(5-8)
proof (induction rs arbitrary: s)
  case (Cons r rs)
  show ?case
  proof (cases "r = from")
    case False
    let ?m = "mk_message (row_id (env_ID e) r) from r raw"
    let ?s1 = "s\<lparr>sv_store := enqueued (be_db env (sv_tick s)) ?m (sv_store s), sv_tick := Suc (sv_tick s)\<rparr>"
    let ?s2 = "deliverTo env r ?m (auditEvent env ''send'' (row_id (env_ID e) r) from r ?s1)"
    have m: "msg_ID ?m = row_id (env_ID e) r" "msg_From ?m = from" "msg_To ?m = r" "msg_Envelope ?m = raw"
      by (simp_all add: mk_message_def)
    have "db_call env (\<lambda>d. Enqueue d ?m) s = (Inr (), ?s1)"
      using Cons.prems assms(1-4) by (intro good_enqueue) (simp_all add: m)
    with False have l: "broadcast_loop env from e raw (r # rs) s = broadcast_loop env from e raw rs ?s2"
      by (simp add: Let_def)
    have k: "map row_key (st_messages (sv_store ?s2)) = map row_key (st_messages (sv_store s)) @ [(row_id (env_ID e) r, from, r, raw)]"
      by (simp add: deliverTo_keeps row_key_def m)
    have ids: "msg_ID ` set (st_messages (sv_store ?s2)) = insert (row_id (env_ID e) r) (msg_ID ` set (st_messages (sv_store s)))"
      by (simp only: ids_row_key k) auto
    have "st_closed (sv_store ?s2) = st_closed (sv_store s)" "st_peers (sv_store ?s2) = st_peers (sv_store s)"
      by (simp_all add: deliverTo_keeps enqueued_def)
    moreover have "\<forall>r'\<in>set rs. row_id (env_ID e) r' \<notin> msg_ID ` set (st_messages (sv_store ?s2))"
      using Cons.prems(2,4) unfolding ids by auto
    ultimately have "map row_key (st_messages (sv_store (broadcast_loop env from e raw rs ?s2))) =
        map row_key (st_messages (sv_store ?s2)) @ map (\<lambda>r. (row_id (env_ID e) r, from, r, raw)) (filter (\<lambda>r. r \<noteq> from) rs)"
      using Cons.prems by (intro Cons.IH) simp_all
    then show ?thesis unfolding l k using False by simp
  qed (use Cons in simp)
qed simp

text \<open>A broadcast reaches every peer registered at that moment except the sender: if the
  database works, exactly one row per such peer is stored, keyed by message id and peer name,
  each with the sender's envelope bytes unchanged, whether or not a socket write fails;
  later registrations add nothing.\<close>

theorem broadcast_fans_out:
  assumes "db_good env" "from \<noteq> []" "env_ID e \<noteq> []" "env_To e = ''*''" "env_Kind e = KindBroadcast"
    "marshal_envelope e = Some raw" "\<not> st_closed (sv_store s)" "registry_ok (sv_registry s)"
    "\<forall>r\<in>set (List (sv_registry s)). r \<noteq> [] \<and> r \<in> peer_name ` set (st_peers (sv_store s))"
    "\<forall>r\<in>set (List (sv_registry s)). row_id (env_ID e) r \<notin> msg_ID ` set (st_messages (sv_store s))"
  shows "map row_key (st_messages (sv_store (routeEnvelope env from e s))) =
    map row_key (st_messages (sv_store s)) @
      map (\<lambda>r. (row_id (env_ID e) r, from, r, raw)) (filter (\<lambda>r. r \<noteq> from) (List (sv_registry s)))"
proof -
  have "routeEnvelope env from e s = broadcast_loop env from e raw (List (sv_registry s)) s"
    using assms(4-6) by (simp add: routeEnvelope_def routeBroadcast_def)
  then show ?thesis
    using broadcast_loop_rows [OF assms(1,2) marshal_envelope_nonempty [OF assms(6)] assms(3,7) _ assms(9,10)] List_props [OF assms(8)]
    by simp
qed

theorem broadcast_fans_out_witness:
  "map row_key (st_messages (sv_store (routeEnvelope demo_benv ''alice'' (demo_envelope\<lparr>env_To := ''*'', env_Kind := KindBroadcast\<rparr>) demo_online))) =
    map row_key (st_messages (sv_store demo_online)) @
      [(''m1|bob'', ''alice'', ''bob'', the (marshal_envelope (demo_envelope\<lparr>env_To := ''*'', env_Kind := KindBroadcast\<rparr>)))]"
proof -
  let ?e = "demo_envelope\<lparr>env_To := ''*'', env_Kind := KindBroadcast\<rparr>"
  obtain raw where "marshal_envelope ?e = Some raw"
    using body_fits_text(1) [OF demo_envelope_ok(2)] by (simp add: marshal_envelope_def)
  moreover have "env_ID ?e = ''m1''" by (simp add: demo_envelope_def)
  ultimately show ?thesis
    using broadcast_fans_out [of demo_benv "''alice''" ?e raw demo_online] demo_benv_good demo_online_simps
    by (simp add: env_good_def row_id_def)
qed

text \<open>An acknowledgement is not tied to the recipient: whoever sends an \<open>ack\<close> frame, the row with
  that id is marked acknowledged.\<close>

theorem any_peer_can_ack:
  assumes "db_good env" "\<not> st_closed (sv_store s)" "m \<in> set (st_messages (sv_store s))" "msg_ID m \<noteq> []"
    "ControlTypeOf data = Inr ControlAck" "unmarshal_ack data = Inr a" "ack_ID a = msg_ID m"
  shows "m\<lparr>msg_Acked := True\<rparr> \<in> set (st_messages (sv_store (routeFrame env c data s)))"
proof -
  have "st_messages (sv_store (handleAck env a n s)) = map (set_acked (msg_ID m)) (st_messages (sv_store s))" for n
    using assms(1,2,4,7) by (simp add: handleAck_def db_call_def store_simps db_good_def)
  moreover have "set_acked (msg_ID m) m = m\<lparr>msg_Acked := True\<rparr>" by (simp add: set_acked_def)
  ultimately show ?thesis using assms(3,5,6) by (force simp: routeFrame_def Let_def)
qed

definition demo_ack :: ack_frame where
  "demo_ack = \<lparr>ack_ProtocolVersion = ProtocolVersion, ack_Type = ControlAck, ack_ID = ''m1''\<rparr>"

theorem any_peer_can_ack_witness:
  "demo_row\<lparr>msg_Acked := True\<rparr> \<in> set (st_messages (sv_store (routeFrame demo_benv 7 (marshal_ack demo_ack) demo_online)))"
proof (rule any_peer_can_ack)
  show "db_good demo_benv" using demo_benv_good by (simp add: env_good_def)
  show "demo_row \<in> set (st_messages (sv_store demo_online))" by (simp add: demo_online_simps demo_store_ok demo_row_def)
  show "ControlTypeOf (marshal_ack demo_ack) = Inr ControlAck" using ControlTypeOf_ack [of demo_ack] by (simp add: demo_ack_def)
  show "unmarshal_ack (marshal_ack demo_ack) = Inr demo_ack"
    by (rule unmarshal_ack_print) (simp add: demo_ack_def ProtocolVersion_def valid_utf8_Cons_ascii)
  show "ack_ID demo_ack = msg_ID demo_row" "msg_ID demo_row \<noteq> []" by (simp_all add: demo_ack_def demo_row_def demo_msg_def)
qed (rule demo_online_simps)

text \<open>Row keys of broadcast copies are not kept apart from message ids: a stored message whose id is
  \<open>id|peer\<close> makes the broker drop that peer's copy of the broadcast \<open>id\<close>, from whatever sender.\<close>

theorem broadcast_copy_suppressed:
  assumes "row_id (env_ID e) r \<in> msg_ID ` set (st_messages (sv_store s))"
  shows "map row_key (st_messages (sv_store (broadcast_loop env from e raw [r] s))) = map row_key (st_messages (sv_store s))"
proof -
  let ?m = "mk_message (row_id (env_ID e) r) from r raw"
  obtain err where "Enqueue (be_db env (sv_tick s)) ?m (sv_store s) = (Inl err, sv_store s)"
    using Enqueue_outcome [of "be_db env (sv_tick s)" ?m "sv_store s"] assms by (auto simp: mk_message_def)
  then show ?thesis by (simp add: db_call_def)
qed

theorem broadcast_copy_suppressed_witness:
  "map row_key (st_messages (sv_store (broadcast_loop demo_benv ''alice'' (demo_envelope\<lparr>env_ID := ''m''\<rparr>) ''{}'' [''bob'']
      (demo_online\<lparr>sv_store := demo_store\<lparr>st_messages := [demo_msg ''m|bob'']\<rparr>\<rparr>)))) = map row_key [demo_msg ''m|bob'']"
proof -
  let ?s = "demo_online\<lparr>sv_store := demo_store\<lparr>st_messages := [demo_msg ''m|bob'']\<rparr>\<rparr>"
  have "row_id (env_ID (demo_envelope\<lparr>env_ID := ''m''\<rparr>)) ''bob'' \<in> msg_ID ` set (st_messages (sv_store ?s))"
    by (simp add: row_id_def demo_msg_def)
  from broadcast_copy_suppressed [OF this] show ?thesis by (simp del: broadcast_loop.simps)
qed

end
