(* ===== verification/Go_Strings.thy ===== *)
theory Go_Strings
  imports Peerbus_Prelude "HOL-Library.Sublist"
begin

text \<open>
  The functions of Go's \<open>strings\<close> package that the sources call: \<open>Split\<close> and \<open>Cut\<close> on a
  one-byte separator, \<open>TrimSpace\<close> and \<open>TrimRight\<close>, and \<open>Join\<close>.
\<close>

fun split_on :: "char \<Rightarrow> bytes \<Rightarrow> bytes list" where
  "split_on sep [] = [[]]"
| "split_on sep (c # cs) =
     (if c = sep then [] # split_on sep cs
      else (case split_on sep cs of [] \<Rightarrow> [[c]] | w # ws \<Rightarrow> (c # w) # ws))"

fun cut_at :: "char \<Rightarrow> bytes \<Rightarrow> (bytes \<times> bytes) option" where
  "cut_at sep [] = None"
| "cut_at sep (c # cs) = (if c = sep then Some ([], cs) else map_option (\<lambda>(a, b). (c # a, b)) (cut_at sep cs))"

fun join_with :: "bytes \<Rightarrow> bytes list \<Rightarrow> bytes" where
  "join_with sep [] = []"
| "join_with sep [w] = w"
| "join_with sep (w # v # ws) = w @ sep @ join_with sep (v # ws)"

text \<open>The UTF-8 forms of the runes for which \<open>unicode.IsSpace\<close> holds.\<close>

definition space_runes :: "bytes list" where
  "space_runes =
     [[CHR 0x09], [CHR 0x0A], [CHR 0x0B], [CHR 0x0C], [CHR 0x0D], [CHR 0x20],
      [CHR 0xC2, CHR 0x85], [CHR 0xC2, CHR 0xA0], [CHR 0xE1, CHR 0x9A, CHR 0x80]] @
     map (\<lambda>n. [CHR 0xE2, CHR 0x80, char_of n]) [0x80::nat ..< 0x8B] @
     [[CHR 0xE2, CHR 0x80, CHR 0xA8], [CHR 0xE2, CHR 0x80, CHR 0xA9], [CHR 0xE2, CHR 0x80, CHR 0xAF],
      [CHR 0xE2, CHR 0x81, CHR 0x9F], [CHR 0xE3, CHR 0x80, CHR 0x80]]"

lemma space_runes_nonempty: "[] \<notin> set space_runes"
  by (auto simp: space_runes_def)

text \<open>Strips leading members of \<open>ws\<close>; at most one strip per byte of the text.\<close>

fun strip_left :: "nat \<Rightarrow> bytes list \<Rightarrow> bytes \<Rightarrow> bytes" where
  "strip_left 0 ws s = s"
| "strip_left (Suc n) ws s =
     (case find (\<lambda>w. take (length w) s = w) ws of
        None \<Rightarrow> s
      | Some w \<Rightarrow> strip_left n ws (drop (length w) s))"

definition trim_left :: "bytes \<Rightarrow> bytes" where
  "trim_left s = strip_left (length s) space_runes s"

definition trim_right :: "bytes \<Rightarrow> bytes" where
  "trim_right s = rev (strip_left (length s) (map rev space_runes) (rev s))"

definition TrimSpace :: "bytes \<Rightarrow> bytes" where
  "TrimSpace s = trim_right (trim_left s)"

definition TrimRight :: "bytes \<Rightarrow> bytes \<Rightarrow> bytes" where
  "TrimRight s cutset = rev (dropWhile (\<lambda>c. c \<in> set cutset) (rev s))"

lemma split_on_nonempty [simp]: "split_on sep s \<noteq> []"
  by (induction s) (auto split: list.splits)

lemma split_on_no_sep: "w \<in> set (split_on sep s) \<Longrightarrow> sep \<notin> set w"
  by (induction s arbitrary: w) (auto split: list.splits if_splits)

lemma split_on_plain: "sep \<notin> set w \<Longrightarrow> split_on sep w = [w]"
  by (induction w) auto

lemma split_on_append_sep: "sep \<notin> set w \<Longrightarrow> split_on sep (w @ sep # s) = w # split_on sep s"
  by (induction w) auto

lemma split_join:
  "ws \<noteq> [] \<Longrightarrow> list_all (\<lambda>w. sep \<notin> set w) ws \<Longrightarrow> split_on sep (join_with [sep] ws) = ws"
  by (induction ws rule: induct_list012) (auto simp: split_on_plain split_on_append_sep)

lemma cut_at_iff: "cut_at sep s = Some (a, b) \<longleftrightarrow> s = a @ sep # b \<and> sep \<notin> set a"
proof (induction s arbitrary: a)
  case (Cons c cs)
  then show ?case by (cases a) auto
qed simp

text \<open>Enough rounds always reach a text that does not start with a member of \<open>ws\<close>.\<close>

lemma strip_left_done:
  assumes "[] \<notin> set ws" "length s \<le> n"
  shows "find (\<lambda>w. take (length w) (strip_left n ws s) = w) ws = None \<or> strip_left n ws s = []"
  using assms(2)
proof (induction n arbitrary: s)
  case (Suc n)
  show ?case
  proof (cases "find (\<lambda>w. take (length w) s = w) ws")
    case (Some w)
    then have "w \<in> set ws" by (metis find_Some_iff nth_mem)
    with assms(1) have "w \<noteq> []" by auto
    with Suc.prems have "length (drop (length w) s) \<le> n" by (cases w) auto
    with Suc.IH Some show ?thesis by simp
  qed simp
qed simp

lemma strip_left_id:
  "find (\<lambda>w. take (length w) s = w) ws = None \<Longrightarrow> strip_left n ws s = s"
  by (cases n) auto

lemma find_take_Nil: "[] \<notin> set ws \<Longrightarrow> find (\<lambda>w. take (length w) [] = w) ws = None"
  by (auto simp: find_None_iff)

lemma trim_left_idem: "trim_left (trim_left s) = trim_left s"
proof -
  have "find (\<lambda>w. take (length w) (trim_left s) = w) space_runes = None"
    using strip_left_done [OF space_runes_nonempty, of s "length s"] find_take_Nil [OF space_runes_nonempty]
    by (auto simp: trim_left_def)
  then show ?thesis by (simp add: trim_left_def [of "trim_left s"] strip_left_id)
qed

end
