(* ===== verification/Config.thy ===== *)
theory Config
  imports Go_Strings Hmac
begin

text \<open>
  Package \<open>internal/broker\<close>, \<open>config.go\<close>: the broker's configuration.  The process environment is the
  argument \<open>getenv\<close>; an unset variable is the empty string, as \<open>os.Getenv\<close> returns.
\<close>

record config =
  cfg_ListenAddr :: string
  cfg_Tokens :: "string list"
  cfg_HMACSecret :: bytes
  cfg_DBPath :: string

definition EnvListenAddr :: string where "EnvListenAddr = ''PEERBUS_LISTEN''"
definition EnvTokens :: string where "EnvTokens = ''PEERBUS_TOKENS''"
definition EnvHMACSecret :: string where "EnvHMACSecret = ''PEERBUS_HMAC_SECRET''"
definition EnvDBPath :: string where "EnvDBPath = ''PEERBUS_DB''"

definition DefaultListenAddr :: string where
  "DefaultListenAddr = ''127.0.0.1:47821''"

datatype config_error = TokenRequired | SecretTooShort hmac_error

definition parseTokens :: "string \<Rightarrow> string list" where
  "parseTokens s = filter (\<lambda>t. t \<noteq> []) (map TrimSpace (split_on (CHR '','') s))"

definition LoadConfig :: "(string \<Rightarrow> string) \<Rightarrow> config \<Rightarrow> (config_error, config) result" where
  "LoadConfig getenv base =
     (let cfg = base;
          cfg = (let v = getenv EnvListenAddr in if v \<noteq> [] then cfg\<lparr>cfg_ListenAddr := v\<rparr> else cfg);
          cfg = (let v = getenv EnvTokens in if v \<noteq> [] then cfg\<lparr>cfg_Tokens := parseTokens v\<rparr> else cfg);
          cfg = (let v = getenv EnvHMACSecret in if v \<noteq> [] then cfg\<lparr>cfg_HMACSecret := v\<rparr> else cfg);
          cfg = (let v = getenv EnvDBPath in if v \<noteq> [] then cfg\<lparr>cfg_DBPath := v\<rparr> else cfg);
          cfg = (if cfg_ListenAddr cfg = [] then cfg\<lparr>cfg_ListenAddr := DefaultListenAddr\<rparr> else cfg);
          cfg = (if cfg_DBPath cfg = [] then cfg\<lparr>cfg_DBPath := ''peerbus.db''\<rparr> else cfg)
      in if length (cfg_Tokens cfg) = 0 then Inl TokenRequired
         else if length (cfg_HMACSecret cfg) < MinSecretLen then Inl (SecretTooShort ErrShortSecret)
         else Inr cfg)"

definition override :: "string \<Rightarrow> 'a \<Rightarrow> 'a \<Rightarrow> 'a" where
  "override v new old = (if v \<noteq> [] then new else old)"

definition or_default :: "string \<Rightarrow> string \<Rightarrow> string" where
  "or_default d v = (if v = [] then d else v)"

text \<open>The effective configuration: every non-empty variable overrides the field it names, empty
  address and database path get their defaults, and a configuration is produced exactly
  when it has a token and an HMAC secret of at least \<open>MinSecretLen\<close> bytes.\<close>

theorem load_config_precedence:
  "let tokens = override (getenv EnvTokens) (parseTokens (getenv EnvTokens)) (cfg_Tokens base);
       secret = override (getenv EnvHMACSecret) (getenv EnvHMACSecret) (cfg_HMACSecret base) in
   LoadConfig getenv base =
     (if tokens = [] then Inl TokenRequired
      else if length secret < MinSecretLen then Inl (SecretTooShort ErrShortSecret)
      else Inr \<lparr>cfg_ListenAddr = or_default DefaultListenAddr (override (getenv EnvListenAddr) (getenv EnvListenAddr) (cfg_ListenAddr base)),
                cfg_Tokens = tokens, cfg_HMACSecret = secret,
                cfg_DBPath = or_default ''peerbus.db'' (override (getenv EnvDBPath) (getenv EnvDBPath) (cfg_DBPath base))\<rparr>)"
  unfolding LoadConfig_def override_def or_default_def Let_def
  by (cases base; cases "getenv EnvListenAddr = []"; cases "getenv EnvTokens = []";
      cases "getenv EnvHMACSecret = []"; cases "getenv EnvDBPath = []"; simp)

text \<open>Splitting the printed list gives the tokens back, so a token list survives its
  environment variable.\<close>

lemma parseTokens_join:
  assumes "ts \<noteq> []" "list_all (\<lambda>t. t \<noteq> [] \<and> TrimSpace t = t \<and> CHR '','' \<notin> set t) ts"
  shows "parseTokens (join_with '','' ts) = ts"
proof -
  have "list_all (\<lambda>w. CHR '','' \<notin> set w) ts" using assms(2) by (simp add: list_all_iff)
  then have "split_on (CHR '','') (join_with '','' ts) = ts" using assms(1) by (rule split_join [rotated])
  moreover have "map TrimSpace ts = ts" "filter (\<lambda>t. t \<noteq> []) ts = ts"
    using assms(2) by (auto simp: list_all_iff map_idI)
  ultimately show ?thesis by (simp add: parseTokens_def)
qed

lemma parseTokens_nonempty: "t \<in> set (parseTokens s) \<Longrightarrow> t \<noteq> []"
  by (simp add: parseTokens_def)

end
