(* ===== verification/Mcp.thy ===== *)
theory Mcp
  imports Go_Strings Wire "HOL-Library.Char_ord" "HOL-Library.List_Lexorder"
begin

text \<open>
  Package \<open>internal/mcp\<close>: the JSON-RPC server that an adapter runs over its standard input and
  output.  The reader sees a stream of bytes that ends in \<open>io.EOF\<close> or in another error; the
  server's state is a record with the lines written so far.  The \<open>Bus\<close> interface is a record of
  functions on the state of the bus, whose errors are their texts.  The wording of the errors of
  \<open>encoding/json\<close> is an argument (\<open>et\<close>): it only ever travels in the \<open>data\<close> or \<open>text\<close> of an answer.
\<close>

section \<open>Decimal numbers\<close>

fun print_nat :: "nat \<Rightarrow> bytes" where
  "print_nat n = (if n < 10 then [char_of (48 + n)] else print_nat (n div 10) @ [char_of (48 + n mod 10)])"

declare print_nat.simps [simp del]

definition print_int :: "int \<Rightarrow> bytes" where
  "print_int i = (if i < 0 then CHR ''-'' # print_nat (nat (- i)) else print_nat (nat i))"

definition digits_value :: "bytes \<Rightarrow> nat" where
  "digits_value ds = foldl (\<lambda>n c. 10 * n + (byte c - 48)) 0 ds"

text \<open>\<open>strconv.Atoi\<close> on a 64-bit platform.\<close>

definition Atoi :: "bytes \<Rightarrow> int option" where
  "Atoi s =
     (let neg = (s \<noteq> [] \<and> hd s = CHR ''-'');
          ds = (if s \<noteq> [] \<and> (hd s = CHR ''-'' \<or> hd s = CHR ''+'') then tl s else s);
          n = (if neg then - int (digits_value ds) else int (digits_value ds))
      in if ds = [] \<or> \<not> list_all is_digit ds then None
         else if n < - (2 ^ 63) \<or> 2 ^ 63 \<le> n then None
         else Some n)"

section \<open>Framing\<close>

text \<open>How the input ends, and what one call of \<open>readMessage\<close> returns.  \<open>make([]byte, n)\<close> panics when \<open>n\<close>
  exceeds the address space of the platform.\<close>

datatype input_end = InputEOF | InputBroken

datatype read_error = EOF | UnexpectedEOF | Broken | BadContentLength | ContentLengthMissing

datatype read_outcome = Message bytes | ReadFail read_error | Panic

definition end_error :: "input_end \<Rightarrow> read_error" where
  "end_error e = (case e of InputEOF \<Rightarrow> EOF | InputBroken \<Rightarrow> Broken)"

definition LF :: char where "LF = CHR 0x0A"
definition CR :: char where "CR = CHR 0x0D"

text \<open>\<open>ReadBytes('\\n')\<close>: the line with its terminator, the rest, and whether the terminator was found.\<close>

definition read_line :: "bytes \<Rightarrow> bytes \<times> bytes \<times> bool" where
  "read_line inp =
     (case dropWhile (\<lambda>c. c \<noteq> LF) inp of
        [] \<Rightarrow> (inp, [], False)
      | _ # rest \<Rightarrow> (takeWhile (\<lambda>c. c \<noteq> LF) inp @ [LF], rest, True))"

lemma length_read_line: "read_line inp = (line, rest, ok) \<Longrightarrow> ok \<or> inp \<noteq> [] \<Longrightarrow> length rest < length inp"
  using length_dropWhile_le [of "\<lambda>c. c \<noteq> LF" inp]
  by (auto simp: read_line_def split: list.splits)

definition maxAlloc :: nat where
  "maxAlloc = 2 ^ 48"

definition read_body :: "input_end \<Rightarrow> int \<Rightarrow> bytes \<Rightarrow> read_outcome \<times> bytes" where
  "read_body e contentLen inp =
     (if contentLen < 0 then (ReadFail ContentLengthMissing, inp)
      else if maxAlloc < nat contentLen then (Panic, inp)
      else
        (let n = nat contentLen in
         if n \<le> length inp then (Message (take n inp), drop n inp)
         else if inp = [] then (ReadFail (end_error e), [])
         else (ReadFail (case e of InputEOF \<Rightarrow> UnexpectedEOF | InputBroken \<Rightarrow> Broken), [])))"

definition content_length_key :: "bytes \<Rightarrow> bool" where
  "content_length_key k = (map upper_ascii (TrimSpace k) = map upper_ascii ''Content-Length'')"

function readContentLengthFramed :: "input_end \<Rightarrow> int \<Rightarrow> bytes \<Rightarrow> read_outcome \<times> bytes" where
  "readContentLengthFramed e contentLen inp =
     (case read_line inp of
        (_, rest, False) \<Rightarrow> (ReadFail (end_error e), rest)
      | (line0, rest, True) \<Rightarrow>
          (let line = TrimRight line0 [CR, LF] in
           if line = [] then read_body e contentLen rest
           else (case cut_at (CHR '':'') line of
                None \<Rightarrow> readContentLengthFramed e contentLen rest
              | Some (k, v) \<Rightarrow>
                  if content_length_key k then
                    (case Atoi (TrimSpace v) of
                       None \<Rightarrow> (ReadFail BadContentLength, rest)
                     | Some n \<Rightarrow> readContentLengthFramed e n rest)
                  else readContentLengthFramed e contentLen rest)))"
  by pat_completeness auto
termination
  by (relation "measure (\<lambda>(e, n, inp). length inp)") (auto dest!: length_read_line [OF sym])

declare readContentLengthFramed.simps [simp del]

definition readMessage :: "input_end \<Rightarrow> bytes \<Rightarrow> read_outcome \<times> bytes" where
  "readMessage e inp =
     (case dropWhile (\<lambda>c. c = LF \<or> c = CR) inp of
        [] \<Rightarrow> (ReadFail (end_error e), [])
      | c # cs \<Rightarrow>
          if c = CHR ''C'' then readContentLengthFramed e (- 1) (c # cs)
          else (case read_line (c # cs) of (line, rest, _) \<Rightarrow> (Message (TrimRight line [CR, LF]), rest)))"

section \<open>JSON-RPC messages\<close>

definition errParse :: int where "errParse = - 32700"
definition errMethodNotFound :: int where "errMethodNotFound = - 32601"
definition errInvalidParams :: int where "errInvalidParams = - 32602"
definition errInternal :: int where "errInternal = - 32603"

definition protocolVersion :: string where
  "protocolVersion = ''2025-06-18''"

record rpcRequest =
  rq_JSONRPC :: string
  rq_ID :: bytes
  rq_Method :: string
  rq_Params :: bytes

definition rpcRequest_names :: "string list" where
  "rpcRequest_names = [''jsonrpc'', ''id'', ''method'', ''params'']"

definition upd_rpcRequest :: "(string \<times> bytes) list \<Rightarrow> rpcRequest \<Rightarrow> rpcRequest \<times> bool" where
  "upd_rpcRequest ms x =
     (let r = field_raws rpcRequest_names ms;
          j = dec_string (r ''jsonrpc'') (rq_JSONRPC x);
          m = dec_string (r ''method'') (rq_Method x)
      in (\<lparr>rq_JSONRPC = fst j, rq_ID = dec_raw (r ''id'') (rq_ID x), rq_Method = fst m,
           rq_Params = dec_raw (r ''params'') (rq_Params x)\<rparr>, snd j \<or> snd m))"

definition unmarshal_rpcRequest :: "bytes \<Rightarrow> (json_error, rpcRequest) result" where
  "unmarshal_rpcRequest = unmarshal (dec_struct upd_rpcRequest) \<lparr>rq_JSONRPC = [], rq_ID = [], rq_Method = [], rq_Params = []\<rparr>"

text \<open>A Go map is printed with its keys in order.\<close>

definition print_map :: "(string \<times> bytes) list \<Rightarrow> bytes" where
  "print_map kvs = print_object (sort_key fst kvs)"

text \<open>The \<open>id\<close> is omitted when empty; a \<open>json.RawMessage\<close> is compacted, which fails on malformed text.\<close>

definition rpc_id :: "bytes \<Rightarrow> (string \<times> bytes) list option" where
  "rpc_id i = (if i = [] then Some [] else map_option (\<lambda>b. [(''id'', b)]) (marshal_raw i))"

definition marshal_result :: "bytes \<Rightarrow> bytes option \<Rightarrow> bytes option" where
  "marshal_result i result =
     (case (rpc_id i, result) of
        (Some idf, Some r) \<Rightarrow> Some (print_object ([(''jsonrpc'', json_quote ''2.0'')] @ idf @ [(''result'', r)]))
      | _ \<Rightarrow> None)"

definition marshal_error :: "bytes \<Rightarrow> int \<Rightarrow> string \<Rightarrow> string \<Rightarrow> bytes option" where
  "marshal_error i code msg data =
     map_option (\<lambda>idf. print_object ([(''jsonrpc'', json_quote ''2.0'')] @ idf @
       [(''error'', print_object [(''code'', print_int code), (''message'', json_quote msg), (''data'', json_quote data)])]))
       (rpc_id i)"

definition marshal_failure :: bytes where
  "marshal_failure = print_object [(''jsonrpc'', json_quote ''2.0''), (''id'', ''null''),
     (''error'', print_object [(''code'', print_int errInternal), (''message'', json_quote ''internal marshal error'')])]"

section \<open>The tools\<close>

record InboundMessage =
  in_ID :: string
  in_From :: string
  in_Source :: string
  in_Body :: bytes

definition marshal_inbound :: "InboundMessage \<Rightarrow> bytes option" where
  "marshal_inbound m = map_option (\<lambda>b. print_object [(''id'', json_quote (in_ID m)), (''from'', json_quote (in_From m)),
     (''source'', json_quote (in_Source m)), (''body'', b)]) (marshal_raw (in_Body m))"

record 'b Bus =
  bus_Send :: "string \<Rightarrow> bytes \<Rightarrow> 'b \<Rightarrow> (string, unit) result \<times> 'b"
  bus_Broadcast :: "bytes \<Rightarrow> 'b \<Rightarrow> (string, unit) result \<times> 'b"
  bus_Peers :: "'b \<Rightarrow> (string, string \<times> string list option) result \<times> 'b"
  bus_Drain :: "'b \<Rightarrow> (string, InboundMessage list option) result \<times> 'b"

datatype tool_error = UnknownTool | ArgError string | ToolFailure string

definition print_bool :: "bool \<Rightarrow> bytes" where
  "print_bool b = (if b then ''true'' else ''false'')"

definition text_content :: "string \<Rightarrow> bytes" where
  "text_content t = print_array [print_map [(''type'', json_quote ''text''), (''text'', json_quote t)]]"

definition toolResult :: "bytes option \<Rightarrow> bytes option" where
  "toolResult v =
     (let js = (case v of None \<Rightarrow> [] | Some b \<Rightarrow> b)
      in map_option (\<lambda>b. print_map [(''content'', text_content js), (''structuredContent'', b), (''isError'', print_bool False)]) v)"

definition toolErrorResult :: "string \<Rightarrow> bytes" where
  "toolErrorResult msg = print_map [(''content'', text_content msg), (''isError'', print_bool True)]"

definition str_prop :: "string \<Rightarrow> string \<Rightarrow> bytes" where
  "str_prop ty desc = print_map [(''type'', json_quote ty), (''description'', json_quote desc)]"

definition input_schema :: "(string \<times> bytes) list \<Rightarrow> string list option \<Rightarrow> bytes" where
  "input_schema props req = print_map ([(''type'', json_quote ''object''), (''properties'', print_map props)] @
     (case req of None \<Rightarrow> [] | Some ns \<Rightarrow> [(''required'', print_array (map json_quote ns))]))"

definition tool_entry :: "string \<Rightarrow> string \<Rightarrow> bytes \<Rightarrow> bytes" where
  "tool_entry name desc schema = print_map [(''name'', json_quote name), (''description'', json_quote desc), (''inputSchema'', schema)]"

definition toolsListResult :: "bool \<Rightarrow> bytes" where
  "toolsListResult hideDrain =
     (let strProp = str_prop ''string'';
          objProp = str_prop ''object'';
          tools =
            [tool_entry ''bus.send'' ''Send a direct message to one peer on the bus.''
               (input_schema [(''to'', strProp ''recipient peer name''), (''body'', objProp ''opaque application JSON payload'')]
                  (Some [''to'', ''body''])),
             tool_entry ''bus.broadcast'' ''Broadcast a message to every currently-registered peer except yourself.''
               (input_schema [(''body'', objProp ''opaque application JSON payload'')] (Some [''body''])),
             tool_entry ''bus.peers''
               (''Return {self, peers}: this adapter'' @ [CHR 0x27] @ ''s own bus name (self) and the names of other peers currently registered on the bus.'')
               (input_schema [] None)] @
            (if hideDrain then [] else
               [tool_entry ''bus.drain'' ''Return and acknowledge all messages received since the last drain.'' (input_schema [] None)])
      in print_map [(''tools'', print_array tools)])"

text \<open>The arguments of \<open>bus.send\<close> and \<open>bus.broadcast\<close>.\<close>

definition upd_send_args :: "(string \<times> bytes) list \<Rightarrow> string \<times> bytes \<Rightarrow> (string \<times> bytes) \<times> bool" where
  "upd_send_args ms x =
     (let r = field_raws [''to'', ''body''] ms; t = dec_string (r ''to'') (fst x)
      in ((fst t, dec_raw (r ''body'') (snd x)), snd t))"

definition upd_broadcast_args :: "(string \<times> bytes) list \<Rightarrow> bytes \<Rightarrow> bytes \<times> bool" where
  "upd_broadcast_args ms x = (dec_raw (field_raws [''body''] ms ''body'') x, False)"

definition unmarshalArgs :: "(bytes \<Rightarrow> string) \<Rightarrow> (bytes \<Rightarrow> 'a \<Rightarrow> 'a \<times> bool) \<Rightarrow> bytes \<Rightarrow> 'a \<Rightarrow> (tool_error, 'a) result" where
  "unmarshalArgs et dec raw z =
     (if raw = [] \<or> raw = ''null'' then Inr z
      else (case unmarshal dec z raw of
         Inl _ \<Rightarrow> Inl (ArgError (''invalid tool arguments: '' @ et raw))
       | Inr a \<Rightarrow> Inr a))"

definition required_error :: "string \<Rightarrow> string \<Rightarrow> tool_error" where
  "required_error tool f = ArgError (tool @ '': '' @ [CHR 0x22] @ f @ [CHR 0x22] @ '' is required'')"

definition callTool :: "(bytes \<Rightarrow> string) \<Rightarrow> 'b Bus \<Rightarrow> string \<Rightarrow> bytes \<Rightarrow> 'b \<Rightarrow> (tool_error, bytes option) result \<times> 'b" where
  "callTool et bus name args b =
     (if name = ''bus.send'' then
        (case unmarshalArgs et (dec_struct upd_send_args) args ([], []) of
           Inl err \<Rightarrow> (Inl err, b)
         | Inr (to, body) \<Rightarrow>
             if to = [] then (Inl (required_error ''bus.send'' ''to''), b)
             else if body = [] then (Inl (required_error ''bus.send'' ''body''), b)
             else (case bus_Send bus to body b of
                (Inl err, b1) \<Rightarrow> (Inl (ToolFailure err), b1)
              | (Inr _, b1) \<Rightarrow> (Inr (toolResult (Some (print_map [(''sent'', print_bool True), (''to'', json_quote to)]))), b1)))
      else if name = ''bus.broadcast'' then
        (case unmarshalArgs et (dec_struct upd_broadcast_args) args [] of
           Inl err \<Rightarrow> (Inl err, b)
         | Inr body \<Rightarrow>
             if body = [] then (Inl (required_error ''bus.broadcast'' ''body''), b)
             else (case bus_Broadcast bus body b of
                (Inl err, b1) \<Rightarrow> (Inl (ToolFailure err), b1)
              | (Inr _, b1) \<Rightarrow> (Inr (toolResult (Some (print_map [(''broadcast'', print_bool True)]))), b1)))
      else if name = ''bus.peers'' then
        (case bus_Peers bus b of
           (Inl err, b1) \<Rightarrow> (Inl (ToolFailure err), b1)
         | (Inr (self, names), b1) \<Rightarrow>
             (Inr (toolResult (Some (print_map [(''self'', json_quote self),
                 (''peers'', print_array (map json_quote (case names of None \<Rightarrow> [] | Some ns \<Rightarrow> ns)))]))), b1))
      else if name = ''bus.drain'' then
        (case bus_Drain bus b of
           (Inl err, b1) \<Rightarrow> (Inl (ToolFailure err), b1)
         | (Inr msgs, b1) \<Rightarrow>
             (let ms = map marshal_inbound (case msgs of None \<Rightarrow> [] | Some xs \<Rightarrow> xs)
              in (Inr (toolResult (if list_all (\<lambda>x. x \<noteq> None) ms
                    then Some (print_map [(''messages'', print_array (map the ms))]) else None)), b1)))
      else (Inl UnknownTool, b))"

section \<open>The server\<close>

record 'b mcp_server =
  ms_bus :: 'b
  ms_out :: "bytes list"
  ms_initialized :: bool
  ms_initializedCh :: "bool option"
  ms_initializedOnce :: bool
  ms_panicked :: bool
  ms_serverName :: string
  ms_channelCap :: bool
  ms_hideDrain :: bool

text \<open>The channel behind \<open>Initialized()\<close>: not allocated, or open or closed (\<open>Some True\<close>); \<open>ms_initializedOnce\<close>
  says whether the \<open>sync.Once\<close> has run, and \<open>ms_panicked\<close> whether a closed channel was closed again.\<close>

definition NewMcpServer :: "'b \<Rightarrow> 'b mcp_server" where
  "NewMcpServer bus = \<lparr>ms_bus = bus, ms_out = [], ms_initialized = False, ms_initializedCh = None,
     ms_initializedOnce = False, ms_panicked = False, ms_serverName = ''peerbus-generic-adapter'', ms_channelCap = False, ms_hideDrain = False\<rparr>"

definition WithServerName :: "string \<Rightarrow> 'b mcp_server \<Rightarrow> 'b mcp_server" where
  "WithServerName name s = s\<lparr>ms_serverName := name\<rparr>"

definition WithChannelCapability :: "'b mcp_server \<Rightarrow> 'b mcp_server" where
  "WithChannelCapability s = s\<lparr>ms_channelCap := True\<rparr>"

definition WithoutDrain :: "'b mcp_server \<Rightarrow> 'b mcp_server" where
  "WithoutDrain s = s\<lparr>ms_hideDrain := True\<rparr>"

definition write_line :: "bytes \<Rightarrow> 'b mcp_server \<Rightarrow> 'b mcp_server" where
  "write_line b s = s\<lparr>ms_out := ms_out s @ [b @ [LF]]\<rparr>"

definition marshal_notification :: "string \<Rightarrow> bytes \<Rightarrow> bytes" where
  [simp]: "marshal_notification method params =
     print_object [(''jsonrpc'', json_quote ''2.0''), (''method'', json_quote method), (''params'', params)]"

definition Notify :: "string \<Rightarrow> bytes option \<Rightarrow> 'b mcp_server \<Rightarrow> 'b mcp_server" where
  "Notify method params s =
     (case params of
        None \<Rightarrow> s
      | Some p \<Rightarrow> write_line (marshal_notification method p) s)"

definition Initialized :: "'b mcp_server \<Rightarrow> bool \<times> 'b mcp_server" where
  "Initialized s =
     (let s1 = (if ms_initializedCh s = None then s\<lparr>ms_initializedCh := Some (ms_initialized s)\<rparr> else s)
      in (the (ms_initializedCh s1), s1))"

definition signalInitialized :: "'b mcp_server \<Rightarrow> 'b mcp_server" where
  "signalInitialized s =
     (if ms_initializedOnce s then s
      else s\<lparr>ms_initializedOnce := True, ms_initializedCh := map_option (\<lambda>_. True) (ms_initializedCh s),
             ms_panicked := (ms_panicked s \<or> ms_initializedCh s = Some True)\<rparr>)"

definition write_response :: "bytes option \<Rightarrow> 'b mcp_server \<Rightarrow> 'b mcp_server" where
  "write_response resp s = write_line (case resp of None \<Rightarrow> marshal_failure | Some b \<Rightarrow> b) s"

definition writeResult :: "bytes \<Rightarrow> bytes option \<Rightarrow> 'b mcp_server \<Rightarrow> 'b mcp_server" where
  "writeResult i result s = write_response (marshal_result i result) s"

definition writeError :: "bytes \<Rightarrow> int \<Rightarrow> string \<Rightarrow> string \<Rightarrow> 'b mcp_server \<Rightarrow> 'b mcp_server" where
  "writeError i code msg data s = write_response (marshal_error i code msg data) s"

definition upd_pv :: "(string \<times> bytes) list \<Rightarrow> string \<Rightarrow> string \<times> bool" where
  "upd_pv ms x = dec_string (field_raws [''protocolVersion''] ms ''protocolVersion'') x"

text \<open>\<open>_ = json.Unmarshal\<close>: on a type error what was decoded stays.\<close>

definition init_version :: "bytes \<Rightarrow> string" where
  "init_version params = (if checkValid params then fst (dec_struct upd_pv (skip_ws params) []) else [])"

definition handleInitialize :: "rpcRequest \<Rightarrow> 'b mcp_server \<Rightarrow> 'b mcp_server" where
  "handleInitialize req s =
     (let pv0 = init_version (rq_Params req);
          pv = (if pv0 = [] then protocolVersion else pv0);
          caps = [(''tools'', print_map [])] @
            (if ms_channelCap s then [(''experimental'', print_map [(''claude/channel'', print_map [])])] else [])
      in writeResult (rq_ID req) (Some (print_map [(''protocolVersion'', json_quote pv), (''capabilities'', print_map caps),
           (''serverInfo'', print_map [(''name'', json_quote (ms_serverName s)), (''version'', json_quote ''1'')])])) s)"

definition bytesTrimSpace :: "bytes \<Rightarrow> bytes" where
  "bytesTrimSpace b = dropWhile (\<lambda>c. c = CHR '' '' \<or> c = CHR 0x09 \<or> c = LF \<or> c = CR) b"

definition upd_call :: "(string \<times> bytes) list \<Rightarrow> string \<times> bytes \<Rightarrow> (string \<times> bytes) \<times> bool" where
  "upd_call ms x =
     (let r = field_raws [''name'', ''arguments''] ms; n = dec_string (r ''name'') (fst x)
      in ((fst n, dec_raw (r ''arguments'') (snd x)), snd n))"

definition handleToolsCall :: "(bytes \<Rightarrow> string) \<Rightarrow> 'b Bus \<Rightarrow> rpcRequest \<Rightarrow> 'b mcp_server \<Rightarrow> 'b mcp_server" where
  "handleToolsCall et bus req s =
     (if rq_ID req = [] then s
      else (case unmarshal (dec_struct upd_call) ([], []) (rq_Params req) of
         Inl _ \<Rightarrow> writeError (rq_ID req) errInvalidParams ''invalid params'' (et (rq_Params req)) s
       | Inr (name, args) \<Rightarrow>
           if name = [] then writeError (rq_ID req) errInvalidParams ''invalid params'' ''tools/call: missing tool name'' s
           else
             (let a = bytesTrimSpace args in
              if a \<noteq> [] \<and> a \<noteq> ''null'' \<and> hd a \<noteq> CHR ''{''
              then writeError (rq_ID req) errInvalidParams ''invalid params'' ''tools/call: arguments must be an object'' s
              else (case callTool et bus name args (ms_bus s) of
                   (Inl (ArgError msg), b) \<Rightarrow> writeError (rq_ID req) errInvalidParams ''invalid params'' msg (s\<lparr>ms_bus := b\<rparr>)
                 | (Inl UnknownTool, b) \<Rightarrow> writeError (rq_ID req) errMethodNotFound ''unknown tool'' name (s\<lparr>ms_bus := b\<rparr>)
                 | (Inl (ToolFailure msg), b) \<Rightarrow> writeResult (rq_ID req) (Some (toolErrorResult msg)) (s\<lparr>ms_bus := b\<rparr>)
                 | (Inr res, b) \<Rightarrow> writeResult (rq_ID req) res (s\<lparr>ms_bus := b\<rparr>)))))"

definition mcp_dispatch :: "(bytes \<Rightarrow> string) \<Rightarrow> 'b Bus \<Rightarrow> bytes \<Rightarrow> 'b mcp_server \<Rightarrow> 'b mcp_server" where
  "mcp_dispatch et bus raw s =
     (case unmarshal_rpcRequest raw of
        Inl _ \<Rightarrow> writeError [] errParse ''parse error'' (et raw) s
      | Inr req \<Rightarrow>
          (let isNotification = (rq_ID req = []); m = rq_Method req in
           if m = ''initialize'' then handleInitialize req s
           else if m = ''notifications/initialized'' \<or> m = ''initialized'' then signalInitialized (s\<lparr>ms_initialized := True\<rparr>)
           else if m = ''ping'' then (if isNotification then s else writeResult (rq_ID req) (Some (print_map [])) s)
           else if m = ''tools/list'' then writeResult (rq_ID req) (Some (toolsListResult (ms_hideDrain s))) s
           else if m = ''tools/call'' then handleToolsCall et bus req s
           else if isNotification then s
           else writeError (rq_ID req) errMethodNotFound ''method not found'' m s))"

datatype serve_result = CleanEOF | Cancelled | ServeError read_error | ServePanic

lemma read_body_shorter: "read_body e n inp = (Message m, rest) \<Longrightarrow> length rest \<le> length inp"
  by (auto simp: read_body_def Let_def split: if_splits)

lemma readContentLengthFramed_shorter:
  "readContentLengthFramed e n inp = (Message m, rest) \<Longrightarrow> length rest < length inp"
proof (induction "length inp" arbitrary: n inp rule: less_induct)
  case less
  obtain line0 r ok where l: "read_line inp = (line0, r, ok)" using prod_cases3 by blast
  show ?case
  proof (cases ok)
    case True
    then have r: "length r < length inp" using length_read_line [OF l] by simp
    have step: "readContentLengthFramed e n' r = (Message m, rest) \<Longrightarrow> length rest < length inp" for n'
      using less.hyps [OF r, of n'] r by simp
    let ?line = "TrimRight line0 [CR, LF]"
    show ?thesis
    proof (cases "?line = []")
      case True
      with less.prems l \<open>ok\<close> have "read_body e n r = (Message m, rest)"
        by (simp add: readContentLengthFramed.simps [of e n inp])
      with read_body_shorter r show ?thesis by fastforce
    next
      case False
      with less.prems l \<open>ok\<close> have "\<exists>n'. readContentLengthFramed e n' r = (Message m, rest)"
        by (auto simp: readContentLengthFramed.simps [of e n inp] Let_def split: option.splits if_splits)
      with step show ?thesis by blast
    qed
  next
    case False
    with less.prems l show ?thesis by (simp add: readContentLengthFramed.simps [of e n inp])
  qed
qed

lemma readMessage_shorter: "readMessage e inp = (Message m, rest) \<Longrightarrow> length rest < length inp"
proof -
  assume a: "readMessage e inp = (Message m, rest)"
  let ?p = "\<lambda>c. c = LF \<or> c = CR"
  obtain c cs where c: "dropWhile ?p inp = c # cs" using a by (auto simp: readMessage_def split: list.splits)
  have len: "length (c # cs) \<le> length inp" using length_dropWhile_le [of ?p inp] c by simp
  obtain line r ok where l: "read_line (c # cs) = (line, r, ok)" using prod_cases3 by blast
  have "length r < length (c # cs)" using length_read_line [OF l] by simp
  then show ?thesis using a c l len readContentLengthFramed_shorter [of e "- 1" "c # cs" m rest]
    by (cases "c = CHR ''C''") (simp_all add: readMessage_def)
qed

text \<open>\<open>Serve\<close>: \<open>cancelled k\<close> tells whether the context is cancelled before the \<open>k\<close>-th message is dispatched.\<close>

function Serve :: "(bytes \<Rightarrow> string) \<Rightarrow> 'b Bus \<Rightarrow> (nat \<Rightarrow> bool) \<Rightarrow> nat \<Rightarrow> input_end \<Rightarrow> bytes \<Rightarrow> 'b mcp_server \<Rightarrow>
    serve_result \<times> 'b mcp_server" where
  "Serve et bus cancelled k e inp s =
     (if cancelled k then (Cancelled, s)
      else (case readMessage e inp of
         (ReadFail err, _) \<Rightarrow> (if err = EOF then CleanEOF else ServeError err, s)
       | (Panic, _) \<Rightarrow> (ServePanic, s)
       | (Message raw, rest) \<Rightarrow>
           Serve et bus cancelled (Suc k) e rest (if raw = [] then s else mcp_dispatch et bus raw s)))"
  by pat_completeness auto
termination
  by (relation "measure (\<lambda>(et, bus, cancelled, k, e, inp, s). length inp)") (auto dest: readMessage_shorter [OF sym])

declare Serve.simps [simp del]

section \<open>Both framings are read back\<close>

lemma print_nat_nonempty [simp]: "print_nat n \<noteq> []"
  by (subst print_nat.simps) simp

lemma print_nat_digits: "list_all is_digit (print_nat n)"
proof (induction n rule: print_nat.induct)
  case (1 n)
  moreover have "is_digit (char_of (48 + k))" if "k < 10" for k :: nat using that by (simp add: is_digit_def)
  ultimately show ?case by (subst print_nat.simps) auto
qed

lemma digits_value_print: "digits_value (print_nat n) = n"
proof (induction n rule: print_nat.induct)
  case (1 n)
  then show ?case by (subst print_nat.simps) (auto simp: digits_value_def)
qed

lemma digit_plain: "is_digit c \<Longrightarrow> c \<noteq> CHR ''-'' \<and> c \<noteq> CHR ''+'' \<and> c \<noteq> LF \<and> c \<noteq> CR \<and> c \<noteq> CHR '' ''"
  by (auto simp: is_digit_def LF_def CR_def)

lemma Atoi_print: "n < 2 ^ 63 \<Longrightarrow> Atoi (print_nat n) = Some (int n)"
proof -
  assume n: "n < 2 ^ 63"
  have "hd (print_nat n) \<noteq> CHR ''-''" "hd (print_nat n) \<noteq> CHR ''+''"
    using digit_plain [of "hd (print_nat n)"] print_nat_digits [of n] by (auto simp: list_all_iff)
  moreover have "int n < 2 ^ 63" using n by (simp add: less_imp_of_nat_less)
  ultimately show ?thesis using print_nat_digits [of n] by (auto simp: Atoi_def Let_def digits_value_print)
qed

text \<open>One message in either framing.\<close>

definition lsp_frame :: "bytes \<Rightarrow> bytes" where
  "lsp_frame m = ''Content-Length: '' @ print_nat (length m) @ [CR, LF, CR, LF] @ m"

definition line_frame :: "bytes \<Rightarrow> bytes" where
  "line_frame m = m @ [LF]"

definition line_ok :: "bytes \<Rightarrow> bool" where
  "line_ok m \<longleftrightarrow> m \<noteq> [] \<and> LF \<notin> set m \<and> hd m \<noteq> CHR ''C'' \<and> hd m \<noteq> CR \<and> last m \<noteq> CR"

lemma TrimRight_done: "xs = [] \<or> last xs \<notin> set cs \<Longrightarrow> set ys \<subseteq> set cs \<Longrightarrow> TrimRight (xs @ ys) cs = xs"
proof -
  assume a: "xs = [] \<or> last xs \<notin> set cs" "set ys \<subseteq> set cs"
  have "dropWhile (\<lambda>c. c \<in> set cs) (rev ys @ rev xs) = dropWhile (\<lambda>c. c \<in> set cs) (rev xs)"
    using a(2) by (intro dropWhile_append2) auto
  moreover have "dropWhile (\<lambda>c. c \<in> set cs) (rev xs) = rev xs"
    using a(1) by (cases xs rule: rev_cases) auto
  ultimately show ?thesis by (simp add: TrimRight_def)
qed

lemma read_line_found: "LF \<notin> set xs \<Longrightarrow> read_line (xs @ LF # rest) = (xs @ [LF], rest, True)"
proof -
  assume a: "LF \<notin> set xs"
  then have "dropWhile (\<lambda>c. c \<noteq> LF) (xs @ LF # rest) = LF # rest" "takeWhile (\<lambda>c. c \<noteq> LF) (xs @ LF # rest) = xs"
    by (simp_all add: dropWhile_append3 takeWhile_tail) (induction xs, auto)+
  then show ?thesis by (simp add: read_line_def)
qed

lemma readMessage_line: "line_ok m \<Longrightarrow> readMessage e (line_frame m @ rest) = (Message m, rest)"
proof -
  assume m: "line_ok m"
  then obtain c cs where c: "m = c # cs" by (cases m) (auto simp: line_ok_def)
  have "dropWhile (\<lambda>c. c = LF \<or> c = CR) (line_frame m @ rest) = m @ LF # rest"
    using m by (auto simp: c line_ok_def line_frame_def)
  moreover have "read_line (m @ LF # rest) = (m @ [LF], rest, True)" using m by (intro read_line_found) (simp add: line_ok_def)
  moreover have "last m \<noteq> LF" using m last_in_set [of m] by (metis line_ok_def)
  then have "last m \<notin> set [CR, LF]" using m by (simp add: line_ok_def)
  then have "TrimRight (m @ [LF]) [CR, LF] = m" by (intro TrimRight_done) simp_all
  ultimately show ?thesis using m by (simp add: readMessage_def c line_ok_def)
qed

lemma TrimSpace_digits:
  assumes "list_all is_digit ds" "ds \<noteq> []"
  shows "TrimSpace (CHR '' '' # ds) = ds"
proof -
  have plain: "find (\<lambda>w. take (length w) s = w) ws = None" if "s \<noteq> []" "is_digit (hd s)" "\<forall>w\<in>set ws. w \<noteq> [] \<and> \<not> is_digit (hd w)" for s ws
    using that by (simp add: find_None_iff) (metis hd_take length_greater_0_conv)
  have ws: "\<forall>w\<in>set space_runes. w \<noteq> [] \<and> \<not> is_digit (hd w)" "\<forall>w\<in>set (map rev space_runes). w \<noteq> [] \<and> \<not> is_digit (hd w)"
    by code_simp+
  have l: "strip_left n space_runes ds = ds" for n using assms ws(1) by (intro strip_left_id plain) (auto simp: list_all_iff)
  have r: "strip_left n (map rev space_runes) (rev ds) = rev ds" for n
    using assms ws(2) by (intro strip_left_id plain) (auto simp: list_all_iff hd_rev)
  have "find (\<lambda>w. take (length w) (CHR '' '' # ds) = w) space_runes = Some [CHR '' '']" by (simp add: space_runes_def)
  then show ?thesis by (simp add: TrimSpace_def trim_left_def trim_right_def l r)
qed

lemma readMessage_lsp:
  assumes "length m \<le> maxAlloc"
  shows "readMessage e (lsp_frame m @ rest) = (Message m, rest)"
proof -
  let ?n = "print_nat (length m)" and ?hdr = "''Content-Length: ''"
  have d: "list_all is_digit ?n" by (rule print_nat_digits)
  have ld: "is_digit (last ?n)" using d by (simp add: list_all_iff)
  have nd: "\<not> is_digit LF" "\<not> is_digit CR" "\<not> is_digit (CHR '':'')" by code_simp+
  from nd d have plain: "LF \<notin> set ?n" "CHR '':'' \<notin> set ?n" by (auto simp: list_all_iff)
  from nd ld have plain3: "last ?n \<notin> set [CR, LF]" by (metis empty_iff insert_iff list.set)
  have inp: "lsp_frame m @ rest = (?hdr @ ?n @ [CR]) @ LF # [CR] @ LF # m @ rest" by (simp add: lsp_frame_def)
  have l1: "read_line (lsp_frame m @ rest) = ((?hdr @ ?n @ [CR]) @ [LF], [CR] @ LF # m @ rest, True)"
    unfolding inp by (rule read_line_found) (use plain in \<open>simp add: LF_def CR_def\<close>)
  have l2: "read_line ([CR] @ LF # m @ rest) = ([CR] @ [LF], m @ rest, True)"
    by (rule read_line_found) (simp add: LF_def CR_def)
  have t1: "TrimRight ((?hdr @ ?n @ [CR]) @ [LF]) [CR, LF] = ?hdr @ ?n"
    using TrimRight_done [of "?hdr @ ?n" "[CR, LF]" "[CR, LF]"] plain3 by simp
  have t2: "TrimRight ([CR] @ [LF]) [CR, LF] = []" using TrimRight_done [of "[]" "[CR, LF]" "[CR, LF]"] by simp
  have c: "cut_at (CHR '':'') (?hdr @ ?n) = Some (''Content-Length'', CHR '' '' # ?n)" by (simp add: cut_at_iff)
  have k: "content_length_key ''Content-Length''" by code_simp
  have "length m < 2 ^ 63" using assms by (simp add: maxAlloc_def)
  then have a: "Atoi (TrimSpace (CHR '' '' # ?n)) = Some (int (length m))" by (simp add: TrimSpace_digits [OF d] Atoi_print)
  have b: "readContentLengthFramed e (int (length m)) ([CR] @ LF # m @ rest) = (Message m, rest)"
    unfolding readContentLengthFramed.simps [of e _ "[CR] @ LF # m @ rest"] l2 using t2 assms by (simp add: read_body_def)
  have "readContentLengthFramed e (- 1) (lsp_frame m @ rest) = (Message m, rest)"
    unfolding readContentLengthFramed.simps [of e "- 1" "lsp_frame m @ rest"] l1
    using t1 c k a b by (simp add: Let_def)
  moreover have "\<exists>cs. lsp_frame m @ rest = CHR ''C'' # cs" by (simp add: lsp_frame_def)
  ultimately show ?thesis by (auto simp: readMessage_def LF_def CR_def)
qed

text \<open>A stream of messages, each in the framing its host prefers.\<close>

datatype framing = Line | Lsp

fun framed :: "framing \<times> bytes \<Rightarrow> bytes" where
  "framed (Line, m) = line_frame m"
| "framed (Lsp, m) = lsp_frame m"

fun frameable :: "framing \<times> bytes \<Rightarrow> bool" where
  "frameable (Line, m) = line_ok m"
| "frameable (Lsp, m) = (m \<noteq> [] \<and> length m \<le> maxAlloc)"

lemma readMessage_framed: "frameable fm \<Longrightarrow> readMessage e (framed fm @ rest) = (Message (snd fm), rest) \<and> snd fm \<noteq> []"
  by (cases fm; cases "fst fm") (auto simp: readMessage_line readMessage_lsp line_ok_def)

lemma Serve_framed:
  assumes "list_all frameable fms"
  shows "Serve et bus (\<lambda>_. False) k InputEOF (concat (map framed fms)) s = (CleanEOF, fold (mcp_dispatch et bus) (map snd fms) s)"
  using assms
proof (induction fms arbitrary: k s)
  case Nil
  then show ?case by (simp add: Serve.simps readMessage_def end_error_def)
next
  case (Cons fm fms)
  then have "readMessage InputEOF (framed fm @ concat (map framed fms)) = (Message (snd fm), concat (map framed fms))" "snd fm \<noteq> []"
    using readMessage_framed by auto
  then show ?case using Cons by (simp add: Serve.simps [of et bus "\<lambda>_. False" k "InputEOF" "framed fm @ concat (map framed fms)"])
qed

section \<open>What the server writes\<close>

text \<open>No printer and no compaction emits a line feed, so every answer is one line.\<close>

named_theorems one_line

lemma scan_step_LF: "scan_step m LF s = (s', op) \<Longrightarrow> op = ScanError \<or> op = ScanSkipSpace \<or> op = ScanEnd"
  by (cases s; cases "fst s")
    (auto simp: LF_def step_defs isSpace_def is_hex_def hex_value_def is_digit_def is_digit19_def split: if_splits
      elim!: end_value.elims end_top.elims)

lemma hex_digit_LF: "hex_digit n \<noteq> LF"
proof -
  have "list_all (\<lambda>k. hex_digit k \<noteq> LF) [0..<16]" by (simp add: upt_rec hex_digit_def LF_def)
  moreover have "n mod 16 \<in> set [0..<16]" by simp
  ultimately have "hex_digit (n mod 16) \<noteq> LF" unfolding list_all_iff by blast
  then show ?thesis by (simp add: hex_digit_def)
qed

lemma u_escape_LF [one_line]: "LF \<notin> set (u_escape c)"
  using hex_digit_LF [of "byte c div 16"] hex_digit_LF [of "byte c mod 16"] by (auto simp: u_escape_def LF_def)

lemma escape_2028_LF [one_line]: "LF \<notin> set (escape_2028 bs)"
  using hex_digit_LF [of "byte (bs ! 2) mod 16"] by (auto simp: escape_2028_def LF_def)

lemma compact_from_LF: "compact_from m k s bs = Some v \<Longrightarrow> LF \<notin> set v"
proof (induction m k s bs arbitrary: v rule: compact_from.induct)
  case (2 m k s c cs)
  obtain s' op where st: "scan_step m c s = (s', op)" by fastforce
  note IH = "2.IH" [OF st [symmetric]]
  have "c \<noteq> LF" if "op \<noteq> ScanError" "op \<noteq> ScanSkipSpace" "op \<noteq> ScanEnd" using scan_step_LF [of m s s' op] st that by auto
  with "2.prems" st IH u_escape_LF [of c] escape_2028_LF [of "c # cs"] show ?case
    by (auto split: if_splits)
qed (simp split: if_splits)

lemma marshal_raw_LF [one_line]: "marshal_raw b = Some v \<Longrightarrow> LF \<notin> set v"
  by (auto simp: marshal_raw_def json_compact_def json_compact_at_def LF_def split: if_splits dest: compact_from_LF [unfolded LF_def])

lemma quote_ascii_LF: "LF \<notin> set (quote_ascii c)"
  using u_escape_LF [of c] by (auto simp: quote_ascii_def LF_def)

lemma json_quote_LF [one_line]: "LF \<notin> set (json_quote t)"
proof -
  have "LF \<notin> set (quote_body t)"
  proof (induction t rule: quote_body.induct)
    case (2 c cs)
    show ?case
    proof (cases "byte c < 128")
      case True
      then show ?thesis using "2.IH"(1) quote_ascii_LF by simp
    next
      case False
      show ?thesis
      proof (cases "utf8_len (c # cs)")
        case None
        then show ?thesis using False "2.IH"(2) [OF False None] by (simp add: ufffd_def LF_def del: utf8_len.simps)
      next
        case (Some n)
        have "LF \<notin> set (take n (c # cs))" using utf8_len_bytes [OF Some, of LF] False by (auto simp: LF_def)
        then show ?thesis using False Some "2.IH"(3) [OF False Some] escape_2028_LF [of "c # cs"] by (simp del: utf8_len.simps)
      qed
    qed
  qed simp
  then show ?thesis by (simp add: json_quote_def LF_def)
qed

lemma join_comma_LF: "list_all (\<lambda>v. LF \<notin> set v) vs \<Longrightarrow> LF \<notin> set (join_comma vs)"
  by (induction vs rule: induct_list012) (auto simp: LF_def)

lemma print_object_LF [one_line]: "list_all (\<lambda>kv. LF \<notin> set (snd kv)) kvs \<Longrightarrow> LF \<notin> set (print_object kvs)"
proof -
  assume a: "list_all (\<lambda>kv. LF \<notin> set (snd kv)) kvs"
  have "list_all (\<lambda>v. LF \<notin> set v) (map print_member kvs)"
    using a json_quote_LF by (auto simp: list_all_iff print_member_def LF_def)
  from join_comma_LF [OF this] show ?thesis by (simp add: print_object_def LF_def)
qed

lemma print_map_LF [one_line]: "list_all (\<lambda>kv. LF \<notin> set (snd kv)) kvs \<Longrightarrow> LF \<notin> set (print_map kvs)"
  unfolding print_map_def by (rule print_object_LF) (simp add: list_all_iff)

lemma print_array_LF [one_line]: "list_all (\<lambda>v. LF \<notin> set v) vs \<Longrightarrow> LF \<notin> set (print_array vs)"
  using join_comma_LF [of vs] by (simp add: print_array_def LF_def)

lemma print_bool_LF [one_line]: "LF \<notin> set (print_bool b)"
  by (simp add: print_bool_def LF_def)

lemma print_int_LF [one_line]: "LF \<notin> set (print_int i)"
proof -
  have "\<not> is_digit LF" by code_simp
  with print_nat_digits have "LF \<notin> set (print_nat n)" for n unfolding list_all_iff by blast
  moreover have "LF \<noteq> CHR ''-''" by (simp add: LF_def)
  ultimately show ?thesis by (simp add: print_int_def)
qed

lemma text_content_LF [one_line]: "LF \<notin> set (text_content t)"
  by (simp add: text_content_def one_line)

lemma rpc_id_LF: "rpc_id i = Some idf \<Longrightarrow> list_all (\<lambda>kv. LF \<notin> set (snd kv)) idf"
  by (auto simp: rpc_id_def one_line split: if_splits)

lemma marshal_result_LF [one_line]: "marshal_result i r = Some b \<Longrightarrow> (\<And>v. r = Some v \<Longrightarrow> LF \<notin> set v) \<Longrightarrow> LF \<notin> set b"
  by (auto simp: marshal_result_def one_line rpc_id_LF split: option.splits)

lemma marshal_error_LF [one_line]: "marshal_error i c m d = Some b \<Longrightarrow> LF \<notin> set b"
  by (auto simp: marshal_error_def one_line rpc_id_LF)

lemma marshal_failure_LF [one_line]: "LF \<notin> set marshal_failure"
proof -
  have "LF \<notin> set ''null''" by (simp add: LF_def)
  then show ?thesis by (simp add: marshal_failure_def one_line)
qed

lemma toolResult_LF [one_line]: "toolResult v = Some b \<Longrightarrow> (\<And>u. v = Some u \<Longrightarrow> LF \<notin> set u) \<Longrightarrow> LF \<notin> set b"
  by (auto simp: toolResult_def Let_def one_line)

lemma toolErrorResult_LF [one_line]: "LF \<notin> set (toolErrorResult t)"
  by (simp add: toolErrorResult_def one_line)

lemma schema_LF [one_line]: "LF \<notin> set (str_prop t d)"
  "LF \<notin> set sch \<Longrightarrow> LF \<notin> set (tool_entry n d sch)"
  "list_all (\<lambda>kv. LF \<notin> set (snd kv)) ps \<Longrightarrow> LF \<notin> set (input_schema ps req)"
  by (auto simp: str_prop_def tool_entry_def input_schema_def list_all_iff one_line intro!: print_map_LF print_array_LF split: option.splits)

lemma toolsListResult_LF [one_line]: "LF \<notin> set (toolsListResult h)"
  by (simp add: toolsListResult_def Let_def one_line)

lemma marshal_inbound_LF [one_line]: "marshal_inbound m = Some b \<Longrightarrow> LF \<notin> set b"
  by (auto simp: marshal_inbound_def one_line)

lemma callTool_LF: "callTool et bus name args b = (Inr (Some r), b') \<Longrightarrow> LF \<notin> set r"
proof -
  have "list_all (\<lambda>x. x \<noteq> None) (map marshal_inbound ms) \<Longrightarrow> list_all (\<lambda>v. LF \<notin> set v) (map the (map marshal_inbound ms))" for ms
    by (auto simp: list_all_iff one_line)
  then show "callTool et bus name args b = (Inr (Some r), b') \<Longrightarrow> LF \<notin> set r"
    by (auto simp: callTool_def Let_def one_line list_all_iff elim!: toolResult_LF split: if_splits sum.splits prod.splits option.splits)
qed

text \<open>A written line is its content and one line feed at the end.\<close>

definition lines_ok :: "'b mcp_server \<Rightarrow> bool" where
  "lines_ok s \<longleftrightarrow> list_all (\<lambda>l. l \<noteq> [] \<and> last l = LF \<and> LF \<notin> set (butlast l)) (ms_out s)"

lemma write_line_ok: "LF \<notin> set b \<Longrightarrow> lines_ok s \<Longrightarrow> lines_ok (write_line b s)"
  by (simp add: lines_ok_def write_line_def)

lemma writeResult_ok: "(\<And>v. r = Some v \<Longrightarrow> LF \<notin> set v) \<Longrightarrow> lines_ok s \<Longrightarrow> lines_ok (writeResult i r s)"
  using marshal_result_LF [of i r] unfolding writeResult_def write_response_def
  by (intro write_line_ok) (auto simp: one_line split: option.split)

lemma writeResult_Some_ok: "LF \<notin> set v \<Longrightarrow> lines_ok s \<Longrightarrow> lines_ok (writeResult i (Some v) s)"
  by (rule writeResult_ok) simp_all

lemma writeError_ok: "lines_ok s \<Longrightarrow> lines_ok (writeError i c m d s)"
  using marshal_error_LF [of i c m d] unfolding writeError_def write_response_def
  by (intro write_line_ok) (auto simp: one_line split: option.split)

lemma lines_ok_state [simp]: "lines_ok (s\<lparr>ms_bus := b\<rparr>) = lines_ok s" "lines_ok (s\<lparr>ms_initialized := i\<rparr>) = lines_ok s"
  "lines_ok (signalInitialized s) = lines_ok s"
  by (simp_all add: lines_ok_def signalInitialized_def)

lemma handleInitialize_ok: "lines_ok s \<Longrightarrow> lines_ok (handleInitialize req s)"
  by (simp add: handleInitialize_def Let_def writeResult_Some_ok one_line)

lemma handleToolsCall_ok: "lines_ok s \<Longrightarrow> lines_ok (handleToolsCall et bus req s)"
  unfolding handleToolsCall_def Let_def
  by (auto split: sum.splits prod.splits tool_error.splits intro!: writeError_ok writeResult_ok
      simp: toolErrorResult_LF dest: callTool_LF)

lemma dispatch_ok: "lines_ok s \<Longrightarrow> lines_ok (mcp_dispatch et bus raw s)"
  by (auto simp: mcp_dispatch_def Let_def handleInitialize_ok handleToolsCall_ok writeError_ok writeResult_Some_ok one_line split: sum.split)

lemma Serve_ok: "lines_ok s \<Longrightarrow> lines_ok (snd (Serve et bus cancelled k e inp s))"
proof (induction et bus cancelled k e inp s rule: Serve.induct)
  case (1 et bus cancelled k e inp s)
  obtain o' rest where r: "readMessage e inp = (o', rest)" by fastforce
  show ?case
  proof (cases "cancelled k")
    case False
    note IH = "1.IH" [OF False r [symmetric]]
    show ?thesis
    proof (cases o')
      case (Message raw)
      then have "lines_ok (snd (Serve et bus cancelled (Suc k) e rest (if raw = [] then s else mcp_dispatch et bus raw s)))"
        using IH "1.prems" by (simp add: dispatch_ok)
      then show ?thesis using r False Message by (simp add: Serve.simps [of et bus cancelled k e inp s])
    qed (use r False "1.prems" in \<open>simp_all add: Serve.simps [of et bus cancelled k e inp s]\<close>)
  qed (simp add: Serve.simps "1.prems")
qed

section \<open>What the server answers\<close>

text \<open>Which messages are answered, by the rules of JSON-RPC and the two methods answered in any case.\<close>

definition expects_answer :: "bytes \<Rightarrow> bool" where
  "expects_answer raw =
     (case unmarshal_rpcRequest raw of
        Inl _ \<Rightarrow> True
      | Inr req \<Rightarrow>
          if rq_Method req \<in> {''notifications/initialized'', ''initialized''} then False
          else rq_ID req \<noteq> [] \<or> rq_Method req \<in> {''initialize'', ''tools/list''})"

definition request_id :: "bytes \<Rightarrow> bytes" where
  "request_id raw = (case unmarshal_rpcRequest raw of Inl _ \<Rightarrow> [] | Inr req \<Rightarrow> rq_ID req)"

text \<open>A response to the request with the given id, or the fixed line for a response that cannot be encoded.\<close>

definition response_to :: "bytes \<Rightarrow> bytes \<Rightarrow> bool" where
  "response_to i b \<longleftrightarrow> b = marshal_failure \<or>
     (\<exists>idf k v. rpc_id i = Some idf \<and> k \<in> {''result'', ''error''} \<and>
        b = print_object ([(''jsonrpc'', json_quote ''2.0'')] @ idf @ [(k, v)]))"

definition answered :: "bytes \<Rightarrow> 'b mcp_server \<Rightarrow> 'b mcp_server \<Rightarrow> bool" where
  "answered i s s' \<longleftrightarrow> (\<exists>b. ms_out s' = ms_out s @ [b @ [LF]] \<and> response_to i b)"

lemma writeResult_answered: "answered i s (writeResult i r s)"
  by (auto simp: answered_def writeResult_def write_response_def write_line_def response_to_def marshal_result_def
      split: option.split)

lemma writeError_answered: "answered i s (writeError i c m d s)"
  by (auto simp: answered_def writeError_def write_response_def write_line_def response_to_def marshal_error_def
      split: option.split)

lemma answered_after_call: "answered i s (writeResult i r (s\<lparr>ms_bus := b\<rparr>))" "answered i s (writeError i c m d (s\<lparr>ms_bus := b\<rparr>))"
  using writeResult_answered [of i "s\<lparr>ms_bus := b\<rparr>" r] writeError_answered [of i "s\<lparr>ms_bus := b\<rparr>" c m d]
  by (simp_all add: answered_def)

lemma handleInitialize_answered: "answered (rq_ID req) s (handleInitialize req s)"
  by (simp add: handleInitialize_def Let_def writeResult_answered)

lemma handleToolsCall_answered: "rq_ID req \<noteq> [] \<Longrightarrow> answered (rq_ID req) s (handleToolsCall et bus req s)"
  by (auto simp: handleToolsCall_def Let_def writeError_answered answered_after_call split: sum.splits prod.splits tool_error.splits)

lemma handleToolsCall_no_id: "rq_ID req = [] \<Longrightarrow> handleToolsCall et bus req s = s"
  by (simp add: handleToolsCall_def)

lemma dispatch_answers:
  "if expects_answer raw then answered (request_id raw) s (mcp_dispatch et bus raw s)
   else ms_out (mcp_dispatch et bus raw s) = ms_out s"
  by (auto simp: expects_answer_def request_id_def mcp_dispatch_def Let_def writeError_answered writeResult_answered
      handleInitialize_answered handleToolsCall_answered handleToolsCall_no_id signalInitialized_def split: sum.split)

section \<open>What the server does to the bus\<close>

datatype bus_call = CallSend string bytes | CallBroadcast bytes | CallPeers | CallDrain

fun run_call :: "'b Bus \<Rightarrow> bus_call \<Rightarrow> 'b \<Rightarrow> 'b" where
  "run_call bus (CallSend to body) b = snd (bus_Send bus to body b)"
| "run_call bus (CallBroadcast body) b = snd (bus_Broadcast bus body b)"
| "run_call bus CallPeers b = snd (bus_Peers bus b)"
| "run_call bus CallDrain b = snd (bus_Drain bus b)"

definition send_args :: "bytes \<Rightarrow> string \<times> bytes" where
  "send_args args = (case unmarshalArgs (\<lambda>_. []) (dec_struct upd_send_args) args ([], []) of Inl _ \<Rightarrow> ([], []) | Inr a \<Rightarrow> a)"

definition broadcast_arg :: "bytes \<Rightarrow> bytes" where
  "broadcast_arg args = (case unmarshalArgs (\<lambda>_. []) (dec_struct upd_broadcast_args) args [] of Inl _ \<Rightarrow> [] | Inr a \<Rightarrow> a)"

text \<open>The calls of the bus that the tool of the given name makes with the given arguments.\<close>

definition tool_calls :: "string \<Rightarrow> bytes \<Rightarrow> bus_call list" where
  "tool_calls name args =
     (if name = ''bus.send'' then
        (case send_args args of (to, body) \<Rightarrow> if to = [] \<or> body = [] then [] else [CallSend to body])
      else if name = ''bus.broadcast'' then (if broadcast_arg args = [] then [] else [CallBroadcast (broadcast_arg args)])
      else if name = ''bus.peers'' then [CallPeers]
      else if name = ''bus.drain'' then [CallDrain]
      else [])"

definition object_like :: "bytes \<Rightarrow> bool" where
  "object_like args = (let a = bytesTrimSpace args in a = [] \<or> a = ''null'' \<or> hd a = CHR ''{'')"

definition requested_calls :: "bytes \<Rightarrow> bus_call list" where
  "requested_calls raw =
     (case unmarshal_rpcRequest raw of
        Inl _ \<Rightarrow> []
      | Inr req \<Rightarrow>
          if rq_Method req \<noteq> ''tools/call'' \<or> rq_ID req = [] then []
          else (case unmarshal (dec_struct upd_call) ([], []) (rq_Params req) of
              Inl _ \<Rightarrow> []
            | Inr (name, args) \<Rightarrow> if object_like args then tool_calls name args else []))"

lemma callTool_calls: "snd (callTool et bus name args b) = fold (run_call bus) (tool_calls name args) b"
proof -
  have s: "send_args args = (case unmarshalArgs et (dec_struct upd_send_args) args ([], []) of Inl _ \<Rightarrow> ([], []) | Inr a \<Rightarrow> a)"
    and r: "broadcast_arg args = (case unmarshalArgs et (dec_struct upd_broadcast_args) args [] of Inl _ \<Rightarrow> [] | Inr a \<Rightarrow> a)"
    by (auto simp: send_args_def broadcast_arg_def unmarshalArgs_def split: sum.split)
  show ?thesis
    by (auto simp: callTool_def tool_calls_def Let_def s r split: sum.split prod.split)
qed

lemma ms_bus_write [simp]: "ms_bus (writeResult i r s) = ms_bus s" "ms_bus (writeError i c m d s) = ms_bus s"
  by (simp_all add: writeResult_def writeError_def write_response_def write_line_def)

lemma callTool_bus: "callTool et bus name args b = (r, b') \<Longrightarrow> b' = fold (run_call bus) (tool_calls name args) b"
  using callTool_calls [of et bus name args b] by simp

lemma handleToolsCall_bus:
  assumes "rq_ID req \<noteq> []"
  shows "ms_bus (handleToolsCall et bus req s) =
      (case unmarshal (dec_struct upd_call) ([], []) (rq_Params req) of
         Inl _ \<Rightarrow> ms_bus s
       | Inr (name, args) \<Rightarrow> fold (run_call bus) (if object_like args then tool_calls name args else []) (ms_bus s))"
proof -
  have "tool_calls [] args = []" for args by (simp add: tool_calls_def)
  with assms show ?thesis
    by (auto simp: handleToolsCall_def Let_def object_like_def dest: callTool_bus split: sum.split prod.split tool_error.split)
qed

lemma dispatch_bus: "ms_bus (mcp_dispatch et bus raw s) = fold (run_call bus) (requested_calls raw) (ms_bus s)"
  by (auto simp: mcp_dispatch_def requested_calls_def handleInitialize_def Let_def signalInitialized_def
        handleToolsCall_no_id handleToolsCall_bus split: sum.split prod.split)

lemma fold_dispatch_bus:
  "ms_bus (fold (mcp_dispatch et bus) raws s) = fold (run_call bus) (concat (map requested_calls raws)) (ms_bus s)"
  by (induction raws arbitrary: s) (simp_all add: dispatch_bus)

text \<open>What the server relies on when a bus keeps some relation between its states: every call but the drain does,
  so every message that requests no drain does.\<close>

locale bus_keeps =
  fixes bus :: "'b Bus" and rel :: "'b \<Rightarrow> 'b \<Rightarrow> bool"
  assumes rel_refl: "rel b b"
    and rel_trans: "rel b b1 \<Longrightarrow> rel b1 b2 \<Longrightarrow> rel b b2"
    and send_rel: "rel b (snd (bus_Send bus to body b))"
    and broadcast_rel: "rel b (snd (bus_Broadcast bus body b))"
    and peers_rel: "rel b (snd (bus_Peers bus b))"
begin

lemma call_rel: "call \<noteq> CallDrain \<Longrightarrow> rel b (run_call bus call b)"
  by (cases call) (simp_all add: send_rel broadcast_rel peers_rel)

lemma calls_rel: "CallDrain \<notin> set calls \<Longrightarrow> rel b (fold (run_call bus) calls b)"
proof (induction calls arbitrary: b)
  case (Cons call calls)
  then have "rel b (run_call bus call b)" "rel (run_call bus call b) (fold (run_call bus) calls (run_call bus call b))"
    by (auto intro: call_rel)
  from rel_trans [OF this] show ?case by simp
qed (simp add: rel_refl)

lemma dispatch_rel: "CallDrain \<notin> set (requested_calls raw) \<Longrightarrow> rel (ms_bus s) (ms_bus (mcp_dispatch et bus raw s))"
  by (simp add: dispatch_bus calls_rel)

end

text \<open>When the drain keeps it too, every message does.\<close>

locale bus_keeps_all = bus_keeps +
  assumes drain_rel: "rel b (snd (bus_Drain bus b))"
begin

lemma any_call_rel: "rel b (run_call bus call b)"
  using call_rel drain_rel by (cases "call = CallDrain") simp_all

lemma any_dispatch_rel: "rel (ms_bus s) (ms_bus (mcp_dispatch et bus raw s))"
proof -
  have "rel b (fold (run_call bus) calls b)" for b calls
  proof (induction calls arbitrary: b)
    case (Cons call calls)
    from rel_trans [OF any_call_rel Cons.IH] show ?case by simp
  qed (simp add: rel_refl)
  then show ?thesis by (simp add: dispatch_bus)
qed

end

text \<open>A host's request to send a message, and that it is understood as one.\<close>

definition send_request :: "bytes \<Rightarrow> string \<Rightarrow> bytes \<Rightarrow> bytes" where
  "send_request i to body = print_object [(''jsonrpc'', json_quote ''2.0''), (''id'', i), (''method'', json_quote ''tools/call''),
     (''params'', print_object [(''name'', json_quote ''bus.send''),
        (''arguments'', print_object [(''to'', json_quote to), (''body'', body)])])]"

lemma utf8_names: "list_all valid_utf8 [''jsonrpc'', ''id'', ''method'', ''params'', ''name'', ''arguments'', ''to'', ''body'', ''2.0'',
    ''tools/call'', ''bus.send'']"
  by (simp add: valid_utf8_ascii)

lemma requested_send:
  assumes "json_text m i" "json_text m body" "valid_utf8 to" "to \<noteq> []" "m + 3 \<le> maxNestingDepth"
  shows "requested_calls (send_request i to body) = [CallSend to body]"
proof -
  let ?args = "print_object [(''to'', json_quote to), (''body'', body)]"
  let ?params = "print_object [(''name'', json_quote ''bus.send''), (''arguments'', ?args)]"
  have ne: "i \<noteq> []" "body \<noteq> []" using json_text_head assms(1,2) by blast+
  have a: "json_text (m + 1) ?args" using json_text_object [of m] assms by simp
  have p: "json_text (m + 2) ?params" using json_text_object [of "m + 1"] a by simp
  have i: "json_text (m + 2) i" using json_text_mono [OF assms(1)] by simp
  have ra: "unmarshal (dec_struct upd_send_args) ([], []) ?args = Inr (to, body)"
    using assms utf8_names by (subst unmarshal_print [of m])
      (simp_all add: upd_send_args_def field_raws_def find_field_def dec_raw_def Let_def del: dec_string.simps(2))
  have rp: "unmarshal (dec_struct upd_call) ([], []) ?params = Inr (''bus.send'', ?args)"
    using assms a utf8_names by (subst unmarshal_print [of "m + 1"])
      (simp_all add: upd_call_def field_raws_def find_field_def dec_raw_def Let_def del: dec_string.simps(2))
  have rr: "unmarshal_rpcRequest (send_request i to body) =
      Inr \<lparr>rq_JSONRPC = ''2.0'', rq_ID = i, rq_Method = ''tools/call'', rq_Params = ?params\<rparr>"
    unfolding unmarshal_rpcRequest_def send_request_def
    using assms i p utf8_names by (subst unmarshal_print [of "m + 2"])
      (simp_all add: upd_rpcRequest_def rpcRequest_names_def field_raws_def find_field_def dec_raw_def Let_def del: dec_string.simps(2))
  have "object_like ?args" "?args \<noteq> []" "?args \<noteq> ''null''"
    by (simp_all add: object_like_def bytesTrimSpace_def print_object_def LF_def CR_def)
  then show ?thesis using ne assms(4) ra rp rr
    by (simp add: requested_calls_def tool_calls_def send_args_def unmarshalArgs_def)
qed

section \<open>The handshake signal\<close>

text \<open>The goroutine that serves the host dispatches messages while another asks for the channel.\<close>

datatype mcp_event = Dispatched bytes | Asked

fun mcp_event_step :: "(bytes \<Rightarrow> string) \<Rightarrow> 'b Bus \<Rightarrow> mcp_event \<Rightarrow> 'b mcp_server \<Rightarrow> 'b mcp_server" where
  "mcp_event_step et bus (Dispatched raw) s = mcp_dispatch et bus raw s"
| "mcp_event_step et bus Asked s = snd (Initialized s)"

fun signals_initialized :: "mcp_event \<Rightarrow> bool" where
  "signals_initialized (Dispatched raw) =
     (case unmarshal_rpcRequest raw of
        Inl _ \<Rightarrow> False
      | Inr req \<Rightarrow> rq_Method req = ''notifications/initialized'' \<or> rq_Method req = ''initialized'')"
| "signals_initialized Asked = False"

definition init_inv :: "bool \<Rightarrow> 'b mcp_server \<Rightarrow> bool" where
  "init_inv i s \<longleftrightarrow> ms_initialized s = i \<and> ms_initializedOnce s = i \<and> \<not> ms_panicked s \<and> ms_initializedCh s \<in> {None, Some i}"

lemma init_inv_write [simp]: "init_inv i (writeResult d r s) = init_inv i s" "init_inv i (writeError d c m x s) = init_inv i s"
  "init_inv i (s\<lparr>ms_bus := b\<rparr>) = init_inv i s"
  by (simp_all add: init_inv_def writeResult_def writeError_def write_response_def write_line_def)

lemma init_inv_call [simp]: "init_inv i (handleToolsCall et bus req s) = init_inv i s" "init_inv i (handleInitialize req s) = init_inv i s"
  by (auto simp: handleToolsCall_def handleInitialize_def Let_def split: sum.split prod.split tool_error.split)

lemma init_inv_step: "init_inv i s \<Longrightarrow> init_inv (i \<or> signals_initialized ev) (mcp_event_step et bus ev s)"
proof (cases ev)
  case (Dispatched raw)
  assume "init_inv i s"
  then have "init_inv True (signalInitialized (s\<lparr>ms_initialized := True\<rparr>))"
    by (auto simp: init_inv_def signalInitialized_def)
  with \<open>init_inv i s\<close> Dispatched show ?thesis by (auto simp: mcp_dispatch_def Let_def split: sum.split)
qed (auto simp: init_inv_def Initialized_def Let_def)

lemma init_inv_run: "init_inv i s \<Longrightarrow> init_inv (i \<or> list_ex signals_initialized evs) (fold (mcp_event_step et bus) evs s)"
proof (induction evs arbitrary: i s)
  case (Cons ev evs)
  then show ?case using Cons.IH [OF init_inv_step [OF Cons.prems, of ev et bus]] by (simp add: disj_assoc)
qed simp

section \<open>Properties\<close>

text \<open>C23: the MCP server reads a stream of messages, each framed as a line or with a \<open>Content-Length\<close>
  header, in any mixture: \<open>Serve\<close> dispatches exactly those messages, in order, and ends with the
  clean end of the input.\<close>

theorem serve_reads_both_framings:
  assumes "list_all frameable fms"
  shows "Serve et bus (\<lambda>_. False) 0 InputEOF (concat (map framed fms)) s = (CleanEOF, fold (mcp_dispatch et bus) (map snd fms) s)"
  using assms by (rule Serve_framed)

definition idle_bus :: "nat Bus" where
  "idle_bus = \<lparr>bus_Send = \<lambda>to body n. (Inr (), Suc n), bus_Broadcast = \<lambda>body n. (Inr (), Suc n),
     bus_Peers = \<lambda>n. (Inr (''me'', None), n), bus_Drain = \<lambda>n. (Inr None, n)\<rparr>"

definition demo_ping :: bytes where
  "demo_ping = print_object [(''jsonrpc'', json_quote ''2.0''), (''id'', ''7''), (''method'', json_quote ''ping'')]"

definition demo_send :: bytes where
  "demo_send = send_request ''8'' ''bob'' ''[1]''"

lemma demo_ping_calls: "requested_calls demo_ping = []"
proof -
  have "valid_utf8 ''ping''" "json_text 2 ''7''" by code_simp+
  then have "unmarshal_rpcRequest demo_ping = Inr \<lparr>rq_JSONRPC = ''2.0'', rq_ID = ''7'', rq_Method = ''ping'', rq_Params = []\<rparr>"
    unfolding unmarshal_rpcRequest_def demo_ping_def using utf8_names by (subst unmarshal_print [of 2])
      (simp_all add: upd_rpcRequest_def rpcRequest_names_def field_raws_def find_field_def dec_raw_def Let_def maxNestingDepth_def
        del: dec_string.simps(2))
  then show ?thesis by (simp add: requested_calls_def)
qed

lemma demo_frameable: "list_all frameable [(Line, demo_ping), (Lsp, demo_send)]"
proof -
  have "length demo_send \<le> 200" by code_simp
  then have "length demo_send \<le> maxAlloc" by (simp add: maxAlloc_def)
  moreover have "line_ok demo_ping" "demo_send \<noteq> []" by code_simp+
  ultimately show ?thesis by simp
qed

theorem serve_reads_both_framings_witness:
  "Serve (\<lambda>_. []) idle_bus (\<lambda>_. False) 0 InputEOF (concat (map framed [(Line, demo_ping), (Lsp, demo_send)])) (NewMcpServer 0) =
    (CleanEOF, fold (mcp_dispatch (\<lambda>_. []) idle_bus) [demo_ping, demo_send] (NewMcpServer 0))"
  using serve_reads_both_framings [OF demo_frameable, of "\<lambda>_. []" idle_bus "NewMcpServer 0"] by simp

text \<open>Whatever the host sends, and whenever the server is cancelled, every response the server writes
  is one line: it ends in a line feed and has none before it.\<close>

theorem responses_are_lines: "lines_ok (snd (Serve et bus cancelled k e inp (NewMcpServer b)))"
  by (rule Serve_ok) (simp add: lines_ok_def NewMcpServer_def)


text \<open>C21: a session with the host changes the bus only by the calls its messages request, in their order:
  a well-formed \<open>tools/call\<close> with an id, an object as its arguments and the required fields makes one
  call, and every other message, malformed, unknown or without an id, makes none.\<close>

theorem session_refines_bus_calls:
  assumes "list_all frameable fms"
  shows "ms_bus (snd (Serve et bus (\<lambda>_. False) 0 InputEOF (concat (map framed fms)) s)) =
    fold (run_call bus) (concat (map (requested_calls \<circ> snd) fms)) (ms_bus s)"
  using Serve_framed [OF assms, of et bus 0 s] by (simp add: fold_dispatch_bus)

theorem session_refines_bus_calls_witness:
  "ms_bus (snd (Serve (\<lambda>_. []) idle_bus (\<lambda>_. False) 0 InputEOF
      (concat (map framed [(Line, demo_ping), (Lsp, demo_send)])) (NewMcpServer 0))) = 1 \<and>
   concat (map (requested_calls \<circ> snd) [(Line, demo_ping), (Lsp, demo_send)]) = [CallSend ''bob'' ''[1]'']"
proof -
  have t: "json_text 2 ''8''" "json_text 2 ''[1]''" "valid_utf8 ''bob''" "''bob'' \<noteq> []" "2 + 3 \<le> maxNestingDepth" by code_simp+
  have r: "requested_calls demo_send = [CallSend ''bob'' ''[1]'']" unfolding demo_send_def by (rule requested_send [OF t])
  with demo_ping_calls show ?thesis using session_refines_bus_calls [OF demo_frameable, of "\<lambda>_. []" idle_bus "NewMcpServer 0"]
    by (simp add: idle_bus_def NewMcpServer_def)
qed

text \<open>However the requests for the channel of \<open>Initialized\<close> fall between the dispatched messages, the
  channel is closed exactly when the host has signalled that it is initialized, and never closed twice.\<close>

theorem initialized_signal_exact:
  "fst (Initialized (fold (mcp_event_step et bus) evs (NewMcpServer b))) = list_ex signals_initialized evs \<and>
   \<not> ms_panicked (fold (mcp_event_step et bus) evs (NewMcpServer b))"
proof -
  have "init_inv False (NewMcpServer b)" by (simp add: init_inv_def NewMcpServer_def)
  from init_inv_run [OF this, of evs et bus] show ?thesis by (auto simp: init_inv_def Initialized_def Let_def)
qed

text \<open>The flag is set before the signal is raised: asked for between the two, the channel is closed twice.\<close>

theorem initialized_close_race:
  "ms_panicked (signalInitialized (snd (Initialized ((NewMcpServer b)\<lparr>ms_initialized := True\<rparr>))))"
  by (simp add: NewMcpServer_def Initialized_def signalInitialized_def Let_def)

end
