(* ===== verification/Channel.thy ===== *)
theory Channel
  imports Mcp "HOL-Library.Word" "HOL-Library.AList"
begin

unbundle bit_operations_syntax

text \<open>
  Package \<open>internal/channel\<close>: the MCP server of the cc adapter, which pushes deliveries to the host as
  notifications, and the friendly names it mints.  \<open>crypto/rand\<close> is the source of the random bytes,
  which are arguments here.
\<close>

section \<open>wordlist.go\<close>

definition nameAdjectives :: "string list" where
  "nameAdjectives = [
    ''agile'', ''amber'', ''ancient'', ''azure'', ''balmy'', ''bashful'', ''blissful'',
    ''bold'', ''bouncy'', ''brave'', ''breezy'', ''bright'', ''brisk'', ''bronze'',
    ''bubbly'', ''calm'', ''candid'', ''careful'', ''cheerful'', ''chipper'', ''clever'',
    ''cosy'', ''cool'', ''copper'', ''cosmic'', ''crimson'', ''crisp'', ''curious'',
    ''daring'', ''dapper'', ''dawn'', ''dazzling'', ''deft'', ''dewy'', ''diligent'',
    ''dreamy'', ''dusky'', ''eager'', ''earnest'', ''easy'', ''elated'', ''electric'',
    ''elegant'', ''emerald'', ''epic'', ''exotic'', ''fair'', ''fancy'', ''feisty'',
    ''fearless'', ''festive'', ''fiery'', ''flaxen'', ''fleecy'', ''fleet'', ''fluffy'',
    ''flying'', ''forest'', ''fresh'', ''friendly'', ''frosty'', ''funny'', ''gallant'',
    ''gentle'', ''giddy'', ''gilded'', ''glassy'', ''gleaming'', ''glowing'', ''golden'',
    ''graceful'', ''grand'', ''grateful'', ''grassy'', ''happy'', ''hardy'', ''harmonic'',
    ''hazel'', ''hearty'', ''heroic'', ''honest'', ''humble'', ''icy'', ''indigo'',
    ''jade'', ''jaunty'', ''jolly'', ''joyful'', ''jovial'', ''keen'', ''kind'',
    ''lavender'', ''lean'', ''light'', ''lilac'', ''limber'', ''limpid'', ''lively'',
    ''loyal'', ''lucky'', ''lumen'', ''lunar'', ''marble'', ''mellow'', ''merry'',
    ''midnight'', ''mighty'', ''mild'', ''mindful'', ''minty'', ''misty'', ''modest'',
    ''mossy'', ''mythic'', ''nautical'', ''neat'', ''nimble'', ''noble'', ''north'',
    ''olive'', ''opal'', ''orange'', ''outer'', ''pacific'', ''patient'', ''peachy'',
    ''pearl'', ''perky'', ''placid'', ''plucky'', ''plum'', ''polar'', ''polished'',
    ''prairie'', ''prancing'', ''primal'', ''proper'', ''proud'', ''prudent'', ''quaint'',
    ''quick'', ''quiet'', ''quirky'', ''radiant'', ''rapid'', ''raven'', ''ready'',
    ''regal'', ''ringed'', ''river'', ''robust'', ''rosy'', ''ruby'', ''rugged'',
    ''rustic'', ''sable'', ''sacred'', ''salty'', ''sandy'', ''sapphire'', ''savvy'',
    ''scarlet'', ''scenic'', ''secret'', ''serene'', ''shady'', ''sharp'', ''shimmer'',
    ''shiny'', ''silent'', ''silken'', ''silver'', ''skyward'', ''sleek'', ''smart'',
    ''smiling'', ''smoky'', ''smooth'', ''snowy'', ''soaring'', ''solar'', ''solid'',
    ''sound'', ''south'', ''sparkly'', ''spirited'', ''spry'', ''stalwart'', ''starry'',
    ''steady'', ''stellar'', ''stoic'', ''stout'', ''summery'', ''sunlit'', ''sunny'',
    ''super'', ''swift'', ''tangy'', ''teal'', ''tender'', ''thrifty'', ''tidy'', ''tidal'',
    ''timely'', ''tranquil'', ''trusty'', ''twilight'', ''vast'', ''velvet'', ''verdant'',
    ''vibrant'', ''vigil'', ''vintage'', ''violet'', ''vivid'', ''warm'', ''wandering'',
    ''wavy'', ''whimsical'', ''wild'', ''willing'', ''windswept'', ''winsome'', ''wise'',
    ''witty'', ''woolen'', ''yonder'', ''youthful'', ''zealous'', ''zen'', ''zesty'']"

definition nameNouns :: "string list" where
  "nameNouns = [
    ''acorn'', ''albatross'', ''alder'', ''alpaca'', ''amber'', ''anchor'', ''antler'',
    ''apricot'', ''arrow'', ''ash'', ''aspen'', ''auk'', ''aurora'', ''axis'', ''azalea'',
    ''badger'', ''bamboo'', ''banner'', ''barley'', ''basil'', ''beacon'', ''beaver'',
    ''beetle'', ''bell'', ''birch'', ''bison'', ''blossom'', ''bluebell'', ''bobcat'',
    ''boulder'', ''brambler'', ''branch'', ''brook'', ''buffalo'', ''bumble'', ''burrow'',
    ''cabin'', ''cactus'', ''calla'', ''camel'', ''candle'', ''canyon'', ''cardinal'',
    ''cedar'', ''chamois'', ''cheetah'', ''cherry'', ''chestnut'', ''cinder'', ''clover'',
    ''coast'', ''cobalt'', ''comet'', ''compass'', ''condor'', ''coral'', ''cottage'',
    ''cougar'', ''coyote'', ''cranberry'', ''crocus'', ''cypress'', ''daisy'', ''dandelion'',
    ''deer'', ''delta'', ''dingo'', ''dolphin'', ''dragonfly'', ''drift'', ''dune'',
    ''eagle'', ''ember'', ''emu'', ''estuary'', ''falcon'', ''fawn'', ''fennec'', ''fern'',
    ''ferret'', ''field'', ''finch'', ''firefly'', ''flamingo'', ''flax'', ''fjord'',
    ''foxglove'', ''frost'', ''galaxy'', ''garnet'', ''gazelle'', ''gecko'', ''gem'',
    ''geyser'', ''ginger'', ''glacier'', ''glade'', ''gleam'', ''globe'', ''gopher'',
    ''granite'', ''grebe'', ''grove'', ''gull'', ''harbor'', ''harmony'', ''harvest'',
    ''hawk'', ''haven'', ''hazel'', ''heath'', ''heron'', ''hill'', ''hollow'', ''honey'',
    ''hornbill'', ''horizon'', ''iris'', ''ivory'', ''ivy'', ''jackal'', ''jasper'',
    ''jay'', ''junco'', ''juniper'', ''kelp'', ''kestrel'', ''kingfisher'', ''kit'',
    ''koala'', ''lagoon'', ''lantern'', ''lark'', ''lavender'', ''leaf'', ''lemur'',
    ''lichen'', ''lighthouse'', ''lily'', ''lime'', ''linden'', ''lion'', ''lupine'',
    ''lynx'', ''magnolia'', ''mallow'', ''maple'', ''marigold'', ''marmot'', ''marsh'',
    ''meadow'', ''mesa'', ''midge'', ''mink'', ''minnow'', ''mirage'', ''moose'', ''morel'',
    ''moth'', ''mountain'', ''muffin'', ''narwhal'', ''nebula'', ''newt'', ''nimbus'',
    ''nook'', ''nova'', ''oak'', ''oasis'', ''ocelot'', ''ocean'', ''olive'', ''onyx'',
    ''opal'', ''orca'', ''orchard'', ''orchid'', ''osprey'', ''otter'', ''owl'', ''panda'',
    ''pansy'', ''panther'', ''parrot'', ''partridge'', ''pebble'', ''pelican'', ''petal'',
    ''phoenix'', ''pika'', ''pine'', ''plover'', ''plum'', ''pollen'', ''pond'', ''poppy'',
    ''prairie'', ''puffin'', ''quail'', ''quartz'', ''quokka'', ''rabbit'', ''raccoon'',
    ''raven'', ''reef'', ''reindeer'', ''ridge'', ''river'', ''robin'', ''rookery'', ''rose'',
    ''sage'', ''salmon'', ''satellite'', ''savanna'', ''seal'', ''sequoia'', ''shore'',
    ''shrike'', ''skunk'', ''skyline'', ''sparrow'', ''spire'', ''starling'', ''stork'',
    ''stream'', ''summit'', ''swan'', ''tamarack'', ''teak'', ''thicket'', ''thistle'',
    ''tortoise'', ''tulip'', ''tundra'', ''valley'', ''vega'', ''violet'', ''vista'',
    ''vixen'', ''wallaby'', ''warbler'', ''waterfall'', ''willow'', ''wolf'', ''wombat'',
    ''woodland'', ''wren'', ''yarrow'', ''yew'', ''zebra'', ''zephyr'', ''zinnia'']"

section \<open>handshake_notes.go\<close>

definition PushMethod :: string where
  "PushMethod = ''notifications/claude/channel''"

record PushParams =
  pp_Content :: string
  pp_Meta :: "(string \<times> string) list"

record PushNotification =
  pn_JSONRPC :: string
  pn_Method :: string
  pn_Params :: PushParams

definition marshal_push :: "PushParams \<Rightarrow> bytes" where
  "marshal_push p = print_object ([(''content'', json_quote (pp_Content p))] @
     (if pp_Meta p = [] then [] else [(''meta'', print_map (map (\<lambda>(k, v). (k, json_quote v)) (pp_Meta p)))]))"

text \<open>Decoding a \<open>map[string]string\<close>: members are added in order, a repeated key replaces its value.\<close>

fun dec_map :: "bytes list \<Rightarrow> (string \<times> string) list \<Rightarrow> (string \<times> string) list \<times> bool" where
  "dec_map [] v = (v, False)"
| "dec_map (raw # raws) v =
     (case json_kind raw of
        JObject \<Rightarrow>
          (let ms = map (\<lambda>(k, r). (k, dec_string [r] [])) (json_members raw);
               v' = foldl (\<lambda>m (k, x, e). AList.update k x m) v ms;
               rest = dec_map raws v'
           in (fst rest, list_ex (snd \<circ> snd) ms \<or> snd rest))
      | JNull \<Rightarrow> dec_map raws []
      | _ \<Rightarrow> (fst (dec_map raws v), True))"

definition upd_push :: "(string \<times> bytes) list \<Rightarrow> PushParams \<Rightarrow> PushParams \<times> bool" where
  "upd_push ms x =
     (let r = field_raws [''content'', ''meta''] ms;
          c = dec_string (r ''content'') (pp_Content x);
          m = dec_map (r ''meta'') (pp_Meta x)
      in (\<lparr>pp_Content = fst c, pp_Meta = fst m\<rparr>, snd c \<or> snd m))"

fun dec_push :: "bytes list \<Rightarrow> PushParams \<Rightarrow> PushParams \<times> bool" where
  "dec_push [] x = (x, False)"
| "dec_push (raw # raws) x =
     (case dec_struct upd_push raw x of (x1, e1) \<Rightarrow> (case dec_push raws x1 of (x2, e2) \<Rightarrow> (x2, e1 \<or> e2)))"

definition upd_notification :: "(string \<times> bytes) list \<Rightarrow> PushNotification \<Rightarrow> PushNotification \<times> bool" where
  "upd_notification ms x =
     (let r = field_raws [''jsonrpc'', ''method'', ''params''] ms;
          j = dec_string (r ''jsonrpc'') (pn_JSONRPC x);
          m = dec_string (r ''method'') (pn_Method x);
          p = dec_push (r ''params'') (pn_Params x)
      in (\<lparr>pn_JSONRPC = fst j, pn_Method = fst m, pn_Params = fst p\<rparr>, snd j \<or> snd m \<or> snd p))"

definition unmarshal_notification :: "bytes \<Rightarrow> (json_error, PushNotification) result" where
  "unmarshal_notification = unmarshal (dec_struct upd_notification)
     \<lparr>pn_JSONRPC = [], pn_Method = [], pn_Params = \<lparr>pp_Content = [], pp_Meta = []\<rparr>\<rparr>"

section \<open>channel.go\<close>

record 'b OutboundBus =
  ob_Send :: "string \<Rightarrow> bytes \<Rightarrow> 'b \<Rightarrow> (string, unit) result \<times> 'b"
  ob_Broadcast :: "bytes \<Rightarrow> 'b \<Rightarrow> (string, unit) result \<times> 'b"
  ob_Peers :: "'b \<Rightarrow> (string, string \<times> string list option) result \<times> 'b"

record Inbound =
  ib_ID :: string
  ib_From :: string
  ib_Source :: string
  ib_Kind :: string
  ib_Body :: bytes

definition busAdapter :: "'b OutboundBus \<Rightarrow> 'b Bus" where
  "busAdapter ob = \<lparr>bus_Send = ob_Send ob, bus_Broadcast = ob_Broadcast ob, bus_Peers = ob_Peers ob,
     bus_Drain = \<lambda>b. (Inr None, b)\<rparr>"

definition NewChannelServer :: "'b \<Rightarrow> 'b mcp_server" where
  "NewChannelServer ob = WithChannelCapability (WithoutDrain (WithServerName ''peerbus-cc-adapter'' (NewMcpServer ob)))"

text \<open>\<open>json.Unmarshal\<close> into a string and into a map of raw values; \<^const>\<open>None\<close> is an error.\<close>

definition decode_string :: "bytes \<Rightarrow> string option" where
  "decode_string b =
     (case unmarshal (\<lambda>raw v. dec_string [fst (take_value raw)] v) [] b of Inl _ \<Rightarrow> None | Inr s \<Rightarrow> Some s)"

definition decode_object :: "bytes \<Rightarrow> (string \<rightharpoonup> bytes) option" where
  "decode_object b = (case unmarshal (dec_struct (\<lambda>ms m. (m ++ map_of (rev ms), False))) Map.empty b of Inl _ \<Rightarrow> None | Inr m \<Rightarrow> Some m)"

definition decodeBody :: "bytes \<Rightarrow> string" where
  "decodeBody body =
     (if body = [] then []
      else (case decode_string body of
         Some s \<Rightarrow> s
       | None \<Rightarrow>
           (case decode_object body of
              None \<Rightarrow> body
            | Some obj \<Rightarrow>
                (case find (\<lambda>key. obj key \<noteq> None) [''text'', ''message'', ''content''] of
                   None \<Rightarrow> body
                 | Some key \<Rightarrow> (case decode_string (the (obj key)) of Some str \<Rightarrow> str | None \<Rightarrow> the (obj key))))))"

definition formatInbound :: "Inbound \<Rightarrow> string" where
  "formatInbound i =
     (let kind = (if ib_Kind i = [] then ''msg'' else ib_Kind i)
      in [CHR 0xF0, CHR 0x9F, CHR 0x93, CHR 0xA8] @ '' '' @ kind @ '' from '' @ ib_From i @ '': '' @ [CHR 0x22] @
         decodeBody (ib_Body i) @ [CHR 0x22])"

definition Deliver :: "Inbound \<Rightarrow> 'b mcp_server \<Rightarrow> 'b mcp_server" where
  "Deliver i s = Notify PushMethod (Some (marshal_push \<lparr>pp_Content = formatInbound i,
     pp_Meta = [(''from'', ib_From i), (''source'', ib_Source i), (''msg_id'', ib_ID i), (''kind'', ib_Kind i)]\<rparr>)) s"

definition AnnounceSelf :: "string \<Rightarrow> 'b mcp_server \<Rightarrow> 'b mcp_server" where
  "AnnounceSelf self s = Notify PushMethod (Some (marshal_push
     \<lparr>pp_Content = [CHR 0xF0, CHR 0x9F, CHR 0x93, CHR 0xA1] @ '' connected as '' @ self,
      pp_Meta = [(''kind'', ''system''), (''self'', self)]\<rparr>)) s"

definition nameSuffixAlphabet :: string where
  "nameSuffixAlphabet = ''0123456789abcdefghijklmnopqrstuvwxyz''"

definition nameSuffixLen :: nat where
  "nameSuffixLen = 3"

definition pickWord :: "bytes \<Rightarrow> string list \<Rightarrow> string" where
  "pickWord b words =
     (let u = (\<lambda>i. of_nat (byte (b ! i)) :: 64 word);
          n = u 0 OR push_bit 8 (u 1) OR push_bit 16 (u 2) OR push_bit 24 (u 3) OR
              push_bit 32 (u 4) OR push_bit 40 (u 5) OR push_bit 48 (u 6) OR push_bit 56 (u 7)
      in words ! unat (n mod of_nat (length words)))"

definition randomSuffix :: "bytes \<Rightarrow> string" where
  "randomSuffix b = map (\<lambda>v. nameSuffixAlphabet ! (byte v mod length nameSuffixAlphabet)) b"

text \<open>The bytes of the three calls of \<open>rand.Read\<close>.\<close>

type_synonym name_draw = "bytes \<times> bytes \<times> bytes"

definition generateName :: "name_draw \<Rightarrow> string" where
  "generateName = (\<lambda>(r1, r2, r3). pickWord r1 nameAdjectives @ ''-'' @ pickWord r2 nameNouns @ ''-'' @ randomSuffix r3)"

definition UniqueName :: "string \<Rightarrow> name_draw \<Rightarrow> string" where
  "UniqueName override r = (if override \<noteq> [] then override else generateName r)"

section \<open>Names\<close>

definition plain_word :: "string \<Rightarrow> bool" where
  "plain_word w \<longleftrightarrow> w \<noteq> [] \<and> list_all (\<lambda>c. c \<in> set nameSuffixAlphabet) w \<and> length w \<le> 10"

lemma words_plain: "list_all plain_word nameAdjectives" "list_all plain_word nameNouns"
  by code_simp+

lemma word_counts: "length nameAdjectives = 232" "length nameNouns = 253"
  by code_simp+

lemma pickWord_in: "words \<noteq> [] \<Longrightarrow> length words < 2 ^ 64 \<Longrightarrow> pickWord b words \<in> set words"
proof -
  assume w: "words \<noteq> []" "length words < 2 ^ 64"
  then have l: "unat (of_nat (length words) :: 64 word) = length words" by (simp add: unat_of_nat)
  have "unat (n mod of_nat (length words) :: 64 word) < length words" for n
    using w l by (simp add: unat_mod_distrib)
  then show ?thesis by (simp add: pickWord_def Let_def)
qed

text \<open>The index drawn is the little-endian value of the eight bytes modulo the number of words.\<close>

fun le_value :: "bytes \<Rightarrow> nat" where
  "le_value [] = 0"
| "le_value (c # cs) = byte c + 256 * le_value cs"

lemma le_value_less: "le_value b < 256 ^ length b"
proof (induction b)
  case (Cons c cs)
  have "byte c < 256" by simp
  moreover have "256 * le_value cs + 256 \<le> 256 * 256 ^ length cs" using Cons by (simp add: Suc_leI [of _ "256 ^ length cs"] mult_le_mono2 flip: mult_Suc_right)
  ultimately have "byte c + 256 * le_value cs < 256 * 256 ^ length cs" by linarith
  then show ?case by simp
qed simp

lemma or_byte: "byte c OR push_bit 8 v = byte c + 256 * v" for v :: nat
proof -
  have "byte c < 2 ^ 8" using nat_of_char_less_256 [of c] by simp
  then have "take_bit 8 (byte c) = byte c" by (simp add: take_bit_nat_eq_self)
  then have "bit (byte c) n \<Longrightarrow> n < 8" for n by (metis bit_take_bit_iff)
  then have "byte c AND push_bit 8 v = 0" by (auto simp: bit_eq_iff bit_simps dest: leD)
  then show ?thesis by (simp add: disjunctive_add_eq_or [symmetric] push_bit_eq_mult)
qed

lemma le_value_or:
  "le_value [c0, c1, c2, c3, c4, c5, c6, c7] = byte c0 OR push_bit 8 (byte c1) OR push_bit 16 (byte c2) OR push_bit 24 (byte c3) OR
     push_bit 32 (byte c4) OR push_bit 40 (byte c5) OR push_bit 48 (byte c6) OR push_bit 56 (byte c7)"
  by (simp add: or_byte [symmetric] push_bit_or push_bit_push_bit)

lemma pickWord_value:
  assumes "length b = 8" "length words < 2 ^ 64"
  shows "pickWord b words = words ! (le_value b mod length words)"
proof -
  obtain c0 c1 c2 c3 c4 c5 c6 c7 where b: "b = [c0, c1, c2, c3, c4, c5, c6, c7]"
    using assms(1) by (auto simp: numeral_eq_Suc length_Suc_conv)
  let ?n = "of_nat (le_value b) :: 64 word"
  have n: "pickWord b words = words ! unat (?n mod of_nat (length words))"
    by (simp add: pickWord_def Let_def b le_value_or of_nat_or_eq push_bit_of_nat del: le_value.simps)
  have "unat ?n = le_value b" using le_value_less [of b] assms(1) by (simp add: unat_of_nat)
  moreover have "unat (of_nat (length words) :: 64 word) = length words" using assms(2) by (simp add: unat_of_nat)
  ultimately show ?thesis unfolding n by (simp add: unat_mod_distrib)
qed

lemma alphabet_no_dash: "CHR ''-'' \<notin> set nameSuffixAlphabet" "nameSuffixAlphabet \<noteq> []"
  by code_simp+

lemma randomSuffix_in: "set (randomSuffix r) \<subseteq> set nameSuffixAlphabet"
  using alphabet_no_dash(2) by (auto simp: randomSuffix_def)

lemma plain_no_dash: "set w \<subseteq> set nameSuffixAlphabet \<Longrightarrow> CHR ''-'' \<notin> set w"
  using alphabet_no_dash(1) by blast

lemma picked_in: "pickWord r nameAdjectives \<in> set nameAdjectives" "pickWord r nameNouns \<in> set nameNouns"
proof -
  have "nameAdjectives \<noteq> []" "nameNouns \<noteq> []" using word_counts by auto
  then show "pickWord r nameAdjectives \<in> set nameAdjectives" "pickWord r nameNouns \<in> set nameNouns"
    by (intro pickWord_in; simp add: word_counts)+
qed

lemma picked_plain: "plain_word (pickWord r nameAdjectives)" "plain_word (pickWord r nameNouns)"
  using words_plain picked_in by (auto simp: list_all_iff)

lemma plain_set: "plain_word w \<Longrightarrow> set w \<subseteq> set nameSuffixAlphabet \<and> length w \<le> 10"
  by (auto simp: plain_word_def list_all_iff)

text \<open>A minted name is \<open>adjective-noun-suffix\<close> and can be read back: split at its hyphens it gives
  the adjective and the noun drawn, both from the word lists, and the suffix over the base-36 alphabet;
  the word drawn is the one at the little-endian value of the random bytes modulo the size of the list.\<close>

theorem minted_name_parses:
  assumes "length r1 = 8" "length r2 = 8" "length r3 = nameSuffixLen"
  shows "\<exists>adj noun suffix. split_on (CHR ''-'') (generateName (r1, r2, r3)) = [adj, noun, suffix] \<and>
    adj = nameAdjectives ! (le_value r1 mod 232) \<and> adj \<in> set nameAdjectives \<and>
    noun = nameNouns ! (le_value r2 mod 253) \<and> noun \<in> set nameNouns \<and>
    length suffix = 3 \<and> set suffix \<subseteq> set nameSuffixAlphabet \<and> length (generateName (r1, r2, r3)) \<le> 25"
proof -
  let ?a = "pickWord r1 nameAdjectives" and ?n = "pickWord r2 nameNouns" and ?s = "randomSuffix r3"
  note plain = plain_set [OF picked_plain(1) [of r1]] plain_set [OF picked_plain(2) [of r2]]
  have d: "CHR ''-'' \<notin> set ?a" "CHR ''-'' \<notin> set ?n" "CHR ''-'' \<notin> set ?s"
    using plain randomSuffix_in [of r3] plain_no_dash by simp_all
  have "split_on (CHR ''-'') (generateName (r1, r2, r3)) = [?a, ?n, ?s]"
    using d by (simp add: generateName_def split_on_append_sep split_on_plain)
  moreover have "length ?s = 3" using assms(3) by (simp add: randomSuffix_def nameSuffixLen_def)
  moreover have "length (generateName (r1, r2, r3)) \<le> 25"
    using plain \<open>length ?s = 3\<close> by (simp add: generateName_def)
  ultimately show ?thesis
    using pickWord_value [OF assms(1), of nameAdjectives] pickWord_value [OF assms(2), of nameNouns] word_counts
      picked_in [of r1] picked_in [of r2] randomSuffix_in [of r3]
    by (intro exI [of _ ?a] exI [of _ ?n] exI [of _ ?s]) auto
qed

theorem minted_name_parses_witness:
  "\<exists>adj noun suffix. split_on (CHR ''-'') (generateName (''01234567'', ''abcdefgh'', ''xyz'')) = [adj, noun, suffix] \<and>
    adj \<in> set nameAdjectives \<and> noun \<in> set nameNouns \<and> length suffix = 3"
  using minted_name_parses [of "''01234567''" "''abcdefgh''" "''xyz''"] by (auto simp: nameSuffixLen_def)

section \<open>Rendering a body\<close>

lemma decode_string_text:
  assumes "json_text m v" "m \<le> maxNestingDepth"
  shows "decode_string v = (case json_kind v of JString \<Rightarrow> Some (case unquote v of None \<Rightarrow> [] | Some s \<Rightarrow> s) | JNull \<Rightarrow> Some [] | _ \<Rightarrow> None)"
proof -
  have "checkValid v" using assms by (rule checkValid_text)
  moreover have "skip_ws v = v" using skip_ws_text [OF assms(1), of "[]"] by simp
  moreover have "fst (take_value v) = v" using take_value_json_text [OF assms, of "[]"] by simp
  ultimately show ?thesis by (auto simp: decode_string_def unmarshal_def split: jkind.split)
qed

lemma decode_string_quote: "valid_utf8 t \<Longrightarrow> decode_string (json_quote t) = Some t"
  by (simp add: decode_string_text [OF json_text_quote [of 0]] valid_utf8_def)

lemma decodeBody_object:
  assumes "list_all (\<lambda>kv. json_text m (snd kv)) kvs" "m < maxNestingDepth" "list_all (\<lambda>kv. valid_utf8 (fst kv)) kvs"
    "distinct (map fst kvs)"
  shows "decodeBody (print_object kvs) =
    (case find (\<lambda>key. map_of kvs key \<noteq> None) [''text'', ''message'', ''content''] of
       None \<Rightarrow> print_object kvs
     | Some key \<Rightarrow> (case decode_string (the (map_of kvs key)) of Some str \<Rightarrow> str | None \<Rightarrow> the (map_of kvs key)))"
proof -
  have "map_of (rev kvs) = map_of kvs" using assms(4) by (subst map_of_inject_set) (simp_all add: rev_map [symmetric])
  then have o: "decode_object (print_object kvs) = Some (map_of kvs)"
    using assms(1-3) by (simp add: decode_object_def unmarshal_print)
  have "json_text (Suc m) (print_object kvs)" by (rule json_text_object [OF assms(1)])
  then have s: "decode_string (print_object kvs) = None" using assms(2) by (simp add: decode_string_text)
  have "print_object kvs \<noteq> []" by (simp add: print_object_def)
  then show ?thesis unfolding decodeBody_def by (simp only: o s option.case if_False)
qed

text \<open>The text of a notification is taken from the body by fixed rules: a JSON string is unwrapped; in an
  object the first of the fields \<open>text\<close>, \<open>message\<close> and \<open>content\<close> that is present gives the text, whatever
  the later ones hold; an object with none of them is shown as it is; an empty body and \<open>null\<close> are empty.\<close>

theorem body_rendering:
  assumes "list_all (\<lambda>kv. json_text m (snd kv)) kvs" "m < maxNestingDepth" "list_all (\<lambda>kv. valid_utf8 (fst kv)) kvs"
    "distinct (map fst kvs)" "valid_utf8 t"
  shows "decodeBody (json_quote t) = t \<and>
    (map_of kvs ''text'' = Some (json_quote t) \<longrightarrow> decodeBody (print_object kvs) = t) \<and>
    (map_of kvs ''text'' = None \<and> map_of kvs ''message'' = Some (json_quote t) \<longrightarrow> decodeBody (print_object kvs) = t) \<and>
    (map_of kvs ''text'' = None \<and> map_of kvs ''message'' = None \<and> map_of kvs ''content'' = Some (json_quote t) \<longrightarrow>
       decodeBody (print_object kvs) = t) \<and>
    (map_of kvs ''text'' = None \<and> map_of kvs ''message'' = None \<and> map_of kvs ''content'' = None \<longrightarrow>
       decodeBody (print_object kvs) = print_object kvs) \<and>
    decodeBody [] = [] \<and> decodeBody ''null'' = []"
proof -
  have "json_quote t \<noteq> []" by (simp add: json_quote_def)
  then have "decodeBody (json_quote t) = t" using decode_string_quote [OF assms(5)] by (simp add: decodeBody_def)
  moreover have "decode_string ''null'' = Some []" by (simp add: decode_string_text [OF json_text_null [of 0]])
  then have "decodeBody ''null'' = []" by (simp add: decodeBody_def)
  ultimately show ?thesis
    using decode_string_quote [OF assms(5)] by (auto simp: decodeBody_object [OF assms(1-4)] decodeBody_def [of "[]"])
qed

theorem body_rendering_witness:
  "decodeBody (print_object [(''n'', ''1''), (''text'', json_quote ''hi''), (''content'', json_quote ''x'')]) = ''hi''"
proof -
  let ?kvs = "[(''n'', ''1''), (''text'', json_quote ''hi''), (''content'', json_quote ''x'')]"
  have "json_text 2 ''1''" "valid_utf8 ''n''" "valid_utf8 ''text''" "valid_utf8 ''content''" "valid_utf8 ''hi''" "2 < maxNestingDepth"
    by code_simp+
  then show ?thesis using body_rendering [of 2 ?kvs "''hi''"] by simp
qed

section \<open>Pushes\<close>

definition push_meta :: "Inbound \<Rightarrow> (string \<times> string) list" where
  "push_meta i = [(''from'', ib_From i), (''kind'', ib_Kind i), (''msg_id'', ib_ID i), (''source'', ib_Source i)]"

lemma sort_meta: "sort_key fst [(''from'', a), (''source'', b), (''msg_id'', c), (''kind'', d)] =
    [(''from'', a), (''kind'', d), (''msg_id'', c), (''source'', b)]"
proof -
  have "''from'' \<le> ''source''" "''from'' \<le> ''msg_id''" "''from'' \<le> ''kind''" "\<not> ''source'' \<le> ''msg_id''"
    "\<not> ''source'' \<le> ''kind''" "\<not> ''msg_id'' \<le> ''kind''" "''kind'' \<le> ''msg_id''" "''kind'' \<le> ''source''" "''msg_id'' \<le> ''source''"
    by code_simp+
  then show ?thesis by (simp add: sort_key_def)
qed

lemma AList_update_new: "k \<notin> fst ` set m \<Longrightarrow> AList.update k x m = m @ [(k, x)]"
  by (induction m) auto

lemma foldl_update:
  "distinct (map fst (v @ kvs)) \<Longrightarrow> foldl (\<lambda>m (k, x, e). AList.update k x m) v (map (\<lambda>(k, v). (k, v, False)) kvs) = v @ kvs"
proof (induction kvs arbitrary: v)
  case (Cons kv kvs)
  then show ?case using Cons.IH [of "v @ [kv]"] by (cases kv) (auto simp: AList_update_new)
qed simp

lemma dec_map_print:
  assumes "list_all (\<lambda>kv. valid_utf8 (fst kv) \<and> valid_utf8 (snd kv)) kvs" "distinct (map fst kvs)"
  shows "dec_map [print_object (map (\<lambda>(k, v). (k, json_quote v)) kvs)] [] = (kvs, False)"
proof -
  have j: "json_members (print_object (map (\<lambda>(k, v). (k, json_quote v)) kvs)) = map (\<lambda>(k, v). (k, json_quote v)) kvs"
    using assms(1) by (intro json_members_print [of 0]) (auto simp: list_all_iff)
  have d: "map (\<lambda>(k, r). (k, dec_string [r] [])) (map (\<lambda>(k, v). (k, json_quote v)) kvs) = map (\<lambda>(k, v). (k, v, False)) kvs"
    using assms(1) by (auto simp: list_all_iff simp del: dec_string.simps(2))
  show ?thesis unfolding dec_map.simps json_kind_object jkind.case j d Let_def
    using foldl_update [of "[]" kvs] assms(2) by (auto simp: list_ex_iff)
qed

lemma valid_formatInbound:
  assumes "valid_utf8 (ib_From i)" "valid_utf8 (ib_Kind i)" "valid_utf8 (decodeBody (ib_Body i))"
  shows "valid_utf8 (formatInbound i)"
proof -
  have "valid_utf8 [CHR 0xF0, CHR 0x9F, CHR 0x93, CHR 0xA8]" "valid_utf8 '' ''" "valid_utf8 ''msg''" "valid_utf8 '' from ''"
    "valid_utf8 '': ''" "valid_utf8 [CHR 0x22]" by code_simp+
  with assms show ?thesis unfolding formatInbound_def Let_def by (intro valid_utf8_append) simp_all
qed

lemma push_decodes:
  assumes "valid_utf8 c" "list_all (\<lambda>kv. valid_utf8 (fst kv) \<and> valid_utf8 (snd kv)) meta" "distinct (map fst meta)" "meta \<noteq> []"
    "print_map (map (\<lambda>(k, v). (k, json_quote v)) meta0) = print_object (map (\<lambda>(k, v). (k, json_quote v)) meta)" "meta0 \<noteq> []"
  shows "unmarshal_notification (print_object [(''jsonrpc'', json_quote ''2.0''), (''method'', json_quote PushMethod),
      (''params'', marshal_push \<lparr>pp_Content = c, pp_Meta = meta0\<rparr>)]) =
    Inr \<lparr>pn_JSONRPC = ''2.0'', pn_Method = PushMethod, pn_Params = \<lparr>pp_Content = c, pp_Meta = meta\<rparr>\<rparr>"
proof -
  let ?meta = "print_object (map (\<lambda>(k, v). (k, json_quote v)) meta)"
  let ?kvs = "[(''content'', json_quote c), (''meta'', ?meta)]"
  have names: "list_all valid_utf8 [''content'', ''meta'', ''2.0'', ''jsonrpc'', ''method'', ''params'', PushMethod]" by code_simp
  have m: "json_text 1 ?meta" using json_text_object [of 0] by (simp add: list_all_iff split_beta)
  then have p: "json_text 2 (print_object ?kvs)" using json_text_object [of 1 ?kvs] by (simp add: numeral_2_eq_2)
  have mp: "marshal_push \<lparr>pp_Content = c, pp_Meta = meta0\<rparr> = print_object ?kvs"
    using assms(5,6) by (simp add: marshal_push_def)
  have "dec_struct upd_push (print_object ?kvs) x = upd_push ?kvs x" for x
    using m names by (intro dec_struct_print [of 1]) (simp_all add: maxNestingDepth_def)
  moreover have "upd_push ?kvs \<lparr>pp_Content = [], pp_Meta = []\<rparr> = (\<lparr>pp_Content = c, pp_Meta = meta\<rparr>, False)"
    using dec_map_print [OF assms(2,3)] assms(1)
    by (simp add: upd_push_def field_raws_def find_field_def Let_def del: dec_string.simps(2) dec_map.simps(2))
  ultimately have d: "dec_push [print_object ?kvs] \<lparr>pp_Content = [], pp_Meta = []\<rparr> = (\<lparr>pp_Content = c, pp_Meta = meta\<rparr>, False)"
    by simp
  show ?thesis unfolding unmarshal_notification_def mp
    using p names d by (subst unmarshal_print [of 2])
      (simp_all add: upd_notification_def field_raws_def find_field_def Let_def maxNestingDepth_def del: dec_string.simps(2) dec_push.simps(2))
qed

lemma push_read_back:
  assumes "LF \<notin> set p"
  shows "readMessage e (print_object [(''jsonrpc'', json_quote ''2.0''), (''method'', json_quote m), (''params'', p)] @ [LF] @ rest) =
    (Message (print_object [(''jsonrpc'', json_quote ''2.0''), (''method'', json_quote m), (''params'', p)]), rest)"
proof -
  let ?b = "print_object [(''jsonrpc'', json_quote ''2.0''), (''method'', json_quote m), (''params'', p)]"
  have "LF \<notin> set ?b" using assms by (intro print_object_LF) (simp add: one_line)
  moreover have "hd ?b = CHR ''{''" "last ?b = CHR ''}''" "?b \<noteq> []" by (simp_all add: print_object_def)
  ultimately have "line_ok ?b" by (auto simp: line_ok_def CR_def)
  from readMessage_line [OF this, of e rest] show ?thesis by (simp add: line_frame_def)
qed

lemma marshal_push_LF: "LF \<notin> set (marshal_push p)"
  by (auto simp: marshal_push_def list_all_iff json_quote_LF intro!: print_object_LF print_map_LF)

text \<open>A delivery is pushed to the host as one notification line, and a host that reads the line and decodes
  it gets the push method, the rendered text and the sender, source, id and kind of the message
  unchanged.\<close>

theorem push_roundtrip:
  assumes "valid_utf8 (ib_ID i)" "valid_utf8 (ib_From i)" "valid_utf8 (ib_Source i)" "valid_utf8 (ib_Kind i)"
    "valid_utf8 (decodeBody (ib_Body i))"
  shows "\<exists>line. ms_out (Deliver i s) = ms_out s @ [line @ [LF]] \<and> readMessage e (line @ [LF] @ rest) = (Message line, rest) \<and>
    unmarshal_notification line = Inr \<lparr>pn_JSONRPC = ''2.0'', pn_Method = PushMethod,
      pn_Params = \<lparr>pp_Content = formatInbound i, pp_Meta = push_meta i\<rparr>\<rparr>"
proof -
  let ?p = "marshal_push \<lparr>pp_Content = formatInbound i,
     pp_Meta = [(''from'', ib_From i), (''source'', ib_Source i), (''msg_id'', ib_ID i), (''kind'', ib_Kind i)]\<rparr>"
  let ?b = "print_object [(''jsonrpc'', json_quote ''2.0''), (''method'', json_quote PushMethod), (''params'', ?p)]"
  have names: "valid_utf8 ''from''" "valid_utf8 ''kind''" "valid_utf8 ''msg_id''" "valid_utf8 ''source''" by code_simp+
  have "unmarshal_notification ?b = Inr \<lparr>pn_JSONRPC = ''2.0'', pn_Method = PushMethod,
      pn_Params = \<lparr>pp_Content = formatInbound i, pp_Meta = push_meta i\<rparr>\<rparr>"
    using assms names by (intro push_decodes valid_formatInbound) (simp_all add: push_meta_def print_map_def sort_meta)
  moreover have "ms_out (Deliver i s) = ms_out s @ [?b @ [LF]]" by (simp add: Deliver_def Notify_def write_line_def)
  ultimately show ?thesis using push_read_back [OF marshal_push_LF] by blast
qed

definition demo_inbound :: Inbound where
  "demo_inbound = \<lparr>ib_ID = ''m1'', ib_From = ''alice'', ib_Source = ''peer-bus'', ib_Kind = ''msg'', ib_Body = json_quote ''hi''\<rparr>"

theorem push_roundtrip_witness:
  "\<exists>line. ms_out (Deliver demo_inbound (NewChannelServer ())) = [line @ [LF]] \<and>
    map_sum (\<lambda>_. ()) (\<lambda>n. (pn_Method n, pp_Meta (pn_Params n))) (unmarshal_notification line) =
      Inr (PushMethod, [(''from'', ''alice''), (''kind'', ''msg''), (''msg_id'', ''m1''), (''source'', ''peer-bus'')])"
proof -
  have "valid_utf8 ''m1''" "valid_utf8 ''alice''" "valid_utf8 ''peer-bus''" "valid_utf8 ''msg''" "valid_utf8 ''hi''" by code_simp+
  moreover have "json_quote ''hi'' \<noteq> []" by (simp add: json_quote_def)
  ultimately have "decodeBody (ib_Body demo_inbound) = ''hi''" by (simp add: demo_inbound_def decodeBody_def decode_string_quote)
  with \<open>valid_utf8 ''hi''\<close> \<open>valid_utf8 ''m1''\<close> \<open>valid_utf8 ''alice''\<close> \<open>valid_utf8 ''peer-bus''\<close> \<open>valid_utf8 ''msg''\<close>
    push_roundtrip [of demo_inbound "NewChannelServer ()"]
  show ?thesis by (force simp: demo_inbound_def push_meta_def NewChannelServer_def NewMcpServer_def WithChannelCapability_def
      WithoutDrain_def WithServerName_def)
qed

end
