(* ===== verification/Client.thy ===== *)
theory Client
  imports Hmac
begin

text \<open>
  Package \<open>internal/adapter\<close>, \<open>client.go\<close>: one WebSocket connection of an adapter to the broker.
  The library \<open>coder/websocket\<close> is not part of this repository: whether dialling works, what the
  reads return and how a write ends are arguments.  A list of reads is what the connection
  returns one after the other; a loop that has consumed them all is still waiting.
\<close>

section \<open>client.go\<close>

record ClientConfig =
  ccf_URL :: string
  ccf_Token :: string
  ccf_Name :: string
  ccf_HMACSecret :: bytes

datatype client_error =
    ErrNotConnected | ErrInboundHMAC hmac_error | ErrMissingDeliveryKey | ErrNameClaimed
  | ShortSecret | DialFailed | RegisterWrite | RegisterRejected | AckNotText | UnexpectedAck string
  | SignOutbound hmac_error | WriteError | ReadError | DeliverDecode | PeersDecode

text \<open>The sink is a channel of capacity one: \<open>Some None\<close> is installed and empty.\<close>

record client =
  cl_cfg :: ClientConfig
  cl_ws :: bool
  cl_open :: bool
  cl_sent :: "bytes list"
  cl_sink :: "string list option option option"

datatype cread = ReadFailed | ReadClosed nat string | TextMsg bytes | BinMsg bytes

definition limited_client :: "cread \<Rightarrow> cread" where
  "limited_client r = (case r of
      TextMsg b \<Rightarrow> if MaxFrameBytes < length b then ReadFailed else r
    | BinMsg b \<Rightarrow> if MaxFrameBytes < length b then ReadFailed else r
    | _ \<Rightarrow> r)"

definition NewClient :: "ClientConfig \<Rightarrow> client" where
  "NewClient cfg = \<lparr>cl_cfg = cfg, cl_ws = False, cl_open = False, cl_sent = [], cl_sink = None\<rparr>"

definition writeJSON_client :: "write_outcome \<Rightarrow> bytes option \<Rightarrow> client \<Rightarrow> bool \<times> client" where
  "writeJSON_client w b c =
     (case b of
        None \<Rightarrow> (False, c)
      | Some fr \<Rightarrow>
          (let sent = c\<lparr>cl_sent := cl_sent c @ [fr]\<rparr>
           in case w of
                Written \<Rightarrow> (True, sent)
              | WriteFailed \<Rightarrow> (False, c)
              | FailedAfterSend \<Rightarrow> (False, sent)))"

text \<open>\<open>ct, _ := wire.ControlTypeOf(data)\<close>: on an error the type is the empty string.\<close>

definition control_type :: "bytes \<Rightarrow> string" where
  "control_type data = (case ControlTypeOf data of Inl _ \<Rightarrow> [] | Inr t \<Rightarrow> t)"

definition StatusPolicyViolation :: nat where
  "StatusPolicyViolation = 1008"

definition Connect :: "bool \<Rightarrow> write_outcome \<Rightarrow> cread \<Rightarrow> client \<Rightarrow> (client_error, unit) result \<times> client" where
  "Connect dial w r c =
     (if length (ccf_HMACSecret (cl_cfg c)) < MinSecretLen then (Inl ShortSecret, c)
      else if \<not> dial then (Inl DialFailed, c)
      else
        (let reg = \<lparr>reg_ProtocolVersion = ProtocolVersion, reg_Type = ControlRegister,
               reg_Token = ccf_Token (cl_cfg c), reg_Name = ccf_Name (cl_cfg c)\<rparr>
         in case writeJSON_client w (Some (marshal_register reg)) c of
              (False, c1) \<Rightarrow> (Inl RegisterWrite, c1)
            | (True, c1) \<Rightarrow>
                (case limited_client r of
                   ReadFailed \<Rightarrow> (Inl RegisterRejected, c1)
                 | ReadClosed code reason \<Rightarrow>
                     if code = StatusPolicyViolation \<and> reason = ''name claimed under a different token''
                     then (Inl ErrNameClaimed, c1)
                     else (Inl RegisterRejected, c1)
                 | BinMsg _ \<Rightarrow> (Inl AckNotText, c1)
                 | TextMsg data \<Rightarrow>
                     (let ct = control_type data in
                      if ct \<noteq> ControlPeers then (Inl (UnexpectedAck ct), c1)
                      else (Inr (), c1\<lparr>cl_ws := True, cl_open := True\<rparr>)))))"

definition conn :: "client \<Rightarrow> bool" where
  "conn c = (if \<not> cl_open c then False else cl_ws c)"

definition Close_client :: "client \<Rightarrow> client" where
  "Close_client c = c\<lparr>cl_open := False, cl_ws := False\<rparr>"

definition sendEnvelope :: "write_outcome \<Rightarrow> envelope \<Rightarrow> client \<Rightarrow> (client_error, unit) result \<times> client" where
  "sendEnvelope w env c =
     (if \<not> conn c then (Inl ErrNotConnected, c)
      else (case SignEnvelope (ccf_HMACSecret (cl_cfg c)) env of
         Inl err \<Rightarrow> (Inl (SignOutbound err), c)
       | Inr sg \<Rightarrow>
           (case writeJSON_client w (marshal_envelope sg) c of
              (False, c1) \<Rightarrow> (Inl WriteError, c1)
            | (True, c1) \<Rightarrow> (Inr (), c1))))"

definition Send :: "write_outcome \<Rightarrow> string \<Rightarrow> string \<Rightarrow> string \<Rightarrow> string \<Rightarrow> bytes \<Rightarrow> client \<Rightarrow> (client_error, unit) result \<times> client" where
  "Send w i to ts source body c = sendEnvelope w
     \<lparr>env_ProtocolVersion = ProtocolVersion, env_ID = i, env_From = ccf_Name (cl_cfg c), env_To = to, env_TS = ts,
      env_Source = source, env_Kind = KindMsg, env_Body = body, env_HMAC = []\<rparr> c"

definition Broadcast :: "write_outcome \<Rightarrow> string \<Rightarrow> string \<Rightarrow> string \<Rightarrow> bytes \<Rightarrow> client \<Rightarrow> (client_error, unit) result \<times> client" where
  "Broadcast w i ts source body c = sendEnvelope w
     \<lparr>env_ProtocolVersion = ProtocolVersion, env_ID = i, env_From = ccf_Name (cl_cfg c), env_To = ''*'', env_TS = ts,
      env_Source = source, env_Kind = KindBroadcast, env_Body = body, env_HMAC = []\<rparr> c"

definition peers_request :: bytes where
  "peers_request = marshal_peers \<lparr>peers_ProtocolVersion = ProtocolVersion, peers_Type = ControlPeers, peers_Names = None\<rparr>"

definition SetPeersSink :: "string list option option option \<Rightarrow> client \<Rightarrow> client" where
  "SetPeersSink ch c = c\<lparr>cl_sink := ch\<rparr>"

definition RequestPeers :: "write_outcome \<Rightarrow> client \<Rightarrow> (client_error, unit) result \<times> client" where
  "RequestPeers w c =
     (if \<not> conn c then (Inl ErrNotConnected, c)
      else (case writeJSON_client w (Some peers_request) c of
         (False, c1) \<Rightarrow> (Inl WriteError, c1)
       | (True, c1) \<Rightarrow> (Inr (), c1)))"

text \<open>\<open>None\<close> as the result of a reading loop: still waiting for frames.\<close>

fun peers_loop :: "cread list \<Rightarrow> deliver_frame list \<Rightarrow>
    (client_error, string list option) result option \<times> deliver_frame list \<times> cread list" where
  "peers_loop [] strays = (None, strays, [])"
| "peers_loop (r # rs) strays =
     (case limited_client r of
        ReadFailed \<Rightarrow> (Some (Inl ReadError), strays, rs)
      | ReadClosed _ _ \<Rightarrow> (Some (Inl ReadError), strays, rs)
      | BinMsg _ \<Rightarrow> peers_loop rs strays
      | TextMsg data \<Rightarrow>
          (let ct = control_type data in
           if ct = ControlPeers then
             (case unmarshal_peers data of
                Inl _ \<Rightarrow> (Some (Inl PeersDecode), strays, rs)
              | Inr p \<Rightarrow> (Some (Inr (peers_Names p)), strays, rs))
           else if ct = ControlDeliver then
             (case unmarshal_deliver data of
                Inr d \<Rightarrow> peers_loop rs (strays @ [d])
              | Inl _ \<Rightarrow> peers_loop rs strays)
           else peers_loop rs strays))"

definition Peers :: "write_outcome \<Rightarrow> cread list \<Rightarrow> client \<Rightarrow>
    ((client_error, string list option) result option \<times> deliver_frame list \<times> cread list) \<times> client" where
  "Peers w reads c =
     (if \<not> conn c then ((Some (Inl ErrNotConnected), [], reads), c)
      else (case writeJSON_client w (Some peers_request) c of
         (False, c1) \<Rightarrow> ((Some (Inl WriteError), [], reads), c1)
       | (True, c1) \<Rightarrow> (peers_loop reads [], c1)))"

definition forwardPeers :: "bytes \<Rightarrow> client \<Rightarrow> client" where
  "forwardPeers data c =
     (case cl_sink c of
        None \<Rightarrow> c
      | Some buf \<Rightarrow>
          (case unmarshal_peers data of
             Inl _ \<Rightarrow> c
           | Inr p \<Rightarrow>
               (case buf of
                  None \<Rightarrow> c\<lparr>cl_sink := Some (Some (peers_Names p))\<rparr>
                | Some _ \<Rightarrow> c)))"

fun recv_loop :: "cread list \<Rightarrow> client \<Rightarrow> (client_error, deliver_frame) result option \<times> client \<times> cread list" where
  "recv_loop [] c = (None, c, [])"
| "recv_loop (r # rs) c =
     (case limited_client r of
        ReadFailed \<Rightarrow> (Some (Inl ReadError), c, rs)
      | ReadClosed _ _ \<Rightarrow> (Some (Inl ReadError), c, rs)
      | BinMsg _ \<Rightarrow> recv_loop rs c
      | TextMsg data \<Rightarrow>
          (let ct = control_type data in
           if ct \<noteq> ControlDeliver then
             (if ct = ControlPeers then recv_loop rs (forwardPeers data c) else recv_loop rs c)
           else
             (case unmarshal_deliver data of
                Inl _ \<Rightarrow> (Some (Inl DeliverDecode), c, rs)
              | Inr del \<Rightarrow>
                  if del_DeliveryKey del = [] then (Some (Inl ErrMissingDeliveryKey), c, rs)
                  else (case VerifyEnvelope (ccf_HMACSecret (cl_cfg c)) (del_Envelope del) of
                     Inl err \<Rightarrow> (Some (Inl (ErrInboundHMAC err)), c, rs)
                   | Inr _ \<Rightarrow> (Some (Inr del), c, rs)))))"

definition Recv :: "cread list \<Rightarrow> client \<Rightarrow> (client_error, deliver_frame) result option \<times> client \<times> cread list" where
  "Recv reads c =
     (if \<not> conn c then (Some (Inl ErrNotConnected), c, reads) else recv_loop reads c)"

definition Ack :: "write_outcome \<Rightarrow> string \<Rightarrow> client \<Rightarrow> (client_error, unit) result \<times> client" where
  "Ack w i c =
     (if \<not> conn c then (Inl ErrNotConnected, c)
      else (case writeJSON_client w
          (Some (marshal_ack \<lparr>ack_ProtocolVersion = ProtocolVersion, ack_Type = ControlAck, ack_ID = i\<rparr>)) c of
         (False, c1) \<Rightarrow> (Inl WriteError, c1)
       | (True, c1) \<Rightarrow> (Inr (), c1)))"

section \<open>Lemmas\<close>

lemma forwardPeers_simps [simp]:
  "cl_cfg (forwardPeers data c) = cl_cfg c" "cl_open (forwardPeers data c) = cl_open c"
  "cl_ws (forwardPeers data c) = cl_ws c" "cl_sent (forwardPeers data c) = cl_sent c"
  by (auto simp: forwardPeers_def split: option.splits sum.splits)

lemma recv_loop_keeps:
  "recv_loop reads c = (x, c', rest) \<Longrightarrow>
     cl_cfg c' = cl_cfg c \<and> cl_open c' = cl_open c \<and> cl_ws c' = cl_ws c \<and> cl_sent c' = cl_sent c"
proof (induction reads arbitrary: c)
  case (Cons r rs)
  from Cons.prems show ?case
    by (auto simp: Let_def split: cread.splits if_splits sum.splits dest: Cons.IH)
qed simp

lemma recv_loop_rest: "recv_loop reads c = (Some x, c', rest) \<Longrightarrow> length rest < length reads"
proof (induction reads arbitrary: c)
  case (Cons r rs)
  from Cons.prems show ?case
    by (auto simp: Let_def less_Suc_eq split: cread.splits if_splits sum.splits dest: Cons.IH)
qed simp

definition authentic :: "bytes \<Rightarrow> cread list \<Rightarrow> deliver_frame \<Rightarrow> bool" where
  "authentic secret reads del \<longleftrightarrow>
     VerifyEnvelope secret (del_Envelope del) = Inr () \<and> del_DeliveryKey del \<noteq> [] \<and>
     (\<exists>data. TextMsg data \<in> set reads \<and> length data \<le> MaxFrameBytes \<and> control_type data = ControlDeliver \<and>
        unmarshal_deliver data = Inr del)"

lemma authentic_Cons: "authentic secret rs del \<Longrightarrow> authentic secret (r # rs) del"
  by (auto simp: authentic_def)

lemma recv_loop_got:
  "recv_loop reads c = (Some (Inr del), c', rest) \<Longrightarrow> authentic (ccf_HMACSecret (cl_cfg c)) reads del"
proof (induction reads arbitrary: c)
  case (Cons r rs)
  show ?case
  proof (cases "limited_client r")
    case (TextMsg data)
    then have r: "r = TextMsg data" "length data \<le> MaxFrameBytes"
      by (auto simp: limited_client_def split: cread.splits if_splits)
    show ?thesis
    proof (cases "control_type data = ControlDeliver")
      case True
      with Cons.prems TextMsg r show ?thesis
        by (auto simp: authentic_def Let_def split: sum.splits if_splits)
    next
      case False
      with Cons.prems TextMsg show ?thesis
        using Cons.IH [of c] Cons.IH [of "forwardPeers data c"] by (auto simp: Let_def intro: authentic_Cons split: if_splits)
    qed
  qed (use Cons.prems Cons.IH in \<open>auto intro: authentic_Cons\<close>)
qed simp

text \<open>A delivery of an honestly signed envelope is received: \<open>Recv\<close> returns the envelope the sender
  signed, its body compacted, and the row key to acknowledge.\<close>

lemma recv_signed:
  assumes "SignEnvelope secret env = Inr sg" "wf_strings env" "body_fits 2 (env_Body env)" "valid_utf8 key" "key \<noteq> []"
    "marshal_deliver \<lparr>del_ProtocolVersion = ProtocolVersion, del_Type = ControlDeliver,
       del_DeliveryKey = key, del_Envelope = sg\<rparr> = Some fr" "length fr \<le> MaxFrameBytes"
    "conn c" "ccf_HMACSecret (cl_cfg c) = secret"
  shows "\<exists>del. Recv (TextMsg fr # rs) c = (Some (Inr del), c, rs) \<and> del_DeliveryKey del = key \<and> del_Envelope del = norm_envelope sg"
proof -
  obtain del where d: "unmarshal_deliver fr = Inr del" "del_DeliveryKey del = key" "del_Envelope del = norm_envelope sg"
    "VerifyEnvelope secret (del_Envelope del) = Inr ()"
    using hm.verify_delivered [OF assms(1-4,6)] by blast
  have "ControlTypeOf fr = Inr ControlDeliver"
    using ControlTypeOf_deliver [of "\<lparr>del_ProtocolVersion = ProtocolVersion, del_Type = ControlDeliver,
       del_DeliveryKey = key, del_Envelope = sg\<rparr>"] assms(3,6) hm.sign_keeps(3) [OF assms(1)] by auto
  then show ?thesis using d assms(5,7-9) by (intro exI [of _ del]) (auto simp: Recv_def control_type_def limited_client_def)
qed

end
