(* ===== verification/Dedupe.thy ===== *)
theory Dedupe
  imports Peerbus_Prelude "HOL-Library.AList"
begin

text \<open>
  Package \<open>internal/adapter\<close>, \<open>dedupe.go\<close> (and \<open>forget\<close> of \<open>reconnect.go\<close>): the bounded cache of message
  ids already handed to the host.  The doubly linked list is a list with the most recently
  seen id first; the index maps an id to its element, identified by the id it carries.
  Every method holds the mutex throughout, so a call is one atomic step.
\<close>

section \<open>dedupe.go\<close>

definition DefaultDedupeSize :: int where
  "DefaultDedupeSize = 4096"

record dedupe =
  dd_max :: int
  dd_ll :: "string list"
  dd_idx :: "(string \<times> string) list"

definition NewDedupe :: "int \<Rightarrow> dedupe" where
  "NewDedupe sz0 = (let sz = (if sz0 \<le> 0 then DefaultDedupeSize else sz0)
     in \<lparr>dd_max = sz, dd_ll = [], dd_idx = []\<rparr>)"

definition Seen :: "string \<Rightarrow> dedupe \<Rightarrow> bool \<times> dedupe" where
  "Seen i d =
     (case map_of (dd_idx d) i of
        Some el \<Rightarrow> (True, d\<lparr>dd_ll := el # remove1 el (dd_ll d)\<rparr>)
      | None \<Rightarrow>
          (let d1 = d\<lparr>dd_ll := i # dd_ll d, dd_idx := AList.update i i (dd_idx d)\<rparr>
           in if int (length (dd_ll d1)) > dd_max d1
              then (let oldest = last (dd_ll d1)
                    in (False, d1\<lparr>dd_ll := butlast (dd_ll d1), dd_idx := AList.delete oldest (dd_idx d1)\<rparr>))
              else (False, d1)))"

definition Len :: "dedupe \<Rightarrow> nat" where
  "Len d = length (dd_ll d)"

definition forget :: "string \<Rightarrow> dedupe \<Rightarrow> dedupe" where
  "forget i d =
     (case map_of (dd_idx d) i of
        Some el \<Rightarrow> d\<lparr>dd_ll := remove1 el (dd_ll d), dd_idx := AList.delete i (dd_idx d)\<rparr>
      | None \<Rightarrow> d)"

section \<open>Invariant and abstraction\<close>

definition dedupe_inv :: "dedupe \<Rightarrow> bool" where
  "dedupe_inv d \<longleftrightarrow> 0 < dd_max d \<and> distinct (dd_ll d) \<and> int (length (dd_ll d)) \<le> dd_max d \<and>
     distinct (map fst (dd_idx d)) \<and> list_all (\<lambda>(k, v). k = v) (dd_idx d) \<and> set (dd_ll d) = fst ` set (dd_idx d)"

lemma dedupe_inv_idx:
  "dedupe_inv d \<Longrightarrow> map_of (dd_idx d) i = (if i \<in> set (dd_ll d) then Some i else None)"
  by (auto simp: dedupe_inv_def list_all_iff map_of_eq_None_iff dest: map_of_SomeD split: option.splits)

text \<open>The abstract cache: the ids in order of recency, cut to the bound.\<close>

definition lru_touch :: "nat \<Rightarrow> string \<Rightarrow> string list \<Rightarrow> string list" where
  "lru_touch n i xs = take n (i # removeAll i xs)"

lemma list_all_update: "list_all (\<lambda>(k, v). k = v) al \<Longrightarrow> list_all (\<lambda>(k, v). k = v) (AList.update i i al)"
  by (induction al) auto

lemma list_all_delete: "list_all P al \<Longrightarrow> list_all P (AList.delete i al)"
  by (simp add: AList.delete_eq list_all_iff)

lemma delete_keys_set: "fst ` set (AList.delete k al) = fst ` set al - {k}"
  by (auto simp: AList.delete_eq)

lemma set_butlast_distinct: "xs \<noteq> [] \<Longrightarrow> distinct xs \<Longrightarrow> set (butlast xs) = set xs - {last xs}"
  by (cases xs rule: rev_cases) auto

lemma Seen_inv:
  assumes "dedupe_inv d"
  shows "dedupe_inv (snd (Seen i d))" "fst (Seen i d) \<longleftrightarrow> i \<in> set (dd_ll d)"
    "dd_ll (snd (Seen i d)) = lru_touch (nat (dd_max d)) i (dd_ll d)" "dd_max (snd (Seen i d)) = dd_max d"
proof -
  note inv = assms [unfolded dedupe_inv_def]
  have len: "length (dd_ll d) \<le> nat (dd_max d)" "0 < nat (dd_max d)" using inv by auto
  show "fst (Seen i d) \<longleftrightarrow> i \<in> set (dd_ll d)" "dd_max (snd (Seen i d)) = dd_max d"
    by (auto simp: Seen_def dedupe_inv_idx [OF assms] Let_def)
  show ll: "dd_ll (snd (Seen i d)) = lru_touch (nat (dd_max d)) i (dd_ll d)"
  proof (cases "i \<in> set (dd_ll d)")
    case True
    have "length (i # remove1 i (dd_ll d)) = length (dd_ll d)"
      using True length_pos_if_in_set [OF True] by (simp add: length_remove1)
    then show ?thesis using True len inv
      by (simp add: Seen_def dedupe_inv_idx [OF assms] lru_touch_def distinct_remove1_removeAll)
  next
    case False
    then have r: "removeAll i (dd_ll d) = dd_ll d" by simp
    show ?thesis
    proof (cases "int (Suc (length (dd_ll d))) > dd_max d")
      case True
      then have "nat (dd_max d) = length (dd_ll d)" using inv by auto
      then show ?thesis using False True r len(2)
        by (auto simp: Seen_def dedupe_inv_idx [OF assms] lru_touch_def Let_def butlast_conv_take take_Cons')
    next
      case big: False
      then show ?thesis using False r
        by (auto simp: Seen_def dedupe_inv_idx [OF assms] lru_touch_def Let_def take_Cons')
    qed
  qed
  have idx: "dedupe_inv (snd (Seen i d))" if "i \<in> set (dd_ll d)"
    using that inv by (auto simp: Seen_def dedupe_inv_idx [OF assms] dedupe_inv_def length_remove1)
  have "dedupe_inv (snd (Seen i d))" if n: "i \<notin> set (dd_ll d)"
  proof -
    let ?idx = "AList.update i i (dd_idx d)"
    have u: "distinct (map fst ?idx)" "list_all (\<lambda>(k, v). k = v) ?idx" "set (i # dd_ll d) = fst ` set ?idx"
      using inv by (simp_all add: distinct_update list_all_update dom_update)
    show ?thesis
    proof (cases "int (Suc (length (dd_ll d))) > dd_max d")
      case True
      have "set (butlast (i # dd_ll d)) = fst ` set (AList.delete (last (i # dd_ll d)) ?idx)"
        using u(3) n inv set_butlast_distinct [of "i # dd_ll d"] by (simp only: delete_keys_set) auto
      then show ?thesis using True n inv u
        by (auto simp: Seen_def dedupe_inv_idx [OF assms] dedupe_inv_def Let_def distinct_delete list_all_delete distinct_butlast
            dest: in_set_butlastD)
    qed (use n inv u in \<open>simp add: Seen_def dedupe_inv_idx [OF assms] dedupe_inv_def Let_def\<close>)
  qed
  with idx show "dedupe_inv (snd (Seen i d))" by blast
qed

lemma forget_inv:
  assumes "dedupe_inv d"
  shows "dedupe_inv (forget i d)" "dd_ll (forget i d) = removeAll i (dd_ll d)" "dd_max (forget i d) = dd_max d"
proof -
  note inv = assms [unfolded dedupe_inv_def]
  have "length (removeAll i (dd_ll d)) \<le> length (dd_ll d)" by (simp add: removeAll_filter_not_eq)
  then have "int (length (removeAll i (dd_ll d))) \<le> dd_max d" using inv by linarith
  then show "dedupe_inv (forget i d)" "dd_ll (forget i d) = removeAll i (dd_ll d)" "dd_max (forget i d) = dd_max d"
    using inv by (auto simp: forget_def dedupe_inv_idx [OF assms] dedupe_inv_def distinct_remove1_removeAll
        distinct_delete list_all_delete delete_keys_set distinct_removeAll)
qed

lemma NewDedupe_inv [simp]: "dedupe_inv (NewDedupe n)"
  by (simp add: NewDedupe_def dedupe_inv_def DefaultDedupeSize_def)

lemma NewDedupe_ll [simp]: "dd_ll (NewDedupe n) = []"
  by (simp add: NewDedupe_def Let_def)

section \<open>The interface of a seen-id cache\<close>

text \<open>What the resume loop relies on: \<open>seen\<close> answers by membership and records the id, and \<open>forget\<close>
  removes exactly one id.  The cache may lose other ids.\<close>

locale seen_cache =
  fixes seen :: "string \<Rightarrow> 'c \<Rightarrow> bool \<times> 'c"
    and drop_id :: "string \<Rightarrow> 'c \<Rightarrow> 'c"
    and ids :: "'c \<Rightarrow> string set"
    and ok :: "'c \<Rightarrow> bool"
  assumes seen_ok: "ok c \<Longrightarrow> ok (snd (seen i c))"
    and seen_iff: "ok c \<Longrightarrow> fst (seen i c) \<longleftrightarrow> i \<in> ids c"
    and seen_ids: "ok c \<Longrightarrow> ids (snd (seen i c)) \<subseteq> insert i (ids c)"
    and seen_self: "ok c \<Longrightarrow> i \<in> ids (snd (seen i c))"
    and drop_ok: "ok c \<Longrightarrow> ok (drop_id i c)"
    and drop_ids: "ok c \<Longrightarrow> ids (drop_id i c) = ids c - {i}"
begin

lemma seen_twice: "ok c \<Longrightarrow> fst (seen i (snd (seen i c)))"
  using seen_ok seen_iff seen_self by blast

lemma seen_dropped: "ok c \<Longrightarrow> \<not> fst (seen i (drop_id i c))"
  using drop_ok seen_iff drop_ids by blast

end

interpretation dd: seen_cache Seen forget "\<lambda>d. set (dd_ll d)" dedupe_inv
proof unfold_locales
  fix c :: dedupe and i
  assume "dedupe_inv c"
  then show "dedupe_inv (snd (Seen i c))" "fst (Seen i c) \<longleftrightarrow> i \<in> set (dd_ll c)" "dedupe_inv (forget i c)"
    "set (dd_ll (forget i c)) = set (dd_ll c) - {i}"
    by (simp_all add: Seen_inv forget_inv)
  have n: "0 < nat (dd_max c)" using \<open>dedupe_inv c\<close> by (simp add: dedupe_inv_def)
  have ll: "dd_ll (snd (Seen i c)) = lru_touch (nat (dd_max c)) i (dd_ll c)" using \<open>dedupe_inv c\<close> by (simp add: Seen_inv)
  show "set (dd_ll (snd (Seen i c))) \<subseteq> insert i (set (dd_ll c))"
    using set_take_subset [of "nat (dd_max c)" "i # removeAll i (dd_ll c)"] by (auto simp: ll lru_touch_def)
  show "i \<in> set (dd_ll (snd (Seen i c)))" using n by (simp add: ll lru_touch_def take_Cons')
qed

section \<open>Recency\<close>

text \<open>The ids of a run, latest first, without repetitions.\<close>

fun nub :: "string list \<Rightarrow> string list" where
  "nub [] = []"
| "nub (x # xs) = x # removeAll x (nub xs)"

lemma set_nub [simp]: "set (nub xs) = set xs"
  by (induction xs) auto

lemma distinct_nub [simp]: "distinct (nub xs)"
  by (induction xs) (auto simp: distinct_removeAll)

lemma take_removeAll_take:
  "distinct xs \<Longrightarrow> take n (x # removeAll x (take n xs)) = take n (x # removeAll x xs)"
proof (induction xs arbitrary: n)
  case (Cons y ys)
  show ?case
  proof (cases n)
    case (Suc m)
    show ?thesis
    proof (cases "x = y")
      case True
      then have "x \<notin> set ys" "x \<notin> set (take m ys)" using Cons.prems by (auto dest: in_set_takeD)
      with True Suc show ?thesis by (simp add: take_take)
    next
      case False
      from Cons.IH [of m] Cons.prems have "take m (x # removeAll x (take m ys)) = take m (x # removeAll x ys)" by simp
      then have "take (m - 1) (removeAll x (take m ys)) = take (m - 1) (removeAll x ys)"
        by (cases m) simp_all
      with False Suc show ?thesis by (cases m) simp_all
    qed
  qed simp
qed simp

lemma lru_touch_nub: "lru_touch n i (take n (nub xs)) = take n (nub (i # xs))"
  by (simp add: lru_touch_def take_removeAll_take)

definition see_all :: "string list \<Rightarrow> dedupe \<Rightarrow> dedupe" where
  "see_all xs d = fold (\<lambda>i d. snd (Seen i d)) xs d"

lemma see_all_nub:
  assumes "dedupe_inv d" "dd_ll d = take (nat (dd_max d)) (nub ys)"
  shows "dedupe_inv (see_all xs d) \<and> dd_max (see_all xs d) = dd_max d \<and>
    dd_ll (see_all xs d) = take (nat (dd_max d)) (nub (rev xs @ ys))"
  using assms
proof (induction xs arbitrary: d ys)
  case (Cons x xs)
  have "dd_ll (snd (Seen x d)) = take (nat (dd_max d)) (nub (x # ys))"
    using Cons.prems Seen_inv(3) [OF Cons.prems(1), of x] lru_touch_nub by simp
  with Cons.IH [of "snd (Seen x d)" "x # ys"] Seen_inv [OF Cons.prems(1), of x] show ?case
    by (simp add: see_all_def)
qed (simp add: see_all_def)

lemma nub_append: "nub (xs @ ys) = nub xs @ filter (\<lambda>y. y \<notin> set xs) (nub ys)"
proof (induction xs)
  case (Cons x xs)
  have "removeAll x (filter (\<lambda>y. y \<notin> set xs) (nub ys)) = filter (\<lambda>y. y \<notin> set (x # xs)) (nub ys)"
    by (auto simp: removeAll_filter_not_eq intro: filter_cong)
  with Cons show ?case by simp
qed simp

lemma length_nub: "length (nub xs) = card (set xs)"
  by (metis distinct_card distinct_nub set_nub)

section \<open>Properties of the dedupe cache\<close>

text \<open>C34: The linked list and index implement a least-recently-used set: whatever sequence of
  \<open>Seen\<close> calls has run on a fresh cache, the ids held are the most recent distinct ones up to
  the bound, the index agrees with the list, and \<open>Seen\<close> answers whether the id is held.\<close>

theorem dedupe_refines_lru:
  "dd_ll (see_all xs (NewDedupe n)) = take (nat (dd_max (NewDedupe n))) (nub (rev xs)) \<and>
   set (dd_ll (see_all xs (NewDedupe n))) = fst ` set (dd_idx (see_all xs (NewDedupe n))) \<and>
   fst (Seen i (see_all xs (NewDedupe n))) = (i \<in> set (take (nat (dd_max (NewDedupe n))) (nub (rev xs)))) \<and>
   int (Len (see_all xs (NewDedupe n))) \<le> dd_max (NewDedupe n)"
proof -
  have s: "dedupe_inv (see_all xs (NewDedupe n))" "dd_max (see_all xs (NewDedupe n)) = dd_max (NewDedupe n)"
    "dd_ll (see_all xs (NewDedupe n)) = take (nat (dd_max (NewDedupe n))) (nub (rev xs))"
    using see_all_nub [of "NewDedupe n" "[]" xs] by simp_all
  then show ?thesis using Seen_inv(2) [OF s(1), of i] by (simp add: dedupe_inv_def Len_def)
qed

text \<open>No duplicate slips through inside the window: an id that has been recorded is still
  recognised as long as fewer than the bound many other distinct ids have been seen since.\<close>

theorem recent_ids_remembered:
  assumes "card (set later - {i}) < nat (dd_max (NewDedupe n))"
  shows "fst (Seen i (see_all (earlier @ i # later) (NewDedupe n)))"
proof -
  let ?m = "nat (dd_max (NewDedupe n))"
  have s: "dedupe_inv (see_all (earlier @ i # later) (NewDedupe n))"
    "dd_ll (see_all (earlier @ i # later) (NewDedupe n)) = take ?m (nub (rev later @ i # rev earlier))"
    using see_all_nub [of "NewDedupe n" "[]" "earlier @ i # later"] by simp_all
  have "i \<in> set (take ?m (nub (rev later @ i # rev earlier)))"
  proof (cases "i \<in> set later")
    case True
    then obtain a b where l: "rev later = a @ i # b" "i \<notin> set a" using split_list_first [of i "rev later"] by auto
    then have "set (rev later) = set a \<union> insert i (set b)" by (simp only: l set_append list.set)
    then have "set a \<subseteq> set later - {i}" using l(2) by auto
    then have "length (nub a) \<le> card (set later - {i})"
      unfolding length_nub by (intro card_mono) simp_all
    with assms have "length (nub a) < ?m" by simp
    moreover have "nub (rev later @ i # rev earlier) = nub a @ i # tl (filter (\<lambda>y. y \<notin> set a) (nub (i # b @ i # rev earlier)))"
      using l by (simp add: nub_append)
    ultimately show ?thesis by (simp add: take_Cons')
  next
    case False
    then have "length (nub (rev later)) < ?m" using assms by (simp add: length_nub)
    with False show ?thesis by (simp add: nub_append take_Cons')
  qed
  with s show ?thesis by (simp add: Seen_inv)
qed

theorem recent_ids_remembered_witness: "fst (Seen ''a'' (see_all ([] @ ''a'' # [''b'', ''c'', ''b'']) (NewDedupe 3)))"
proof (rule recent_ids_remembered)
  have "set [''b'', ''c'', ''b''] - {''a''} = {''b'', ''c''}" by auto
  then show "card (set [''b'', ''c'', ''b''] - {''a''}) < nat (dd_max (NewDedupe 3))" by (simp add: NewDedupe_def)
qed

end
