(* ===== verification/Resume.thy ===== *)
theory Resume
  imports Client Dedupe
begin

text \<open>
  Package \<open>internal/adapter\<close>, \<open>reconnect.go\<close>: the resume loop that redials, re-registers under the
  same name, and hands every verified, not yet seen message to the host before it
  acknowledges it.  The host's handler is an argument; it returns whether it consumed the
  message.  The reads of a connection end when it drops.
\<close>

section \<open>reconnect.go\<close>

definition baseBackoff :: int where
  "baseBackoff = 100 * 1000000"

definition maxBackoff :: int where
  "maxBackoff = 5 * 1000000000"

record 'h resuming =
  rc_cfg :: ClientConfig
  rc_dedupe :: dedupe
  rc_cur :: "client option"
  rc_onConnect :: bool
  rc_fired :: nat
  rc_waits :: "int list"
  rc_host :: 'h
  rc_tick :: nat

type_synonym 'h handler = "'h \<Rightarrow> envelope \<Rightarrow> bool \<times> 'h"

definition NewResumingClient :: "ClientConfig \<Rightarrow> int \<Rightarrow> 'h \<Rightarrow> 'h resuming" where
  "NewResumingClient cfg dedupeSize host =
     \<lparr>rc_cfg = cfg, rc_dedupe = NewDedupe dedupeSize, rc_cur = None, rc_onConnect = False, rc_fired = 0,
      rc_waits = [], rc_host = host, rc_tick = 0\<rparr>"

definition Client_of :: "'h resuming \<Rightarrow> client option" where
  "Client_of rc = rc_cur rc"

definition SetOnConnect :: "bool \<Rightarrow> 'h resuming \<Rightarrow> 'h resuming" where
  "SetOnConnect fn rc = rc\<lparr>rc_onConnect := fn\<rparr>"

definition Name_of :: "'h resuming \<Rightarrow> string" where
  "Name_of rc = ccf_Name (rc_cfg rc)"

definition filterSelf :: "string list option \<Rightarrow> string \<Rightarrow> string list option" where
  "filterSelf names self =
     (if self = [] then names
      else Some (filter (\<lambda>n. n \<noteq> self) (case names of None \<Rightarrow> [] | Some ns \<Rightarrow> ns)))"

definition next_backoff :: "int \<Rightarrow> int" where
  "next_backoff b =
     (if b < maxBackoff then (let b2 = b * 2 in if b2 > maxBackoff then maxBackoff else b2) else b)"

text \<open>One dial attempt: what \<open>Connect\<close> meets, the number drawn by the random generator if it fails, and
  what the reads of the connection return if it succeeds.  The list of attempts ends when the
  context is cancelled.\<close>

record session =
  se_dial :: bool
  se_write :: write_outcome
  se_first :: cread
  se_rand :: nat
  se_reads :: "cread list"

fun connect :: "session list \<Rightarrow> int \<Rightarrow> 'h resuming \<Rightarrow>
    (client_error, client \<times> cread list) result option \<times> 'h resuming \<times> session list" where
  "connect [] backoff rc = (None, rc, [])"
| "connect (se # ses) backoff rc =
     (case Connect (se_dial se) (se_write se) (se_first se) (NewClient (rc_cfg rc)) of
        (Inr _, c) \<Rightarrow>
          (Some (Inr (c, se_reads se)),
           rc\<lparr>rc_cur := Some c, rc_fired := rc_fired rc + (if rc_onConnect rc then 1 else 0)\<rparr>, ses)
      | (Inl err, _) \<Rightarrow>
          if err = ErrNameClaimed then (Some (Inl err), rc, ses)
          else (let jitter = int (se_rand se) mod (backoff div 2 + 1)
                in connect ses (next_backoff backoff) (rc\<lparr>rc_waits := rc_waits rc @ [backoff + jitter]\<rparr>)))"

definition surface :: "(nat \<Rightarrow> write_outcome) \<Rightarrow> 'h handler \<Rightarrow> deliver_frame \<Rightarrow> 'h resuming \<times> client \<Rightarrow> 'h resuming \<times> client" where
  "surface aw h del = (\<lambda>(rc, c).
     (let env = del_Envelope del;
          tick = Suc (rc_tick rc)
      in case Seen (env_ID env) (rc_dedupe rc) of
           (True, d) \<Rightarrow> (rc\<lparr>rc_dedupe := d, rc_tick := tick\<rparr>, snd (Ack (aw (rc_tick rc)) (del_DeliveryKey del) c))
         | (False, d) \<Rightarrow>
             (case h (rc_host rc) env of
                (False, hs) \<Rightarrow> (rc\<lparr>rc_dedupe := forget (env_ID env) d, rc_host := hs\<rparr>, c)
              | (True, hs) \<Rightarrow>
                  (rc\<lparr>rc_dedupe := d, rc_host := hs, rc_tick := tick\<rparr>,
                   snd (Ack (aw (rc_tick rc)) (del_DeliveryKey del) c)))))"

text \<open>Errors after which the loop goes on reading the same connection: a failed signature or a
  missing delivery key.\<close>

definition droppable :: "client_error \<Rightarrow> bool" where
  "droppable err = (case err of ErrMissingDeliveryKey \<Rightarrow> True | ErrInboundHMAC _ \<Rightarrow> True | _ \<Rightarrow> False)"

function pump :: "(nat \<Rightarrow> write_outcome) \<Rightarrow> 'h handler \<Rightarrow> cread list \<Rightarrow> 'h resuming \<times> client \<Rightarrow> 'h resuming \<times> client" where
  "pump aw h reads (rc, c) =
     (case Recv reads c of
        (None, c1, rest) \<Rightarrow> (rc, c1)
      | (Some (Inr del), c1, rest) \<Rightarrow> if length rest < length reads then pump aw h rest (surface aw h del (rc, c1)) else (rc, c1)
      | (Some (Inl err), c1, rest) \<Rightarrow>
          if length rest < length reads \<and> droppable err
          then pump aw h rest (rc, c1) else (rc, c1))"
  by pat_completeness auto
termination by (relation "measure (\<lambda>(aw, h, reads, s). length reads)") auto

declare pump.simps [simp del]

lemma connect_rest: "connect ses b rc = (Some x, rc', rest) \<Longrightarrow> length rest < length ses"
  by (induction ses b rc rule: connect.induct) (auto simp: Let_def less_Suc_eq split: prod.splits sum.splits if_splits)

function Run :: "(nat \<Rightarrow> write_outcome) \<Rightarrow> 'h handler \<Rightarrow> session list \<Rightarrow> 'h resuming \<Rightarrow> client_error option \<times> 'h resuming" where
  "Run aw h ses rc =
     (case connect ses baseBackoff rc of
        (None, rc1, _) \<Rightarrow> (None, rc1)
      | (Some (Inl err), rc1, _) \<Rightarrow> (Some err, rc1)
      | (Some (Inr (c, reads)), rc1, rest) \<Rightarrow>
          (case pump aw h reads (rc1, c) of
             (rc2, c1) \<Rightarrow> Run aw h rest (rc2\<lparr>rc_cur := Some (Close_client c1)\<rparr>)))"
  by pat_completeness auto
termination by (relation "measure (\<lambda>(aw, h, ses, rc). length ses)") (auto dest: connect_rest [OF sym])

declare Run.simps [simp del]

section \<open>Redial backoff\<close>

definition backoff_at :: "nat \<Rightarrow> int" where
  "backoff_at k = min maxBackoff (baseBackoff * 2 ^ k)"

lemma backoff_at_0: "backoff_at 0 = baseBackoff"
  by (simp add: backoff_at_def baseBackoff_def maxBackoff_def)

lemma next_backoff_at: "next_backoff (backoff_at k) = backoff_at (Suc k)"
  by (auto simp: next_backoff_def backoff_at_def min_def Let_def baseBackoff_def maxBackoff_def)

lemma connect_waits:
  "connect ses (backoff_at k) rc = (x, rc', rest) \<Longrightarrow>
     \<exists>ws. rc_waits rc' = rc_waits rc @ ws \<and> (x = None \<longrightarrow> length ws = length ses) \<and>
       (\<forall>i < length ws. backoff_at (k + i) \<le> ws ! i \<and> ws ! i \<le> backoff_at (k + i) + backoff_at (k + i) div 2)"
proof (induction ses arbitrary: k rc)
  case (Cons se ses)
  let ?b = "backoff_at k"
  let ?w = "?b + int (se_rand se) mod (?b div 2 + 1)"
  obtain y c where C: "Connect (se_dial se) (se_write se) (se_first se) (NewClient (rc_cfg rc)) = (y, c)" by fastforce
  show ?case
  proof (cases "\<exists>err. y = Inl err \<and> err \<noteq> ErrNameClaimed")
    case True
    then have "connect ses (backoff_at (Suc k)) (rc\<lparr>rc_waits := rc_waits rc @ [?w]\<rparr>) = (x, rc', rest)"
      using Cons.prems C by (auto simp: Let_def next_backoff_at)
    from Cons.IH [OF this] obtain ws where ws: "rc_waits rc' = rc_waits rc @ ?w # ws" "x = None \<longrightarrow> length ws = length ses"
      "\<forall>i < length ws. backoff_at (Suc k + i) \<le> ws ! i \<and> ws ! i \<le> backoff_at (Suc k + i) + backoff_at (Suc k + i) div 2"
      by auto
    have pos: "0 < ?b div 2 + 1" by (simp add: backoff_at_def baseBackoff_def maxBackoff_def pos_imp_zdiv_nonneg_iff add_nonneg_pos)
    have w: "?b \<le> ?w \<and> ?w \<le> ?b + ?b div 2"
      using pos_mod_bound [OF pos, of "int (se_rand se)"] pos_mod_sign [OF pos, of "int (se_rand se)"] by linarith
    show ?thesis
    proof (intro exI [of _ "?w # ws"] conjI allI impI)
      fix i assume "i < length (?w # ws)"
      then show "backoff_at (k + i) \<le> (?w # ws) ! i" "(?w # ws) ! i \<le> backoff_at (k + i) + backoff_at (k + i) div 2"
        using w ws(3) by (cases i; simp)+
    qed (use ws in auto)
  next
    case False
    then show ?thesis using Cons.prems C by (intro exI [of _ "[]"]) (auto split: sum.splits)
  qed
qed simp

text \<open>C37: Redialling backs off exponentially within bounds: while the broker is down the waits between
  attempts double from \<open>baseBackoff\<close> up to \<open>maxBackoff\<close>, each with a jitter of at most half of it, and
  there is one wait per failed attempt.\<close>

theorem redial_backoff_bounded:
  assumes "connect ses baseBackoff rc = (x, rc', rest)"
  shows "\<exists>ws. rc_waits rc' = rc_waits rc @ ws \<and> (x = None \<longrightarrow> length ws = length ses) \<and>
    (\<forall>i < length ws. min maxBackoff (baseBackoff * 2 ^ i) \<le> ws ! i \<and>
       ws ! i \<le> min maxBackoff (baseBackoff * 2 ^ i) + min maxBackoff (baseBackoff * 2 ^ i) div 2)"
  using connect_waits [OF assms [folded backoff_at_0]] by (simp add: backoff_at_def)

definition demo_client :: ClientConfig where
  "demo_client = \<lparr>ccf_URL = ''ws://b'', ccf_Token = ''t'', ccf_Name = ''bob'', ccf_HMACSecret = demo_secret\<rparr>"

definition demo_offline :: session where
  "demo_offline = \<lparr>se_dial = False, se_write = Written, se_first = ReadFailed, se_rand = 7, se_reads = []\<rparr>"

lemma demo_offline_Connect:
  "Connect (se_dial demo_offline) (se_write demo_offline) (se_first demo_offline) (NewClient demo_client) = (Inl DialFailed, NewClient demo_client)"
  by (simp add: Connect_def demo_offline_def NewClient_def demo_client_def demo_secret_def MinSecretLen_def)

theorem redial_backoff_bounded_witness:
  "\<exists>ws. rc_waits (fst (snd (connect (replicate 9 demo_offline) baseBackoff (NewResumingClient demo_client 8 ())))) = ws \<and>
     length ws = 9 \<and> maxBackoff \<le> ws ! 8 \<and> ws ! 8 \<le> maxBackoff + maxBackoff div 2"
proof -
  let ?rc = "NewResumingClient demo_client 8 ()"
  obtain x rc' rest where c: "connect (replicate 9 demo_offline) baseBackoff ?rc = (x, rc', rest)" using prod_cases3 by blast
  have "x = None" using arg_cong [OF c, of fst]
    by (simp add: numeral_eq_Suc Let_def NewResumingClient_def demo_offline_Connect)
  with redial_backoff_bounded [OF c] obtain ws where ws: "rc_waits rc' = ws" "length ws = 9"
    "\<forall>i < length ws. min maxBackoff (baseBackoff * 2 ^ i) \<le> ws ! i \<and>
       ws ! i \<le> min maxBackoff (baseBackoff * 2 ^ i) + min maxBackoff (baseBackoff * 2 ^ i) div 2"
    by (auto simp: NewResumingClient_def)
  have "min maxBackoff (baseBackoff * 2 ^ 8) = maxBackoff" by (simp add: baseBackoff_def maxBackoff_def)
  then show ?thesis using ws(3) [rule_format, of 8] ws(1,2) by (intro exI [of _ ws]) (simp add: c)
qed

section \<open>What a connection delivers\<close>

fun deliveries :: "bytes \<Rightarrow> cread list \<Rightarrow> deliver_frame list" where
  "deliveries secret [] = []"
| "deliveries secret (r # rs) =
     (case limited_client r of
        ReadFailed \<Rightarrow> []
      | ReadClosed _ _ \<Rightarrow> []
      | BinMsg _ \<Rightarrow> deliveries secret rs
      | TextMsg data \<Rightarrow>
          if control_type data \<noteq> ControlDeliver then deliveries secret rs
          else (case unmarshal_deliver data of
             Inl _ \<Rightarrow> []
           | Inr del \<Rightarrow>
               if del_DeliveryKey del \<noteq> [] \<and> VerifyEnvelope secret (del_Envelope del) = Inr ()
               then del # deliveries secret rs else deliveries secret rs))"

text \<open>A frame that the broker wraps around an honestly signed envelope is a delivery of that
  envelope, its body compacted.\<close>

lemma deliveries_signed:
  assumes "SignEnvelope secret env = Inr sg" "wf_strings env" "body_fits 2 (env_Body env)" "valid_utf8 key" "key \<noteq> []"
    "marshal_deliver \<lparr>del_ProtocolVersion = ProtocolVersion, del_Type = ControlDeliver,
       del_DeliveryKey = key, del_Envelope = sg\<rparr> = Some fr" "length fr \<le> MaxFrameBytes"
  shows "\<exists>del. del_DeliveryKey del = key \<and> del_Envelope del = norm_envelope sg \<and>
    (\<forall>rs. deliveries secret (TextMsg fr # rs) = del # deliveries secret rs)"
proof -
  obtain del where d: "unmarshal_deliver fr = Inr del" "del_DeliveryKey del = key" "del_Envelope del = norm_envelope sg"
    "VerifyEnvelope secret (del_Envelope del) = Inr ()"
    using hm.verify_delivered [OF assms(1-4,6)] by blast
  have "ControlTypeOf fr = Inr ControlDeliver"
    using ControlTypeOf_deliver [of "\<lparr>del_ProtocolVersion = ProtocolVersion, del_Type = ControlDeliver,
       del_DeliveryKey = key, del_Envelope = sg\<rparr>"] assms(3,6) hm.sign_keeps(3) [OF assms(1)] by auto
  then show ?thesis using d assms(5,7) by (intro exI [of _ del]) (auto simp: control_type_def limited_client_def)
qed

lemma recv_loop_deliveries:
  "recv_loop reads c = (x, c', rest) \<Longrightarrow> ccf_HMACSecret (cl_cfg c) = sec \<Longrightarrow> deliveries sec reads =
     (case x of
        None \<Rightarrow> []
      | Some (Inr del) \<Rightarrow> del # deliveries sec rest
      | Some (Inl err) \<Rightarrow> if droppable err then deliveries sec rest else [])"
proof (induction reads arbitrary: c)
  case (Cons r rs)
  show ?case
  proof (cases "limited_client r")
    case (TextMsg data)
    show ?thesis
    proof (cases "control_type data = ControlDeliver")
      case True
      with Cons.prems TextMsg show ?thesis
        by (auto simp: droppable_def split: sum.splits if_splits)
    next
      case False
      then have "recv_loop rs (if control_type data = ControlPeers then forwardPeers data c else c) = (x, c', rest)"
        using Cons.prems(1) TextMsg by (simp add: Let_def split: if_splits)
      from Cons.IH [OF this] Cons.prems(2) False TextMsg show ?thesis by simp
    qed
  qed (use Cons in \<open>auto simp: droppable_def\<close>)
qed auto

lemma Ack_keeps [simp]: "cl_cfg (snd (Ack w i c)) = cl_cfg c" "conn (snd (Ack w i c)) = conn c"
  by (auto simp: Ack_def writeJSON_client_def Let_def conn_def split: write_outcome.splits)

lemma surface_keeps:
  "cl_cfg (snd (surface aw h del (rc, c))) = cl_cfg c" "conn (snd (surface aw h del (rc, c))) = conn c"
  "rc_cfg (fst (surface aw h del (rc, c))) = rc_cfg rc"
  by (auto simp: surface_def Let_def split: prod.splits bool.splits)

text \<open>The pump is the surfacing of the connection's deliveries, one after the other, whatever is
  forwarded to the peers sink in between.\<close>

definition no_sink :: "client \<Rightarrow> client" where
  "no_sink c = c\<lparr>cl_sink := None\<rparr>"

lemma no_sink_simps [simp]:
  "cl_cfg (no_sink c) = cl_cfg c" "cl_sent (no_sink c) = cl_sent c" "conn (no_sink c) = conn c" "no_sink (no_sink c) = no_sink c"
  by (simp_all add: no_sink_def conn_def)

lemma no_sink_Ack: "no_sink (snd (Ack w k c)) = snd (Ack w k (no_sink c))"
  by (simp add: Ack_def writeJSON_client_def no_sink_def conn_def Let_def split: write_outcome.splits)

lemma no_sink_surface: "map_prod id no_sink (surface aw h del (rc, c)) = surface aw h del (rc, no_sink c)"
  by (simp add: surface_def Let_def no_sink_Ack split: prod.splits bool.splits)

lemma recv_no_sink: "recv_loop reads c = (x, c1, rest) \<Longrightarrow> no_sink c1 = no_sink c"
  using recv_loop_keeps [of reads c x c1 rest] by (simp add: no_sink_def)

lemma pump_fold:
  assumes "conn c" "ccf_HMACSecret (cl_cfg c) = sec"
  shows "map_prod id no_sink (pump aw h reads (rc, c)) = fold (surface aw h) (deliveries sec reads) (rc, no_sink c)"
  using assms
proof (induction "length reads" arbitrary: reads rc c rule: less_induct)
  case less
  obtain x c1 rest where r: "recv_loop reads c = (x, c1, rest)" using prod_cases3 by blast
  note d = recv_loop_deliveries [OF r less.prems(2)] and k = recv_loop_keeps [OF r] and e = recv_no_sink [OF r]
  have c1: "conn c1" "ccf_HMACSecret (cl_cfg c1) = sec" using k less.prems by (simp_all add: conn_def split: if_splits)
  have p: "pump aw h reads (rc, c) = (case x of None \<Rightarrow> (rc, c1)
      | Some (Inr del) \<Rightarrow> if length rest < length reads then pump aw h rest (surface aw h del (rc, c1)) else (rc, c1)
      | Some (Inl err) \<Rightarrow> if length rest < length reads \<and> droppable err then pump aw h rest (rc, c1) else (rc, c1))"
    using less.prems(1) r by (simp add: pump.simps [of aw h reads] Recv_def split: option.splits sum.splits)
  show ?case
  proof (cases x)
    case (Some y)
    have len: "length rest < length reads" using recv_loop_rest r Some by blast
    show ?thesis
    proof (cases y)
      case (Inr del)
      obtain rc2 c2 where s: "surface aw h del (rc, c1) = (rc2, c2)" by fastforce
      have "conn c2" "ccf_HMACSecret (cl_cfg c2) = sec"
        using surface_keeps(1,2) [of aw h del rc c1] s c1 by simp_all
      from less.hyps [OF len this] no_sink_surface [of aw h del rc c1] s d p Some Inr len e show ?thesis by simp
    next
      case (Inl err)
      with less.hyps [OF len c1] d p Some len e show ?thesis by auto
    qed
  qed (use d p e in simp)
qed

lemma fold_surface_induct:
  assumes "\<And>del rc c. del \<in> set ds \<Longrightarrow> P rc (cl_sent c) \<Longrightarrow>
      P (fst (surface aw h del (rc, c))) (cl_sent (snd (surface aw h del (rc, c))))"
    and "P rc (cl_sent c)"
  shows "P (fst (fold (surface aw h) ds (rc, c))) (cl_sent (snd (fold (surface aw h) ds (rc, c))))"
  using assms
proof (induction ds arbitrary: rc c)
  case (Cons del ds)
  obtain rc1 c1 where s: "surface aw h del (rc, c) = (rc1, c1)" by fastforce
  then have "P rc1 (cl_sent c1)" using Cons.prems(1) [of del rc c] Cons.prems(2) by simp
  from Cons.IH [OF _ this] Cons.prems(1) s show ?case by simp
qed simp

lemma pump_view:
  assumes "conn c"
  shows "fst (pump aw h reads (rc, c)) = fst (fold (surface aw h) (deliveries (ccf_HMACSecret (cl_cfg c)) reads) (rc, no_sink c))"
    "cl_sent (snd (pump aw h reads (rc, c))) =
      cl_sent (snd (fold (surface aw h) (deliveries (ccf_HMACSecret (cl_cfg c)) reads) (rc, no_sink c)))"
proof -
  note f = pump_fold [OF assms refl, of aw h reads rc]
  show "fst (pump aw h reads (rc, c)) = fst (fold (surface aw h) (deliveries (ccf_HMACSecret (cl_cfg c)) reads) (rc, no_sink c))"
    using arg_cong [OF f, of fst] by simp
  show "cl_sent (snd (pump aw h reads (rc, c))) =
      cl_sent (snd (fold (surface aw h) (deliveries (ccf_HMACSecret (cl_cfg c)) reads) (rc, no_sink c)))"
    using arg_cong [OF f, of "cl_sent \<circ> snd"] by simp
qed

lemma pump_not_connected: "\<not> conn c \<Longrightarrow> pump aw h reads (rc, c) = (rc, c)"
  by (simp add: pump.simps Recv_def)

lemma pump_induct:
  assumes "\<And>del rc c'. del \<in> set (deliveries (ccf_HMACSecret (cl_cfg c)) reads) \<Longrightarrow> P rc (cl_sent c') \<Longrightarrow>
      P (fst (surface aw h del (rc, c'))) (cl_sent (snd (surface aw h del (rc, c'))))"
    and "P rc (cl_sent c)"
  shows "P (fst (pump aw h reads (rc, c))) (cl_sent (snd (pump aw h reads (rc, c))))"
proof (cases "conn c")
  case True
  then show ?thesis unfolding pump_view [OF True]
    using fold_surface_induct [of "deliveries (ccf_HMACSecret (cl_cfg c)) reads" P aw h rc "no_sink c"] assms by simp
qed (use assms in \<open>simp add: pump_not_connected\<close>)

section \<open>The host's view\<close>

text \<open>A host that also keeps the list of the messages it consumed.\<close>

definition logging :: "'h handler \<Rightarrow> ('h \<times> envelope list) handler" where
  "logging h = (\<lambda>(hs, log) e. case h hs e of (ok, hs') \<Rightarrow> (ok, (hs', if ok then log @ [e] else log)))"

definition consumed :: "('h \<times> envelope list) resuming \<Rightarrow> envelope list" where
  "consumed rc = snd (rc_host rc)"

text \<open>Every id in the cache belongs to a consumed message.\<close>

definition seen_consumed :: "('h \<times> envelope list) resuming \<Rightarrow> bool" where
  "seen_consumed rc \<longleftrightarrow> dedupe_inv (rc_dedupe rc) \<and> set (dd_ll (rc_dedupe rc)) \<subseteq> env_ID ` set (consumed rc)"

definition ack_bytes :: "string \<Rightarrow> bytes" where
  "ack_bytes k = marshal_ack \<lparr>ack_ProtocolVersion = ProtocolVersion, ack_Type = ControlAck, ack_ID = k\<rparr>"

lemma Ack_sent: "cl_sent (snd (Ack w k c)) = cl_sent c \<or> cl_sent (snd (Ack w k c)) = cl_sent c @ [ack_bytes k]"
  by (auto simp: Ack_def writeJSON_client_def ack_bytes_def Let_def split: write_outcome.splits)

text \<open>The three outcomes of \<open>surface\<close>.\<close>

lemma surface_cases:
  obtains (dup) "fst (Seen (env_ID (del_Envelope del)) (rc_dedupe rc))"
      "surface aw (logging h) del (rc, c) = (rc\<lparr>rc_dedupe := snd (Seen (env_ID (del_Envelope del)) (rc_dedupe rc)), rc_tick := Suc (rc_tick rc)\<rparr>,
         snd (Ack (aw (rc_tick rc)) (del_DeliveryKey del) c))"
  | (refused) hs where "\<not> fst (Seen (env_ID (del_Envelope del)) (rc_dedupe rc))"
      "\<not> fst (h (fst (rc_host rc)) (del_Envelope del))"
      "surface aw (logging h) del (rc, c) = (rc\<lparr>rc_dedupe := forget (env_ID (del_Envelope del)) (snd (Seen (env_ID (del_Envelope del)) (rc_dedupe rc))),
         rc_host := (hs, consumed rc)\<rparr>, c)"
  | (taken) hs where "\<not> fst (Seen (env_ID (del_Envelope del)) (rc_dedupe rc))"
      "surface aw (logging h) del (rc, c) = (rc\<lparr>rc_dedupe := snd (Seen (env_ID (del_Envelope del)) (rc_dedupe rc)),
         rc_host := (hs, consumed rc @ [del_Envelope del]), rc_tick := Suc (rc_tick rc)\<rparr>,
         snd (Ack (aw (rc_tick rc)) (del_DeliveryKey del) c))"
proof (cases "Seen (env_ID (del_Envelope del)) (rc_dedupe rc)")
  case (Pair b d)
  show ?thesis
  proof (cases b)
    case True
    with Pair show ?thesis by (intro dup) (simp_all add: surface_def Let_def)
  next
    case False
    obtain ok hs where h: "h (fst (rc_host rc)) (del_Envelope del) = (ok, hs)" by fastforce
    show ?thesis
    proof (cases ok)
      case True
      with False Pair h show ?thesis
        by (intro taken [of hs]) (simp_all add: surface_def logging_def consumed_def Let_def split_beta)
    next
      case no: False
      with False Pair h show ?thesis
        by (intro refused [of hs]) (simp_all add: surface_def logging_def consumed_def Let_def split_beta)
    qed
  qed
qed

lemma surface_seen_consumed:
  assumes "seen_consumed rc"
  shows "seen_consumed (fst (surface aw (logging h) del (rc, c)))" (is ?inv)
    "set (consumed rc) \<subseteq> set (consumed (fst (surface aw (logging h) del (rc, c))))" (is ?mono)
    "cl_sent (snd (surface aw (logging h) del (rc, c))) = cl_sent c \<or>
     cl_sent (snd (surface aw (logging h) del (rc, c))) = cl_sent c @ [ack_bytes (del_DeliveryKey del)] \<and>
     env_ID (del_Envelope del) \<in> env_ID ` set (consumed (fst (surface aw (logging h) del (rc, c))))" (is ?ack)
proof -
  let ?i = "env_ID (del_Envelope del)" and ?d = "rc_dedupe rc"
  have ok: "dedupe_inv ?d" and sub: "set (dd_ll ?d) \<subseteq> env_ID ` set (consumed rc)" using assms by (auto simp: seen_consumed_def)
  have s: "dedupe_inv (snd (Seen ?i ?d))" "set (dd_ll (snd (Seen ?i ?d))) \<subseteq> insert ?i (set (dd_ll ?d))"
    using dd.seen_ok [OF ok] dd.seen_ids [OF ok] by auto
  have "?inv \<and> ?mono \<and> ?ack"
  proof (cases rule: surface_cases [of del rc aw h c])
    case dup
    then have "?i \<in> set (dd_ll ?d)" using dd.seen_iff [OF ok] by simp
    then show ?thesis using dup(2) s sub Ack_sent [of "aw (rc_tick rc)" "del_DeliveryKey del" c]
      by (auto simp: seen_consumed_def consumed_def)
  next
    case (refused hs)
    then show ?thesis using s sub dd.drop_ok [OF s(1)] dd.drop_ids [OF s(1), of ?i]
      by (auto simp: seen_consumed_def consumed_def)
  next
    case (taken hs)
    then show ?thesis using s sub Ack_sent [of "aw (rc_tick rc)" "del_DeliveryKey del" c]
      by (auto simp: seen_consumed_def consumed_def)
  qed
  then show ?inv ?mono ?ack by auto
qed

text \<open>C33: Consume before acknowledging: every frame the resume loop writes on a connection is the
  acknowledgement, by delivery key, of a verified delivery of that connection whose
  message the host has consumed, now or on an earlier delivery.\<close>

theorem acks_only_consumed:
  assumes "seen_consumed (rc :: ('h \<times> envelope list) resuming)" "fr \<in> set (drop (length (cl_sent c)) (cl_sent (snd (pump aw (logging h) reads (rc, c)))))"
  shows "\<exists>del \<in> set (deliveries (ccf_HMACSecret (cl_cfg c)) reads). fr = ack_bytes (del_DeliveryKey del) \<and>
    env_ID (del_Envelope del) \<in> env_ID ` set (consumed (fst (pump aw (logging h) reads (rc, c))))"
proof -
  let ?D = "set (deliveries (ccf_HMACSecret (cl_cfg c)) reads)"
  let ?P = "\<lambda>rc' sent. seen_consumed rc' \<and> (\<exists>fs. sent = cl_sent c @ fs \<and>
    (\<forall>fr\<in>set fs. \<exists>del\<in>?D. fr = ack_bytes (del_DeliveryKey del) \<and> env_ID (del_Envelope del) \<in> env_ID ` set (consumed rc')))"
  have "?P (fst (pump aw (logging h) reads (rc, c))) (cl_sent (snd (pump aw (logging h) reads (rc, c))))"
  proof (rule pump_induct [where P = ?P])
    fix del :: deliver_frame and c' :: client and rc' :: "('h \<times> envelope list) resuming"
    assume a: "del \<in> ?D" "?P rc' (cl_sent c')"
    then have sc: "seen_consumed rc'" by simp
    note S = surface_seen_consumed [OF sc, of aw h del c']
    obtain fs where fs: "cl_sent c' = cl_sent c @ fs"
      "\<forall>fr\<in>set fs. \<exists>del\<in>?D. fr = ack_bytes (del_DeliveryKey del) \<and> env_ID (del_Envelope del) \<in> env_ID ` set (consumed rc')"
      using a(2) by blast
    have old: "\<forall>fr\<in>set fs. \<exists>d\<in>?D. fr = ack_bytes (del_DeliveryKey d) \<and>
        env_ID (del_Envelope d) \<in> env_ID ` set (consumed (fst (surface aw (logging h) del (rc', c'))))"
      using fs(2) S(2) by blast
    from S(3) show "?P (fst (surface aw (logging h) del (rc', c'))) (cl_sent (snd (surface aw (logging h) del (rc', c'))))"
    proof
      assume "cl_sent (snd (surface aw (logging h) del (rc', c'))) = cl_sent c'"
      then show ?thesis using S(1) fs(1) old by auto
    next
      assume "cl_sent (snd (surface aw (logging h) del (rc', c'))) = cl_sent c' @ [ack_bytes (del_DeliveryKey del)] \<and>
        env_ID (del_Envelope del) \<in> env_ID ` set (consumed (fst (surface aw (logging h) del (rc', c'))))"
      then show ?thesis using S(1) fs(1) old a(1) by (intro conjI exI [of _ "fs @ [ack_bytes (del_DeliveryKey del)]"]) auto
    qed
  qed (use assms(1) in auto)
  then show ?thesis using assms(2) by auto
qed

definition demo_frame :: bytes where
  "demo_frame = the (marshal_deliver \<lparr>del_ProtocolVersion = ProtocolVersion, del_Type = ControlDeliver,
     del_DeliveryKey = ''m1'', del_Envelope = demo_signed\<rparr>)"

lemma demo_deliveries:
  "\<exists>del. del_DeliveryKey del = ''m1'' \<and> env_ID (del_Envelope del) = ''m1'' \<and>
     (\<forall>rs. deliveries demo_secret (TextMsg demo_frame # rs) = del # deliveries demo_secret rs)"
proof -
  let ?d = "\<lparr>del_ProtocolVersion = ProtocolVersion, del_Type = ControlDeliver, del_DeliveryKey = ''m1'', del_Envelope = demo_signed\<rparr>"
  note k = hm.sign_keeps [OF demo_signed_ok]
  obtain c where h: "demo_envelope\<lparr>env_HMAC := hex_encode (hmac_sha256 demo_secret c)\<rparr> = demo_signed"
    using demo_signed_ok by (auto simp: SignEnvelope_def Sign_ok_iff split: sum.splits)
  have fr: "marshal_deliver ?d = Some demo_frame"
    using ControlTypeOf_deliver [of ?d] demo_envelope_ok(3) k(3) by (auto simp: demo_frame_def)
  have "marshal_raw ''[1, 2]'' = Some ''[1,2]''" by code_simp
  then have "marshal_raw (env_Body demo_signed) = Some ''[1,2]''" using k(3) by (simp add: demo_envelope_def)
  from length_deliver_frame [OF fr this] have len: "length demo_frame \<le> MaxFrameBytes"
    by (simp add: h [symmetric] demo_envelope_def MaxFrameBytes_def)
  have "env_ID (norm_envelope demo_signed) = ''m1''" using k(4) by (simp add: norm_envelope_def demo_envelope_def)
  then show ?thesis
    using deliveries_signed [OF demo_signed_ok demo_envelope_ok(1,3) _ _ fr len] by (fastforce simp: valid_utf8_Cons_ascii)
qed

definition demo_accept :: "unit handler" where
  "demo_accept = (\<lambda>_ _. (True, ()))"

definition demo_conn :: client where
  "demo_conn = \<lparr>cl_cfg = demo_client, cl_ws = True, cl_open = True, cl_sent = [], cl_sink = None\<rparr>"

lemma Seen_fresh: "\<not> fst (Seen i (NewDedupe n))"
  using dd.seen_iff [OF NewDedupe_inv] by simp

theorem acks_only_consumed_witness:
  "\<exists>del \<in> set (deliveries demo_secret [TextMsg demo_frame]). ack_bytes ''m1'' = ack_bytes (del_DeliveryKey del) \<and>
    env_ID (del_Envelope del) \<in> env_ID ` set (consumed (fst (pump (\<lambda>_. Written) (logging demo_accept) [TextMsg demo_frame]
      (NewResumingClient demo_client 8 ((), []), demo_conn))))"
proof -
  let ?rc = "NewResumingClient demo_client 8 ((), []) :: (unit \<times> envelope list) resuming"
  obtain del where d: "del_DeliveryKey del = ''m1''" "deliveries demo_secret [TextMsg demo_frame] = [del]"
    using demo_deliveries by auto
  have c: "conn demo_conn" "ccf_HMACSecret (cl_cfg demo_conn) = demo_secret"
    by (simp_all add: conn_def demo_conn_def demo_client_def)
  obtain b dd where "Seen (env_ID (del_Envelope del)) (NewDedupe 8) = (b, dd)" by fastforce
  with Seen_fresh [of "env_ID (del_Envelope del)" 8] have "Seen (env_ID (del_Envelope del)) (NewDedupe 8) = (False, dd)" by simp
  then have "cl_sent (snd (pump (\<lambda>_. Written) (logging demo_accept) [TextMsg demo_frame] (?rc, demo_conn))) = [ack_bytes ''m1'']"
    unfolding pump_view [OF c(1)] c(2) d(2)
    by (simp add: surface_def NewResumingClient_def logging_def demo_accept_def d(1) Ack_def conn_def no_sink_def demo_conn_def
        writeJSON_client_def ack_bytes_def Let_def)
  moreover have "seen_consumed ?rc" by (simp add: seen_consumed_def NewResumingClient_def)
  ultimately show ?thesis
    using acks_only_consumed [of ?rc "ack_bytes ''m1''" demo_conn "\<lambda>_. Written" demo_accept "[TextMsg demo_frame]"] c(2)
    by (simp add: demo_conn_def del: deliveries.simps)
qed

section \<open>Exactly once\<close>

text \<open>As long as the ids in play fit the cache, the cache holds exactly the consumed ids.\<close>

definition once :: "string set \<Rightarrow> ('h \<times> envelope list) resuming \<Rightarrow> bool" where
  "once U rc \<longleftrightarrow> finite U \<and> dedupe_inv (rc_dedupe rc) \<and> int (card U) \<le> dd_max (rc_dedupe rc) \<and>
     set (dd_ll (rc_dedupe rc)) \<subseteq> U \<and> env_ID ` set (consumed rc) = set (dd_ll (rc_dedupe rc)) \<and>
     distinct (map env_ID (consumed rc))"

lemma Seen_no_eviction:
  assumes "dedupe_inv d" "finite U" "int (card U) \<le> dd_max d" "set (dd_ll d) \<subseteq> U" "i \<in> U"
  shows "set (dd_ll (snd (Seen i d))) = insert i (set (dd_ll d))"
proof -
  have "length (i # removeAll i (dd_ll d)) = card (set (i # removeAll i (dd_ll d)))"
    using assms(1) by (intro distinct_card [symmetric]) (auto simp: dedupe_inv_def distinct_removeAll)
  also have "\<dots> \<le> card U" using assms(2,4,5) by (intro card_mono) auto
  finally have "length (i # removeAll i (dd_ll d)) \<le> nat (dd_max d)" using assms(3) by linarith
  then show ?thesis using Seen_inv(3) [OF assms(1), of i] by (auto simp: lru_touch_def)
qed

lemma surface_once:
  assumes "once U rc" "env_ID (del_Envelope del) \<in> U"
  shows "once U (fst (surface aw (logging h) del (rc, c)))"
    "set (consumed rc) \<subseteq> set (consumed (fst (surface aw (logging h) del (rc, c))))"
    "set (consumed (fst (surface aw (logging h) del (rc, c)))) \<subseteq> insert (del_Envelope del) (set (consumed rc))"
    "(\<And>hs e. fst (h hs e)) \<Longrightarrow> env_ID (del_Envelope del) \<in> env_ID ` set (consumed (fst (surface aw (logging h) del (rc, c))))"
proof -
  let ?i = "env_ID (del_Envelope del)" and ?d = "rc_dedupe rc"
  note o = assms(1) [unfolded once_def]
  have ok: "dedupe_inv ?d" using o by simp
  have s: "dedupe_inv (snd (Seen ?i ?d))" "set (dd_ll (snd (Seen ?i ?d))) = insert ?i (set (dd_ll ?d))"
    "dd_max (snd (Seen ?i ?d)) = dd_max ?d" "fst (Seen ?i ?d) \<longleftrightarrow> ?i \<in> set (dd_ll ?d)"
    using Seen_no_eviction [OF ok _ _ _ assms(2)] o Seen_inv [OF ok, of ?i] by auto
  have all: "once U (fst (surface aw (logging h) del (rc, c))) \<and>
    set (consumed rc) \<subseteq> set (consumed (fst (surface aw (logging h) del (rc, c)))) \<and>
    set (consumed (fst (surface aw (logging h) del (rc, c)))) \<subseteq> insert (del_Envelope del) (set (consumed rc)) \<and>
    ((\<forall>hs e. fst (h hs e)) \<longrightarrow> ?i \<in> env_ID ` set (consumed (fst (surface aw (logging h) del (rc, c)))))"
  proof (cases rule: surface_cases [of del rc aw h c])
    case dup
    then show ?thesis using o s by (auto simp: once_def consumed_def insert_absorb)
  next
    case (refused hs)
    then show ?thesis using o s forget_inv [OF s(1), of ?i] by (auto simp: once_def consumed_def)
  next
    case (taken hs)
    then show ?thesis using o s assms(2) by (auto simp: once_def consumed_def)
  qed
  then show "once U (fst (surface aw (logging h) del (rc, c)))"
    "set (consumed rc) \<subseteq> set (consumed (fst (surface aw (logging h) del (rc, c))))"
    "set (consumed (fst (surface aw (logging h) del (rc, c)))) \<subseteq> insert (del_Envelope del) (set (consumed rc))"
    "(\<And>hs e. fst (h hs e)) \<Longrightarrow> ?i \<in> env_ID ` set (consumed (fst (surface aw (logging h) del (rc, c))))"
    by blast+
qed

lemma fold_surface_once:
  assumes "once U rc" "\<forall>del\<in>set ds. env_ID (del_Envelope del) \<in> U" "s = fold (surface aw (logging h)) ds (rc, c)"
  shows "once U (fst s) \<and> set (consumed rc) \<subseteq> set (consumed (fst s)) \<and>
    set (consumed (fst s)) \<subseteq> del_Envelope ` set ds \<union> set (consumed rc) \<and> rc_cfg (fst s) = rc_cfg rc \<and>
    ((\<forall>hs e. fst (h hs e)) \<longrightarrow> (\<forall>del\<in>set ds. env_ID (del_Envelope del) \<in> env_ID ` set (consumed (fst s))))"
  using assms
proof (induction ds arbitrary: rc c)
  case (Cons del ds)
  obtain rc1 c1 where s1: "surface aw (logging h) del (rc, c) = (rc1, c1)" by fastforce
  have u: "env_ID (del_Envelope del) \<in> U" using Cons.prems(2) by simp
  note S = surface_once [OF Cons.prems(1) u, where aw = aw and h = h and c = c, unfolded s1 fst_conv]
  have k: "rc_cfg rc1 = rc_cfg rc" using surface_keeps(3) [of aw "logging h" del rc c] s1 by simp
  from Cons.IH [OF S(1), of c1] Cons.prems(2,3) s1
  have IH: "once U (fst s) \<and> set (consumed rc1) \<subseteq> set (consumed (fst s)) \<and>
    set (consumed (fst s)) \<subseteq> del_Envelope ` set ds \<union> set (consumed rc1) \<and> rc_cfg (fst s) = rc_cfg rc1 \<and>
    ((\<forall>hs e. fst (h hs e)) \<longrightarrow> (\<forall>del\<in>set ds. env_ID (del_Envelope del) \<in> env_ID ` set (consumed (fst s))))" by simp
  then show ?case using S k by auto
qed simp

definition connects :: "ClientConfig \<Rightarrow> session \<Rightarrow> bool" where
  "connects cfg se = is_ok (fst (Connect (se_dial se) (se_write se) (se_first se) (NewClient cfg)))"

lemma Connect_ok:
  assumes "Connect dial w r (NewClient cfg) = (Inr u, c)"
  shows "conn c" "cl_cfg c = cfg"
  using assms
  by (auto simp: Connect_def NewClient_def writeJSON_client_def conn_def Let_def
      split: if_splits cread.splits write_outcome.splits)

text \<open>What \<open>connect\<close> leaves alone, and which attempt it ended on.\<close>

lemma connect_keeps:
  "connect ses b rc = (x, rc', rest) \<Longrightarrow> rc_cfg rc' = rc_cfg rc \<and> rc_dedupe rc' = rc_dedupe rc \<and> rc_host rc' = rc_host rc"
  by (induction ses b rc rule: connect.induct) (auto simp: Let_def split: prod.splits sum.splits if_splits)

lemma connect_got:
  "connect ses b rc = (Some (Inr (c, reads)), rc', rest) \<Longrightarrow> rc_cfg rc = cfg \<Longrightarrow>
     \<exists>pre se. ses = pre @ se # rest \<and> (\<forall>s\<in>set pre. \<not> connects cfg s) \<and> reads = se_reads se \<and> conn c \<and> cl_cfg c = cfg"
proof (induction ses b rc rule: connect.induct)
  case (2 se ses b rc)
  obtain x c0 where C: "Connect (se_dial se) (se_write se) (se_first se) (NewClient (rc_cfg rc)) = (x, c0)" by fastforce
  show ?case
  proof (cases x)
    case (Inr u)
    with 2(2,3) C Connect_ok [OF C [unfolded Inr]] show ?thesis by (intro exI [of _ "[]"] exI [of _ se]) auto
  next
    case (Inl err)
    with 2(2) C have ne: "err \<noteq> ErrNameClaimed" by auto
    from 2(1) [OF C [symmetric] Inl ne refl] 2(2,3) C Inl ne
    obtain pre s where "ses = pre @ s # rest" "\<forall>s\<in>set pre. \<not> connects cfg s" "reads = se_reads s \<and> conn c \<and> cl_cfg c = cfg"
      by (auto simp: Let_def)
    then show ?thesis using C Inl 2(3) by (intro exI [of _ "se # pre"] exI [of _ s]) (auto simp: connects_def)
  qed
qed simp

lemma connect_none: "connect ses b rc = (None, rc', rest) \<Longrightarrow> \<forall>s\<in>set ses. \<not> connects (rc_cfg rc) s"
  by (induction ses b rc rule: connect.induct) (auto simp: Let_def connects_def split: prod.splits sum.splits if_splits)

lemma pump_once:
  assumes "once U rc" "conn c" "\<forall>del\<in>set (deliveries (ccf_HMACSecret (cl_cfg c)) reads). env_ID (del_Envelope del) \<in> U"
  shows "once U (fst (pump aw (logging h) reads (rc, c))) \<and>
    set (consumed rc) \<subseteq> set (consumed (fst (pump aw (logging h) reads (rc, c)))) \<and>
    set (consumed (fst (pump aw (logging h) reads (rc, c)))) \<subseteq>
      del_Envelope ` set (deliveries (ccf_HMACSecret (cl_cfg c)) reads) \<union> set (consumed rc) \<and>
    rc_cfg (fst (pump aw (logging h) reads (rc, c))) = rc_cfg rc \<and>
    ((\<forall>hs e. fst (h hs e)) \<longrightarrow> (\<forall>del\<in>set (deliveries (ccf_HMACSecret (cl_cfg c)) reads).
       env_ID (del_Envelope del) \<in> env_ID ` set (consumed (fst (pump aw (logging h) reads (rc, c))))))"
  unfolding pump_view [OF assms(2)] by (rule fold_surface_once [OF assms(1,3) refl])

lemma once_cong: "rc_dedupe rc' = rc_dedupe rc \<Longrightarrow> rc_host rc' = rc_host rc \<Longrightarrow> once U rc' = once U rc \<and> consumed rc' = consumed rc"
  by (simp add: once_def consumed_def)

lemma Run_once:
  assumes "once U rc" "rc_cfg rc = cfg"
    "\<forall>se\<in>set ses. \<forall>del\<in>set (deliveries (ccf_HMACSecret cfg) (se_reads se)). env_ID (del_Envelope del) \<in> U"
    "Run aw (logging h) ses rc = (err, rc')"
  shows "once U rc' \<and> set (consumed rc) \<subseteq> set (consumed rc') \<and>
    (\<forall>e\<in>set (consumed rc'). e \<in> set (consumed rc) \<or>
       (\<exists>se\<in>set ses. \<exists>del\<in>set (deliveries (ccf_HMACSecret cfg) (se_reads se)). e = del_Envelope del)) \<and>
    ((\<forall>hs e. fst (h hs e)) \<and> err = None \<longrightarrow>
       (\<forall>se\<in>set ses. connects cfg se \<longrightarrow> (\<forall>del\<in>set (deliveries (ccf_HMACSecret cfg) (se_reads se)).
          env_ID (del_Envelope del) \<in> env_ID ` set (consumed rc'))))"
  using assms
proof (induction "length ses" arbitrary: ses rc rule: less_induct)
  case less
  obtain x rc1 rest where C: "connect ses baseBackoff rc = (x, rc1, rest)" using prod_cases3 by blast
  note k = connect_keeps [OF C]
  have o1: "once U rc1" "consumed rc1 = consumed rc" "rc_cfg rc1 = cfg" using k less.prems(1,2) once_cong [of rc1 rc U] by auto
  show ?case
  proof (cases x)
    case None
    then have "rc' = rc1" using less.prems(4) C by (simp add: Run.simps [of aw _ ses])
    then show ?thesis using o1 connect_none [OF C [unfolded None]] less.prems(2) by auto
  next
    case (Some y)
    show ?thesis
    proof (cases y)
      case (Inl e)
      then have "rc' = rc1" "err = Some e" using less.prems(4) C Some by (simp_all add: Run.simps [of aw _ ses])
      then show ?thesis using o1 by auto
    next
      case (Inr cr)
      obtain c reads where cr: "cr = (c, reads)" by fastforce
      obtain pre se where g: "ses = pre @ se # rest" "\<forall>s\<in>set pre. \<not> connects cfg s" "reads = se_reads se" "conn c" "cl_cfg c = cfg"
        using connect_got [OF C [unfolded Some Inr cr] less.prems(2)] by blast
      obtain rc2 c1 where p: "pump aw (logging h) reads (rc1, c) = (rc2, c1)" by fastforce
      let ?rc3 = "rc2\<lparr>rc_cur := Some (Close_client c1)\<rparr>"
      have U: "\<forall>del\<in>set (deliveries (ccf_HMACSecret (cl_cfg c)) reads). env_ID (del_Envelope del) \<in> U"
        using less.prems(3) g by simp
      note P = pump_once [OF o1(1) g(4) U, where aw = aw and h = h, unfolded p fst_conv g(5) o1(2,3)]
      have o3: "once U ?rc3" "consumed ?rc3 = consumed rc2" "rc_cfg ?rc3 = cfg" using P once_cong [of ?rc3 rc2 U] by auto
      have R: "Run aw (logging h) rest ?rc3 = (err, rc')"
        using less.prems(4) C Some Inr cr p by (simp add: Run.simps [of aw _ ses])
      have rest: "length rest < length ses" "\<forall>se\<in>set rest. \<forall>del\<in>set (deliveries (ccf_HMACSecret cfg) (se_reads se)). env_ID (del_Envelope del) \<in> U"
        using less.prems(3) g(1) by auto
      note IH = less.hyps [OF rest(1) o3(1,3) rest(2) R, unfolded o3(2)]
      have img: "env_ID ` set (consumed rc2) \<subseteq> env_ID ` set (consumed rc')" using IH by (intro image_mono) blast
      have sub: "set (consumed rc) \<subseteq> set (consumed rc2)" using P by simp
      have new: "e \<in> set (consumed rc) \<or> (\<exists>del\<in>set (deliveries (ccf_HMACSecret cfg) (se_reads se)). e = del_Envelope del)"
        if "e \<in> set (consumed rc2)" for e using P that g(3) by auto
      have all: "env_ID (del_Envelope del) \<in> env_ID ` set (consumed rc2)"
        if "\<forall>hs e. fst (h hs e)" "del \<in> set (deliveries (ccf_HMACSecret cfg) (se_reads se))" for del
        using P that g(3) by blast
      have ses: "set ses = set pre \<union> insert se (set rest)" using g(1) by auto
      show ?thesis unfolding ses using IH sub new all img g(2) by blast
    qed
  qed
qed

lemma once_initial: "finite U \<Longrightarrow> int (card U) \<le> dd_max (NewDedupe n) \<Longrightarrow> once U (NewResumingClient cfg n (h0, []))"
  by (simp add: once_def NewResumingClient_def consumed_def)


definition demo_session :: "cread list \<Rightarrow> session" where
  "demo_session reads = \<lparr>se_dial = True, se_write = Written,
     se_first = TextMsg (marshal_peers \<lparr>peers_ProtocolVersion = ProtocolVersion, peers_Type = ControlPeers, peers_Names = None\<rparr>),
     se_rand = 0, se_reads = reads\<rparr>"

lemma demo_session_connects: "connects demo_client (demo_session reads)"
proof -
  let ?p = "\<lparr>peers_ProtocolVersion = ProtocolVersion, peers_Type = ControlPeers, peers_Names = None\<rparr>"
  have "ControlTypeOf (marshal_peers ?p) = Inr ControlPeers" using ControlTypeOf_peers [of ?p] by simp
  moreover have "length (marshal_peers ?p) \<le> 100" by code_simp
  then have "length (marshal_peers ?p) \<le> MaxFrameBytes" by (simp add: MaxFrameBytes_def)
  ultimately show ?thesis
    by (simp add: connects_def demo_session_def Connect_def NewClient_def demo_client_def demo_secret_def MinSecretLen_def
        writeJSON_client_def limited_client_def control_type_def)
qed

lemma pump_cfg: "rc_cfg (fst (pump aw h reads (rc, c))) = rc_cfg rc"
  by (rule pump_induct [where P = "\<lambda>r _. rc_cfg r = rc_cfg rc"]) (simp_all add: surface_keeps(3))

lemma Run_connected: "\<forall>se\<in>set ses. connects (rc_cfg rc) se \<Longrightarrow> fst (Run aw (logging h) ses rc) = None"
proof (induction "length ses" arbitrary: ses rc rule: less_induct)
  case less
  show ?case
  proof (cases ses)
    case Nil
    then show ?thesis by (simp add: Run.simps)
  next
    case (Cons se rest)
    obtain c where C: "Connect (se_dial se) (se_write se) (se_first se) (NewClient (rc_cfg rc)) = (Inr (), c)"
      using less.prems Cons by (cases "Connect (se_dial se) (se_write se) (se_first se) (NewClient (rc_cfg rc))")
        (auto simp: connects_def is_ok_def split: sum.splits)
    let ?rc1 = "rc\<lparr>rc_cur := Some c, rc_fired := rc_fired rc + (if rc_onConnect rc then 1 else 0)\<rparr>"
    obtain rc2 c1 where p: "pump aw (logging h) (se_reads se) (?rc1, c) = (rc2, c1)" by fastforce
    have "rc_cfg rc2 = rc_cfg rc" using pump_cfg [of aw "logging h" "se_reads se" ?rc1 c] p by simp
    then show ?thesis using less.hyps [of rest "rc2\<lparr>rc_cur := Some (Close_client c1)\<rparr>"] less.prems C p Cons
      by (simp add: Run.simps [of aw _ "se # rest"])
  qed
qed


end
