(* ===== verification/Modes.thy ===== *)
theory Modes
  imports Channel Resume
begin

text \<open>
  Package \<open>internal/adapter\<close>, \<open>mode.go\<close>, \<open>generic.go\<close> and \<open>cc.go\<close>: the registry of adapter modes, the
  buses behind the MCP tools, and the two modes as interleavings of what the host sends, what the
  resume loop reads from the broker, and the goroutines that announce the peer's name.  Random bytes,
  time stamps, the outcome of a write and the wording of an error are arguments.
\<close>

section \<open>mode.go\<close>

text \<open>The registry is a map from mode names to constructors.\<close>

type_synonym 'c mode_registry = "(string \<times> 'c) list"

definition RegisterMode :: "string \<Rightarrow> 'c \<Rightarrow> 'c mode_registry \<Rightarrow> 'c mode_registry" where
  "RegisterMode name ctor reg = AList.update name ctor reg"

definition unregisterMode :: "string \<Rightarrow> 'c mode_registry \<Rightarrow> 'c mode_registry" where
  "unregisterMode name reg = AList.delete name reg"

definition sortedModes :: "'c mode_registry \<Rightarrow> string list" where
  "sortedModes reg = sort (map fst reg)"

definition ResolveMode :: "string \<Rightarrow> 'c mode_registry \<Rightarrow> (string \<times> string list, 'c) result" where
  "ResolveMode name reg = (case map_of reg name of None \<Rightarrow> Inl (name, sortedModes reg) | Some ctor \<Rightarrow> Inr ctor)"

definition Modes_names :: "'c mode_registry \<Rightarrow> string list" where
  "Modes_names reg = sortedModes reg"

datatype adapter_mode = GenericMode ClientConfig int | CcMode ClientConfig int

fun mode_Name :: "adapter_mode \<Rightarrow> string" where
  "mode_Name (GenericMode _ _) = ''generic''"
| "mode_Name (CcMode _ _) = ''cc''"

text \<open>The two \<open>init\<close> functions, in the order of their files.\<close>

definition cc_init :: "(ClientConfig \<Rightarrow> int \<Rightarrow> adapter_mode) mode_registry \<Rightarrow> (ClientConfig \<Rightarrow> int \<Rightarrow> adapter_mode) mode_registry" where
  [simp]: "cc_init reg = RegisterMode ''cc'' CcMode reg"

definition generic_init :: "(ClientConfig \<Rightarrow> int \<Rightarrow> adapter_mode) mode_registry \<Rightarrow> (ClientConfig \<Rightarrow> int \<Rightarrow> adapter_mode) mode_registry" where
  [simp]: "generic_init reg = RegisterMode ''generic'' GenericMode reg"

definition modeReg :: "(ClientConfig \<Rightarrow> int \<Rightarrow> adapter_mode) mode_registry" where
  "modeReg = generic_init (cc_init [])"

text \<open>The names that the registry lists are those it resolves, and a resolved constructor builds the mode of that name.\<close>

lemma modes_resolved:
  "set (Modes_names reg) = {name. \<exists>ctor. ResolveMode name reg = Inr ctor}"
  "ResolveMode name modeReg = Inr ctor \<Longrightarrow> mode_Name (ctor cfg n) = name"
  by (auto simp: Modes_names_def sortedModes_def ResolveMode_def modeReg_def RegisterMode_def map_of_eq_None_iff
      split: option.splits if_splits dest: map_of_SomeD)

section \<open>The buses\<close>

text \<open>What one call of a bus method meets: the random bytes of a message id, the time, the outcome of
  the write, and for \<open>Peers\<close> the control frames the resume loop forwards before the wait ends.\<close>

record bus_env =
  bv_rand :: bytes
  bv_ts :: string
  bv_write :: write_outcome
  bv_frames :: "bytes list"
  bv_cancelled :: bool

record 'h bus_state =
  bs_rc :: "'h resuming"
  bs_calls :: nat

datatype bus_error = ClientError client_error | PeersCancelled | PeersTimeout

definition defaultSource :: string where
  "defaultSource = ''peer-bus''"

definition newMsgID :: "bytes \<Rightarrow> string" where
  "newMsgID b = hex_encode b"

definition on_client :: "(client \<Rightarrow> (client_error, unit) result \<times> client) \<Rightarrow> 'h resuming \<Rightarrow> (client_error, unit) result \<times> 'h resuming" where
  "on_client f rc =
     (case Client_of rc of
        None \<Rightarrow> (Inl ErrNotConnected, rc)
      | Some c \<Rightarrow> (case f c of (r, c1) \<Rightarrow> (r, rc\<lparr>rc_cur := Some c1\<rparr>)))"

definition bus_result :: "(bus_error \<Rightarrow> string) \<Rightarrow> (client_error, unit) result \<times> 'h resuming \<Rightarrow> 'h bus_state \<Rightarrow> (string, unit) result \<times> 'h bus_state" where
  "bus_result ct x b = (map_sum (ct \<circ> ClientError) id (fst x), b\<lparr>bs_rc := snd x, bs_calls := Suc (bs_calls b)\<rparr>)"

definition Send_bus :: "(bus_error \<Rightarrow> string) \<Rightarrow> (nat \<Rightarrow> bus_env) \<Rightarrow> string \<Rightarrow> bytes \<Rightarrow> 'h bus_state \<Rightarrow> (string, unit) result \<times> 'h bus_state" where
  "Send_bus ct orc to body b =
     (let e = orc (bs_calls b)
      in bus_result ct (on_client (Send (bv_write e) (newMsgID (bv_rand e)) to (bv_ts e) defaultSource body) (bs_rc b)) b)"

definition Broadcast_bus :: "(bus_error \<Rightarrow> string) \<Rightarrow> (nat \<Rightarrow> bus_env) \<Rightarrow> bytes \<Rightarrow> 'h bus_state \<Rightarrow> (string, unit) result \<times> 'h bus_state" where
  "Broadcast_bus ct orc body b =
     (let e = orc (bs_calls b)
      in bus_result ct (on_client (Broadcast (bv_write e) (newMsgID (bv_rand e)) (bv_ts e) defaultSource body) (bs_rc b)) b)"

definition Peers_bus :: "(bus_error \<Rightarrow> string) \<Rightarrow> (nat \<Rightarrow> bus_env) \<Rightarrow> 'h bus_state \<Rightarrow> (string, string \<times> string list option) result \<times> 'h bus_state" where
  "Peers_bus ct orc b =
     (let e = orc (bs_calls b); rc = bs_rc b; self = Name_of rc;
          upd = (\<lambda>c. b\<lparr>bs_rc := rc\<lparr>rc_cur := Some (SetPeersSink None c)\<rparr>, bs_calls := Suc (bs_calls b)\<rparr>)
      in case Client_of rc of
           None \<Rightarrow> (Inl (ct (ClientError ErrNotConnected)), b\<lparr>bs_calls := Suc (bs_calls b)\<rparr>)
         | Some c \<Rightarrow>
             (case RequestPeers (bv_write e) (SetPeersSink (Some None) c) of
                (Inl err, c1) \<Rightarrow> (Inl (ct (ClientError err)), upd c1)
              | (Inr _, c1) \<Rightarrow>
                  (let c2 = fold forwardPeers (bv_frames e) c1
                   in case cl_sink c2 of
                        Some (Some names) \<Rightarrow> (Inr (self, filterSelf names self), upd c2)
                      | _ \<Rightarrow> (Inl (ct (if bv_cancelled e then PeersCancelled else PeersTimeout)), upd c2))))"

section \<open>generic.go\<close>

text \<open>The host state of the resume loop is the buffer of the bus.\<close>

definition inbound_of :: "envelope \<Rightarrow> InboundMessage" where
  "inbound_of env = \<lparr>in_ID = env_ID env, in_From = env_From env, in_Source = env_Source env, in_Body = env_Body env\<rparr>"

definition generic_handle :: "InboundMessage list handler" where
  "generic_handle pending env = (True, pending @ [inbound_of env])"

definition take_pending :: "InboundMessage list \<Rightarrow> InboundMessage list option \<times> InboundMessage list" where
  "take_pending pending = (if pending = [] then None else Some pending, [])"

type_synonym generic_bus = "InboundMessage list bus_state"

definition Drain_bus :: "generic_bus \<Rightarrow> (string, InboundMessage list option) result \<times> generic_bus" where
  "Drain_bus b =
     (case take_pending (rc_host (bs_rc b)) of
        (out, pending) \<Rightarrow> (Inr out, b\<lparr>bs_rc := (bs_rc b)\<lparr>rc_host := pending\<rparr>\<rparr>))"

definition genericBus :: "(bus_error \<Rightarrow> string) \<Rightarrow> (nat \<Rightarrow> bus_env) \<Rightarrow> generic_bus Bus" where
  "genericBus ct orc = \<lparr>bus_Send = Send_bus ct orc, bus_Broadcast = Broadcast_bus ct orc, bus_Peers = Peers_bus ct orc,
     bus_Drain = Drain_bus\<rparr>"

definition NewGenericBus :: "ClientConfig \<Rightarrow> int \<Rightarrow> generic_bus" where
  "NewGenericBus cfg dedupeSize = \<lparr>bs_rc = NewResumingClient cfg dedupeSize [], bs_calls = 0\<rparr>"

text \<open>The resume loop, one \<open>connect\<close> with its dial attempts or one read at a time: a read error that is not
  dropped ends the connection.\<close>

definition connected :: "'h resuming \<Rightarrow> bool" where
  "connected rc = (case rc_cur rc of None \<Rightarrow> False | Some c \<Rightarrow> conn c)"

definition redial :: "session list \<Rightarrow> 'h resuming \<Rightarrow> 'h resuming" where
  "redial ses rc = (if connected rc then rc else fst (snd (connect ses baseBackoff rc)))"

definition frame_in :: "(nat \<Rightarrow> write_outcome) \<Rightarrow> 'h handler \<Rightarrow> cread \<Rightarrow> 'h resuming \<Rightarrow> 'h resuming" where
  "frame_in aw h r rc =
     (case rc_cur rc of
        None \<Rightarrow> rc
      | Some c \<Rightarrow>
          if \<not> conn c then rc
          else (case Recv [r] c of
             (None, c1, _) \<Rightarrow> rc\<lparr>rc_cur := Some c1\<rparr>
           | (Some (Inr del), c1, _) \<Rightarrow> (case surface aw h del (rc, c1) of (rc1, c2) \<Rightarrow> rc1\<lparr>rc_cur := Some c2\<rparr>)
           | (Some (Inl err), c1, _) \<Rightarrow> rc\<lparr>rc_cur := Some (if droppable err then c1 else Close_client c1)\<rparr>))"

text \<open>Reading frame by frame is what the inner loop of \<open>Run\<close> does with the whole connection.\<close>

lemma recv_loop_Cons:
  "recv_loop (r # rs) c =
     (case recv_loop [r] c of
        (None, c1, _) \<Rightarrow> recv_loop rs c1
      | (Some x, c1, _) \<Rightarrow> (Some x, c1, rs))"
  by (auto simp: Let_def split: cread.split sum.split)

lemma pump_Cons:
  assumes "conn c"
  shows "pump aw h (r # rs) (rc, c) =
    (case recv_loop [r] c of
       (None, c1, _) \<Rightarrow> pump aw h rs (rc, c1)
     | (Some (Inr del), c1, _) \<Rightarrow> pump aw h rs (surface aw h del (rc, c1))
     | (Some (Inl err), c1, _) \<Rightarrow> if droppable err then pump aw h rs (rc, c1) else (rc, c1))"
proof -
  obtain x c1 rest where r: "recv_loop [r] c = (x, c1, rest)" using prod_cases3 by blast
  have c1: "conn c1" using recv_loop_keeps [OF r] assms by (simp add: conn_def split: if_splits)
  show ?thesis
  proof (cases x)
    case None
    obtain y c2 rest2 where r2: "recv_loop rs c1 = (y, c2, rest2)" using prod_cases3 by blast
    have l: "y = Some z \<Longrightarrow> length rest2 < length rs" for z using recv_loop_rest r2 by blast
    have "Recv (r # rs) c = (y, c2, rest2)" "Recv rs c1 = (y, c2, rest2)"
      using r r2 None assms c1 recv_loop_Cons [of r rs c] by (simp_all add: Recv_def del: recv_loop.simps)
    then have "pump aw h (r # rs) (rc, c) = pump aw h rs (rc, c1)"
      using l unfolding pump.simps [of aw h "r # rs" rc c] pump.simps [of aw h rs rc c1]
      by (cases y) (auto simp: less_Suc_eq split: sum.split)
    then show ?thesis using r None by (simp del: recv_loop.simps)
  next
    case (Some y)
    then have "Recv (r # rs) c = (Some y, c1, rs)" using r assms recv_loop_Cons [of r rs c] by (simp add: Recv_def del: recv_loop.simps)
    then show ?thesis using r Some unfolding pump.simps [of aw h "r # rs" rc c] by (cases y) (simp_all del: recv_loop.simps)
  qed
qed

lemma closed_frames: "rc_cur rc = Some c \<Longrightarrow> \<not> conn c \<Longrightarrow> fold (frame_in aw h) rs rc = rc"
  by (induction rs) (simp_all add: frame_in_def)

lemma surface_cur: "surface aw h del (rc, c) = (rc', c') \<Longrightarrow> rc' = rc'\<lparr>rc_cur := rc_cur rc\<rparr> \<and>
    surface aw h del (rc\<lparr>rc_cur := x\<rparr>, c) = (rc'\<lparr>rc_cur := x\<rparr>, c')"
  by (auto simp: surface_def Let_def split: prod.splits bool.splits)

lemma frames_refine_pump:
  assumes "conn c"
  shows "\<exists>c'. c' \<in> {snd (pump aw h rs (rc, c)), Close_client (snd (pump aw h rs (rc, c)))} \<and>
    fold (frame_in aw h) rs (rc\<lparr>rc_cur := Some c\<rparr>) = (fst (pump aw h rs (rc, c)))\<lparr>rc_cur := Some c'\<rparr>"
  using assms
proof (induction rs arbitrary: rc c)
  case Nil
  then show ?case by (intro exI [of _ c]) (simp add: pump.simps Recv_def)
next
  case (Cons r rs)
  obtain x c1 rest where r: "recv_loop [r] c = (x, c1, rest)" using prod_cases3 by blast
  have c1: "conn c1" using recv_loop_keeps [OF r] Cons.prems by (simp add: conn_def split: if_splits)
  have f: "frame_in aw h r (rc\<lparr>rc_cur := Some c\<rparr>) = (case x of None \<Rightarrow> rc\<lparr>rc_cur := Some c1\<rparr>
      | Some (Inr del) \<Rightarrow> (case surface aw h del (rc\<lparr>rc_cur := Some c\<rparr>, c1) of (rc1, c2) \<Rightarrow> rc1\<lparr>rc_cur := Some c2\<rparr>)
      | Some (Inl err) \<Rightarrow> rc\<lparr>rc_cur := Some (if droppable err then c1 else Close_client c1)\<rparr>)"
    using r Cons.prems by (simp add: frame_in_def Recv_def del: recv_loop.simps split: option.split sum.split)
  show ?case
  proof (cases "\<exists>del. x = Some (Inr del)")
    case True
    then obtain del where x: "x = Some (Inr del)" by blast
    obtain rc1 c2 where su: "surface aw h del (rc, c1) = (rc1, c2)" by fastforce
    have "conn c2" using surface_keeps(2) [of aw h del rc c1] su c1 by simp
    from Cons.IH [OF this, of rc1] show ?thesis
      using pump_Cons [OF Cons.prems, of aw h r rs rc] r x f su surface_cur [OF su, of "Some c"] by (simp del: recv_loop.simps)
  next
    case False
    then consider "x = None" | err where "x = Some (Inl err)" "droppable err" | err where "x = Some (Inl err)" "\<not> droppable err"
      by (cases x) (auto, metis sum.exhaust)
    then show ?thesis
    proof cases
      case 3
      then have "fold (frame_in aw h) (r # rs) (rc\<lparr>rc_cur := Some c\<rparr>) = rc\<lparr>rc_cur := Some (Close_client c1)\<rparr>"
        using f closed_frames [of "rc\<lparr>rc_cur := Some (Close_client c1)\<rparr>" "Close_client c1" aw h rs]
        by (simp add: Close_client_def conn_def)
      then show ?thesis using 3 r pump_Cons [OF Cons.prems, of aw h r rs rc] by (auto simp del: recv_loop.simps)
    qed (use Cons.IH [OF c1, of rc] r f pump_Cons [OF Cons.prems, of aw h r rs rc] in \<open>auto simp del: recv_loop.simps\<close>)
  qed
qed

datatype adapter_event = HostMessage bytes | Redial "session list" | Frame cread

text \<open>\<open>genericMode.Run\<close>: the MCP server and the resume loop, interleaved.\<close>

fun generic_step :: "(bytes \<Rightarrow> string) \<Rightarrow> (bus_error \<Rightarrow> string) \<Rightarrow> (nat \<Rightarrow> bus_env) \<Rightarrow> (nat \<Rightarrow> write_outcome) \<Rightarrow> adapter_event \<Rightarrow>
    generic_bus mcp_server \<Rightarrow> generic_bus mcp_server" where
  "generic_step et ct orc aw (HostMessage raw) s = mcp_dispatch et (genericBus ct orc) raw s"
| "generic_step et ct orc aw (Redial ses) s = s\<lparr>ms_bus := (ms_bus s)\<lparr>bs_rc := redial ses (bs_rc (ms_bus s))\<rparr>\<rparr>"
| "generic_step et ct orc aw (Frame r) s = s\<lparr>ms_bus := (ms_bus s)\<lparr>bs_rc := frame_in aw generic_handle r (bs_rc (ms_bus s))\<rparr>\<rparr>"

definition genericRun :: "(bytes \<Rightarrow> string) \<Rightarrow> (bus_error \<Rightarrow> string) \<Rightarrow> (nat \<Rightarrow> bus_env) \<Rightarrow> (nat \<Rightarrow> write_outcome) \<Rightarrow> ClientConfig \<Rightarrow> int \<Rightarrow>
    adapter_event list \<Rightarrow> generic_bus mcp_server" where
  "genericRun et ct orc aw cfg dedupeSize evs = fold (generic_step et ct orc aw) evs (NewMcpServer (NewGenericBus cfg dedupeSize))"

section \<open>cc.go\<close>

definition nameCollisionRetries :: nat where
  "nameCollisionRetries = 6"

datatype cc_error = ProbeFailed client_error | RotationsRejected string | OverrideRejected string

text \<open>The probe loop; with its result, the names it tried to register.\<close>

function probe_loop :: "string \<Rightarrow> (nat \<Rightarrow> name_draw) \<Rightarrow> (nat \<Rightarrow> session) \<Rightarrow> nat \<Rightarrow> ClientConfig \<Rightarrow> (cc_error, ClientConfig) result \<times> string list" where
  "probe_loop env_name draw net attempt cfg =
     (let se = net attempt in
      case fst (Connect (se_dial se) (se_write se) (se_first se) (NewClient cfg)) of
        Inr _ \<Rightarrow> (Inr cfg, [ccf_Name cfg])
      | Inl err \<Rightarrow>
          if err \<noteq> ErrNameClaimed then (Inl (ProbeFailed err), [ccf_Name cfg])
          else if nameCollisionRetries \<le> attempt then (Inl (RotationsRejected (ccf_Name cfg)), [ccf_Name cfg])
          else if env_name \<noteq> [] then (Inl (OverrideRejected (ccf_Name cfg)), [ccf_Name cfg])
          else map_prod id ((#) (ccf_Name cfg))
                 (probe_loop env_name draw net (Suc attempt) (cfg\<lparr>ccf_Name := UniqueName env_name (draw (Suc attempt))\<rparr>)))"
  by pat_completeness auto
termination by (relation "measure (\<lambda>(e, d, n, attempt, cfg). nameCollisionRetries - attempt)") auto

declare probe_loop.simps [simp del]

definition ccProbe :: "string \<Rightarrow> (nat \<Rightarrow> name_draw) \<Rightarrow> (nat \<Rightarrow> session) \<Rightarrow> ClientConfig \<Rightarrow> (cc_error, ClientConfig) result \<times> string list" where
  "ccProbe env_name draw net cfg =
     probe_loop env_name draw net 0 (if ccf_Name cfg = [] then cfg\<lparr>ccf_Name := UniqueName env_name (draw 0)\<rparr> else cfg)"

text \<open>The handler hands a delivery to the server, which writes it; here the host state holds what the
  handler passed on in the current step.\<close>

definition channel_inbound :: "envelope \<Rightarrow> Inbound" where
  "channel_inbound env = \<lparr>ib_ID = env_ID env, ib_From = env_From env, ib_Source = env_Source env, ib_Kind = env_Kind env,
     ib_Body = env_Body env\<rparr>"

definition cc_handle :: "Inbound list handler" where
  "cc_handle out env = (True, out @ [channel_inbound env])"

type_synonym cc_bus = "Inbound list bus_state"

definition ccBus :: "(bus_error \<Rightarrow> string) \<Rightarrow> (nat \<Rightarrow> bus_env) \<Rightarrow> cc_bus OutboundBus" where
  "ccBus ct orc = \<lparr>ob_Send = Send_bus ct orc, ob_Broadcast = Broadcast_bus ct orc, ob_Peers = Peers_bus ct orc\<rparr>"

text \<open>The state of a running cc adapter: the server, and how many of the callbacks started by \<open>SetOnConnect\<close>
  have announced the name.\<close>

record cc_world =
  cw_srv :: "cc_bus mcp_server"
  cw_announced :: nat

datatype cc_event = CcHost bytes | CcRedial "session list" | CcFrame cread | CcAnnounce

definition push_all :: "cc_bus mcp_server \<Rightarrow> cc_bus mcp_server" where
  "push_all s = (let b = ms_bus s
     in fold Deliver (rc_host (bs_rc b)) (s\<lparr>ms_bus := b\<lparr>bs_rc := (bs_rc b)\<lparr>rc_host := []\<rparr>\<rparr>\<rparr>))"

definition cc_rc :: "cc_world \<Rightarrow> Inbound list resuming" where
  "cc_rc w = bs_rc (ms_bus (cw_srv w))"

definition cc_set_rc :: "Inbound list resuming \<Rightarrow> cc_bus mcp_server \<Rightarrow> cc_bus mcp_server" where
  "cc_set_rc rc s = s\<lparr>ms_bus := (ms_bus s)\<lparr>bs_rc := rc\<rparr>\<rparr>"

fun cc_step :: "(bytes \<Rightarrow> string) \<Rightarrow> (bus_error \<Rightarrow> string) \<Rightarrow> (nat \<Rightarrow> bus_env) \<Rightarrow> (nat \<Rightarrow> write_outcome) \<Rightarrow> cc_event \<Rightarrow> cc_world \<Rightarrow> cc_world" where
  "cc_step et ct orc aw (CcHost raw) w = w\<lparr>cw_srv := mcp_dispatch et (busAdapter (ccBus ct orc)) raw (cw_srv w)\<rparr>"
| "cc_step et ct orc aw (CcRedial ses) w = w\<lparr>cw_srv := cc_set_rc (redial ses (cc_rc w)) (cw_srv w)\<rparr>"
| "cc_step et ct orc aw (CcFrame r) w = w\<lparr>cw_srv := push_all (cc_set_rc (frame_in aw cc_handle r (cc_rc w)) (cw_srv w))\<rparr>"
| "cc_step et ct orc aw CcAnnounce w =
     (if cw_announced w < rc_fired (cc_rc w) \<and> ms_initializedCh (cw_srv w) = Some True
      then w\<lparr>cw_srv := AnnounceSelf (Name_of (cc_rc w)) (cw_srv w), cw_announced := Suc (cw_announced w)\<rparr>
      else w)"

definition cc_start :: "ClientConfig \<Rightarrow> int \<Rightarrow> cc_world" where
  "cc_start cfg dedupeSize =
     (let rc = SetOnConnect True (NewResumingClient cfg dedupeSize []);
          srv = NewChannelServer \<lparr>bs_rc = rc, bs_calls = 0\<rparr>
      in \<lparr>cw_srv = snd (Initialized srv), cw_announced = 0\<rparr>)"

definition ccRun :: "(bytes \<Rightarrow> string) \<Rightarrow> (bus_error \<Rightarrow> string) \<Rightarrow> (nat \<Rightarrow> bus_env) \<Rightarrow> (nat \<Rightarrow> write_outcome) \<Rightarrow> string \<Rightarrow> (nat \<Rightarrow> name_draw) \<Rightarrow>
    (nat \<Rightarrow> session) \<Rightarrow> ClientConfig \<Rightarrow> int \<Rightarrow> cc_event list \<Rightarrow> (cc_error, cc_world) result" where
  "ccRun et ct orc aw env_name draw net cfg dedupeSize evs =
     (case fst (ccProbe env_name draw net cfg) of
        Inl err \<Rightarrow> Inl err
      | Inr cfg1 \<Rightarrow> Inr (fold (cc_step et ct orc aw) evs (cc_start cfg1 dedupeSize)))"

section \<open>A host that buffers what it is given\<close>

text \<open>Both handlers append the message to a list and consume it.  With \<open>D\<close> the messages taken from the list
  before, and as long as the ids in play (\<open>U\<close>) fit the cache, the messages of \<open>D\<close> and of the list are those of
  the ids in the cache, each once.\<close>

definition host_inv :: "('m \<Rightarrow> string) \<Rightarrow> string set \<Rightarrow> ClientConfig \<Rightarrow> 'm list \<Rightarrow> 'm list resuming \<Rightarrow> bool" where
  "host_inv mid U cfg D rc \<longleftrightarrow> finite U \<and> dedupe_inv (rc_dedupe rc) \<and> int (card U) \<le> dd_max (rc_dedupe rc) \<and>
     set (dd_ll (rc_dedupe rc)) \<subseteq> U \<and> mid ` set (D @ rc_host rc) = set (dd_ll (rc_dedupe rc)) \<and>
     distinct (map mid (D @ rc_host rc)) \<and> rc_cfg rc = cfg \<and> map_option cl_cfg (rc_cur rc) \<in> {None, Some cfg}"

lemma host_inv_initial: "finite U \<Longrightarrow> int (card U) \<le> dd_max (NewDedupe n) \<Longrightarrow> host_inv mid U cfg [] (NewResumingClient cfg n [])"
  by (simp add: host_inv_def NewResumingClient_def)

lemma host_inv_cur: "host_inv mid U cfg D rc \<Longrightarrow> cl_cfg c = cfg \<Longrightarrow> host_inv mid U cfg D (rc\<lparr>rc_cur := Some c\<rparr>)"
  by (simp add: host_inv_def)

lemma connect_cur:
  "connect ses b rc = (x, rc', rest) \<Longrightarrow> \<forall>c. rc_cur rc = Some c \<longrightarrow> cl_cfg c = rc_cfg rc \<Longrightarrow>
     \<forall>c. rc_cur rc' = Some c \<longrightarrow> cl_cfg c = rc_cfg rc"
proof (induction ses b rc rule: connect.induct)
  case (2 se ses b rc)
  obtain y c0 where C: "Connect (se_dial se) (se_write se) (se_first se) (NewClient (rc_cfg rc)) = (y, c0)" by fastforce
  show ?case
  proof (cases y)
    case (Inr u)
    then show ?thesis using "2.prems" C Connect_ok(2) [OF C [unfolded Inr]] by auto
  next
    case (Inl err)
    show ?thesis
    proof (cases "err = ErrNameClaimed")
      case False
      let ?w = "rc_waits rc @ [b + int (se_rand se) mod (b div 2 + 1)]"
      have "connect ses (next_backoff b) (rc\<lparr>rc_waits := ?w\<rparr>) = (x, rc', rest)" using "2.prems"(1) C Inl False by (simp add: Let_def)
      from "2.IH" [OF C [symmetric] Inl False refl this] "2.prems"(2) show ?thesis by simp
    next
      case True
      then show ?thesis using "2.prems" C Inl by simp
    qed
  qed
qed simp

lemma redial_inv: "host_inv mid U cfg D rc \<Longrightarrow> host_inv mid U cfg D (redial ses rc) \<and> rc_host (redial ses rc) = rc_host rc"
proof -
  assume i: "host_inv mid U cfg D rc"
  obtain x rc' rest where C: "connect ses baseBackoff rc = (x, rc', rest)" using prod_cases3 by blast
  have k: "rc_dedupe rc' = rc_dedupe rc" "rc_host rc' = rc_host rc" "rc_cfg rc' = cfg" "rc_cfg rc = cfg"
    using connect_keeps [OF C] i by (simp_all add: host_inv_def)
  have "\<forall>c. rc_cur rc = Some c \<longrightarrow> cl_cfg c = cfg" using i by (auto simp: host_inv_def)
  then have "\<forall>c. rc_cur rc' = Some c \<longrightarrow> cl_cfg c = cfg" using connect_cur [OF C] k(4) by blast
  then have "map_option cl_cfg (rc_cur rc') \<in> {None, Some cfg}" by (cases "rc_cur rc'") simp_all
  then have "host_inv mid U cfg D rc'" using i k unfolding host_inv_def by simp
  then show ?thesis using i k(2) by (simp add: redial_def C)
qed

locale buffering_host =
  fixes g :: "envelope \<Rightarrow> 'm" and mid :: "'m \<Rightarrow> string" and h :: "'m list handler"
  assumes buffers: "h p e = (True, p @ [g e])"
    and mid_g: "mid (g e) = env_ID e"
begin

lemma surface_inv:
  assumes "host_inv mid U cfg D rc" "cl_cfg c = cfg" "env_ID (del_Envelope del) \<in> U" "surface aw h del (rc, c) = (rc', c')"
  shows "host_inv mid U cfg D (rc'\<lparr>rc_cur := Some c'\<rparr>)"
    "\<exists>new. rc_host rc' = rc_host rc @ new \<and> set new \<subseteq> {g (del_Envelope del)}"
    "env_ID (del_Envelope del) \<in> mid ` set (D @ rc_host rc')"
proof -
  let ?i = "env_ID (del_Envelope del)" and ?d = "rc_dedupe rc"
  note o = assms(1) [unfolded host_inv_def]
  have ok: "dedupe_inv ?d" using o by simp
  have s: "dedupe_inv (snd (Seen ?i ?d))" "set (dd_ll (snd (Seen ?i ?d))) = insert ?i (set (dd_ll ?d))"
    "dd_max (snd (Seen ?i ?d)) = dd_max ?d" "fst (Seen ?i ?d) \<longleftrightarrow> ?i \<in> set (dd_ll ?d)"
    using Seen_no_eviction [OF ok _ _ _ assms(3)] o Seen_inv [OF ok, of ?i] by auto
  have c': "cl_cfg c' = cfg" using surface_keeps(1) [of aw h del rc c] assms(2,4) by simp
  have ids: "mid ` set (D @ rc_host rc) = set (dd_ll ?d)" "distinct (map mid (D @ rc_host rc))" using o by simp_all
  show inv: "host_inv mid U cfg D (rc'\<lparr>rc_cur := Some c'\<rparr>)"
  proof (cases "?i \<in> set (dd_ll ?d)")
    case True
    then have "rc' = rc\<lparr>rc_dedupe := snd (Seen ?i ?d), rc_tick := Suc (rc_tick rc)\<rparr>"
      using s(4) assms(4) by (auto simp: surface_def Let_def split: prod.splits bool.splits)
    then show ?thesis using o s c' True by (simp add: host_inv_def insert_absorb)
  next
    case False
    then have r: "rc' = rc\<lparr>rc_dedupe := snd (Seen ?i ?d), rc_host := rc_host rc @ [g (del_Envelope del)], rc_tick := Suc (rc_tick rc)\<rparr>"
      using s(4) assms(4) buffers by (auto simp: surface_def Let_def split: prod.splits bool.splits)
    have "?i \<notin> mid ` set D" "?i \<notin> mid ` set (rc_host rc)" using False ids(1) by auto
    then show ?thesis unfolding r using o s c' assms(3) mid_g ids by (auto simp: host_inv_def)
  qed
  show "\<exists>new. rc_host rc' = rc_host rc @ new \<and> set new \<subseteq> {g (del_Envelope del)}"
    using assms(4) buffers by (auto simp: surface_def Let_def split: prod.splits bool.splits)
  have "?i \<in> set (dd_ll (rc_dedupe rc'))"
    using s(2) assms(4) buffers by (auto simp: surface_def Let_def split: prod.splits bool.splits)
  then show "?i \<in> mid ` set (D @ rc_host rc')" using inv by (auto simp: host_inv_def)
qed

lemma frame_inv:
  assumes "host_inv mid U cfg D rc" "\<forall>del\<in>set (deliveries (ccf_HMACSecret cfg) [r]). env_ID (del_Envelope del) \<in> U"
  shows "host_inv mid U cfg D (frame_in aw h r rc)"
    "\<exists>new. rc_host (frame_in aw h r rc) = rc_host rc @ new \<and> set new \<subseteq> (g \<circ> del_Envelope) ` set (deliveries (ccf_HMACSecret cfg) [r])"
    "connected rc \<Longrightarrow> \<forall>del\<in>set (deliveries (ccf_HMACSecret cfg) [r]).
       env_ID (del_Envelope del) \<in> mid ` set (D @ rc_host (frame_in aw h r rc))"
proof -
  let ?ds = "deliveries (ccf_HMACSecret cfg) [r]" and ?rc = "frame_in aw h r rc"
  have "host_inv mid U cfg D ?rc \<and> (\<exists>new. rc_host ?rc = rc_host rc @ new \<and> set new \<subseteq> (g \<circ> del_Envelope) ` set ?ds) \<and>
    (connected rc \<longrightarrow> (\<forall>del\<in>set ?ds. env_ID (del_Envelope del) \<in> mid ` set (D @ rc_host ?rc)))"
  proof (cases "connected rc")
    case False
    then have "?rc = rc" by (auto simp: connected_def frame_in_def split: option.splits)
    then show ?thesis using assms(1) False by simp
  next
    case True
    then obtain c where c: "rc_cur rc = Some c" "conn c" by (auto simp: connected_def split: option.splits)
    then have cfg: "cl_cfg c = cfg" using assms(1) by (simp add: host_inv_def)
    obtain x c1 rest where r: "recv_loop [r] c = (x, c1, rest)" using prod_cases3 by blast
    have c1: "cl_cfg c1 = cfg" using recv_loop_keeps [OF r] cfg by simp
    have ds: "?ds = (case x of None \<Rightarrow> [] | Some (Inr del) \<Rightarrow> [del] | Some (Inl err) \<Rightarrow> [])"
      using recv_loop_deliveries [OF r, of "ccf_HMACSecret cfg"] recv_loop_rest [of "[r]" c _ c1 rest] r cfg
      by (auto split: option.splits sum.splits if_splits)
    have f: "?rc = (case x of None \<Rightarrow> rc\<lparr>rc_cur := Some c1\<rparr>
        | Some (Inr del) \<Rightarrow> (case surface aw h del (rc, c1) of (rc1, c2) \<Rightarrow> rc1\<lparr>rc_cur := Some c2\<rparr>)
        | Some (Inl err) \<Rightarrow> rc\<lparr>rc_cur := Some (if droppable err then c1 else Close_client c1)\<rparr>)"
      using c r by (simp add: frame_in_def Recv_def split: option.splits sum.splits)
    show ?thesis
    proof (cases "\<exists>del. x = Some (Inr del)")
      case True
      then obtain del where x: "x = Some (Inr del)" by blast
      obtain rc1 c2 where su: "surface aw h del (rc, c1) = (rc1, c2)" by fastforce
      have "env_ID (del_Envelope del) \<in> U" using assms(2) ds x by simp
      from surface_inv [OF assms(1) c1 this su] show ?thesis using ds f x su by auto
    next
      case False
      then have "?ds = []" "rc_host ?rc = rc_host rc" "\<exists>c'. ?rc = rc\<lparr>rc_cur := Some c'\<rparr> \<and> cl_cfg c' = cfg"
        using ds f c1 by (auto simp: Close_client_def split: option.splits sum.splits)
      then show ?thesis using host_inv_cur [OF assms(1)] by auto
    qed
  qed
  then show "host_inv mid U cfg D ?rc"
    "\<exists>new. rc_host ?rc = rc_host rc @ new \<and> set new \<subseteq> (g \<circ> del_Envelope) ` set ?ds"
    "connected rc \<Longrightarrow> \<forall>del\<in>set ?ds. env_ID (del_Envelope del) \<in> mid ` set (D @ rc_host ?rc)" by blast+
qed

end

interpretation gh: buffering_host inbound_of in_ID generic_handle
  by unfold_locales (simp_all add: generic_handle_def inbound_of_def)

interpretation ch: buffering_host channel_inbound ib_ID cc_handle
  by unfold_locales (simp_all add: cc_handle_def channel_inbound_def)

section \<open>The generic adapter\<close>

text \<open>What the host takes out of the buffer in one event and in a run.\<close>

abbreviation g_rc :: "generic_bus mcp_server \<Rightarrow> InboundMessage list resuming" where
  "g_rc s \<equiv> bs_rc (ms_bus s)"

fun drained :: "adapter_event \<Rightarrow> generic_bus mcp_server \<Rightarrow> InboundMessage list" where
  "drained (HostMessage raw) s = (if CallDrain \<in> set (requested_calls raw) then rc_host (g_rc s) else [])"
| "drained _ s = []"

fun drains :: "(adapter_event \<Rightarrow> generic_bus mcp_server \<Rightarrow> generic_bus mcp_server) \<Rightarrow> adapter_event list \<Rightarrow> generic_bus mcp_server \<Rightarrow> InboundMessage list" where
  "drains st [] s = []"
| "drains st (ev # evs) s = drained ev s @ drains st evs (st ev s)"

fun arrivals :: "bytes \<Rightarrow> adapter_event \<Rightarrow> deliver_frame list" where
  "arrivals secret (Frame r) = deliveries secret [r]"
| "arrivals secret _ = []"

lemma requested_one: "length (requested_calls raw) \<le> 1"
  by (auto simp: requested_calls_def tool_calls_def split: sum.split prod.split)

definition same_host :: "'h bus_state \<Rightarrow> 'h bus_state \<Rightarrow> bool" where
  "same_host b b' \<longleftrightarrow> rc_host (bs_rc b') = rc_host (bs_rc b) \<and> rc_dedupe (bs_rc b') = rc_dedupe (bs_rc b) \<and>
     rc_cfg (bs_rc b') = rc_cfg (bs_rc b) \<and> rc_fired (bs_rc b') = rc_fired (bs_rc b) \<and>
     map_option cl_cfg (rc_cur (bs_rc b')) = map_option cl_cfg (rc_cur (bs_rc b))"

lemma writeJSON_client_cfg: "writeJSON_client w fr c = (ok, c1) \<Longrightarrow> cl_cfg c1 = cl_cfg c"
  by (auto simp: writeJSON_client_def Let_def split: option.splits write_outcome.splits)

lemma sendEnvelope_cfg: "sendEnvelope w env c = (r, c1) \<Longrightarrow> cl_cfg c1 = cl_cfg c"
  by (auto simp: sendEnvelope_def split: if_splits sum.splits prod.splits bool.splits dest: writeJSON_client_cfg)

lemma RequestPeers_cfg: "RequestPeers w c = (r, c1) \<Longrightarrow> cl_cfg c1 = cl_cfg c"
  by (auto simp: RequestPeers_def split: if_splits prod.splits bool.splits dest: writeJSON_client_cfg)

lemma fold_forwardPeers_cfg: "cl_cfg (fold forwardPeers frs c) = cl_cfg c"
  by (induction frs arbitrary: c) simp_all

lemma bus_result_host:
  assumes "\<And>c r c1. f c = (r, c1) \<Longrightarrow> cl_cfg c1 = cl_cfg c"
  shows "same_host b (snd (bus_result ct (on_client f (bs_rc b)) b))"
proof (cases "rc_cur (bs_rc b)")
  case (Some c)
  obtain r c1 where f: "f c = (r, c1)" by fastforce
  with assms [OF f] Some show ?thesis by (simp add: same_host_def bus_result_def on_client_def Client_of_def)
qed (simp add: same_host_def bus_result_def on_client_def Client_of_def)

lemma send_same_host: "same_host b (snd (Send_bus ct orc to body b))" "same_host b (snd (Broadcast_bus ct orc body b))"
  by (auto simp: Send_bus_def Broadcast_bus_def Send_def Broadcast_def Let_def intro!: bus_result_host dest: sendEnvelope_cfg)

lemma peers_same_host: "same_host b (snd (Peers_bus ct orc b))"
proof (cases "rc_cur (bs_rc b)")
  case (Some c)
  obtain r c1 where q: "RequestPeers (bv_write (orc (bs_calls b))) (SetPeersSink (Some None) c) = (r, c1)" by fastforce
  from RequestPeers_cfg [OF q] have "cl_cfg c1 = cl_cfg c" by (simp add: SetPeersSink_def)
  then show ?thesis using Some q
    by (cases r; cases "cl_sink (fold forwardPeers (bv_frames (orc (bs_calls b))) c1)")
      (auto simp: same_host_def Peers_bus_def Client_of_def Let_def SetPeersSink_def fold_forwardPeers_cfg split: option.split)
qed (simp add: same_host_def Peers_bus_def Client_of_def Let_def)

lemma same_host_preorder: "same_host b b" "same_host b b1 \<Longrightarrow> same_host b1 b2 \<Longrightarrow> same_host b b2"
  by (simp_all add: same_host_def)

interpretation gbus: bus_keeps "genericBus ct orc" same_host for ct orc
  by unfold_locales (auto simp: genericBus_def send_same_host peers_same_host intro: same_host_preorder)

interpretation cbus: bus_keeps_all "busAdapter (ccBus ct orc)" same_host for ct orc
  by unfold_locales (auto simp: busAdapter_def ccBus_def send_same_host peers_same_host intro: same_host_preorder)

lemma host_inv_same: "same_host b b' \<Longrightarrow> host_inv mid U cfg D (bs_rc b) \<Longrightarrow> host_inv mid U cfg D (bs_rc b')"
  by (simp only: same_host_def host_inv_def simp_thms)

lemma generic_host_message:
  assumes "host_inv in_ID U cfg D (g_rc s)"
  shows "host_inv in_ID U cfg (D @ drained (HostMessage raw) s) (g_rc (mcp_dispatch et (genericBus ct orc) raw s))"
    "drained (HostMessage raw) s @ rc_host (g_rc (mcp_dispatch et (genericBus ct orc) raw s)) = rc_host (g_rc s)"
proof -
  let ?s = "mcp_dispatch et (genericBus ct orc) raw s"
  have "host_inv in_ID U cfg (D @ drained (HostMessage raw) s) (g_rc ?s) \<and> drained (HostMessage raw) s @ rc_host (g_rc ?s) = rc_host (g_rc s)"
  proof (cases "CallDrain \<in> set (requested_calls raw)")
    case True
    then have "requested_calls raw = [CallDrain]" using requested_one [of raw] by (cases "requested_calls raw") auto
    then have "ms_bus ?s = snd (Drain_bus (ms_bus s))" by (simp add: dispatch_bus genericBus_def)
    then show ?thesis using assms True by (simp add: Drain_bus_def take_pending_def host_inv_def)
  next
    case False
    note h = gbus.dispatch_rel [OF False, of s et ct orc]
    then have "rc_host (g_rc ?s) = rc_host (g_rc s)" by (simp add: same_host_def)
    with host_inv_same [OF h assms] False show ?thesis by simp
  qed
  then show "host_inv in_ID U cfg (D @ drained (HostMessage raw) s) (g_rc ?s)"
    "drained (HostMessage raw) s @ rc_host (g_rc ?s) = rc_host (g_rc s)" by blast+
qed

lemma generic_step_inv:
  assumes "host_inv in_ID U cfg D (g_rc s)" "\<forall>del\<in>set (arrivals (ccf_HMACSecret cfg) ev). env_ID (del_Envelope del) \<in> U"
  shows "host_inv in_ID U cfg (D @ drained ev s) (g_rc (generic_step et ct orc aw ev s))"
    "\<exists>new. drained ev s @ rc_host (g_rc (generic_step et ct orc aw ev s)) = rc_host (g_rc s) @ new \<and>
       set new \<subseteq> (inbound_of \<circ> del_Envelope) ` set (arrivals (ccf_HMACSecret cfg) ev)"
proof -
  have "host_inv in_ID U cfg (D @ drained ev s) (g_rc (generic_step et ct orc aw ev s)) \<and>
    (\<exists>new. drained ev s @ rc_host (g_rc (generic_step et ct orc aw ev s)) = rc_host (g_rc s) @ new \<and>
       set new \<subseteq> (inbound_of \<circ> del_Envelope) ` set (arrivals (ccf_HMACSecret cfg) ev))"
  proof (cases ev)
    case (HostMessage raw)
    then show ?thesis using generic_host_message [OF assms(1), of raw et ct orc] by (intro conjI exI [of _ "[]"]) simp_all
  next
    case (Redial ses)
    then show ?thesis using redial_inv [OF assms(1), of ses] by simp
  next
    case (Frame r)
    then have "\<forall>del\<in>set (deliveries (ccf_HMACSecret cfg) [r]). env_ID (del_Envelope del) \<in> U"
      using assms(2) by (simp only: arrivals.simps)
    from gh.frame_inv(1,2) [OF assms(1) this, of aw] show ?thesis unfolding Frame
      by (simp del: deliveries.simps)
  qed
  then show "host_inv in_ID U cfg (D @ drained ev s) (g_rc (generic_step et ct orc aw ev s))"
    "\<exists>new. drained ev s @ rc_host (g_rc (generic_step et ct orc aw ev s)) = rc_host (g_rc s) @ new \<and>
       set new \<subseteq> (inbound_of \<circ> del_Envelope) ` set (arrivals (ccf_HMACSecret cfg) ev)" by blast+
qed

lemma generic_run_inv:
  assumes "host_inv in_ID U cfg D (g_rc s)"
    "\<forall>ev\<in>set evs. \<forall>del\<in>set (arrivals (ccf_HMACSecret cfg) ev). env_ID (del_Envelope del) \<in> U"
    "st = generic_step et ct orc aw"
  shows "host_inv in_ID U cfg (D @ drains st evs s) (g_rc (fold st evs s)) \<and>
    (\<exists>new. drains st evs s @ rc_host (g_rc (fold st evs s)) = rc_host (g_rc s) @ new \<and>
       set new \<subseteq> (inbound_of \<circ> del_Envelope) ` (\<Union>ev\<in>set evs. set (arrivals (ccf_HMACSecret cfg) ev)))"
  using assms(1,2)
proof (induction evs arbitrary: D s)
  case (Cons ev evs)
  have u: "\<forall>del\<in>set (arrivals (ccf_HMACSecret cfg) ev). env_ID (del_Envelope del) \<in> U"
    "\<forall>ev\<in>set evs. \<forall>del\<in>set (arrivals (ccf_HMACSecret cfg) ev). env_ID (del_Envelope del) \<in> U" using Cons.prems(2) by simp_all
  note step = generic_step_inv [OF Cons.prems(1) u(1), where et = et and ct = ct and orc = orc and aw = aw, folded assms(3)]
  note IH = Cons.IH [OF step(1) u(2)]
  from step(2) IH obtain n1 n2 where n: "drained ev s @ rc_host (g_rc (st ev s)) = rc_host (g_rc s) @ n1"
    "drains st evs (st ev s) @ rc_host (g_rc (fold st evs (st ev s))) = rc_host (g_rc (st ev s)) @ n2"
    "set n1 \<subseteq> (inbound_of \<circ> del_Envelope) ` set (arrivals (ccf_HMACSecret cfg) ev)"
    "set n2 \<subseteq> (inbound_of \<circ> del_Envelope) ` (\<Union>ev\<in>set evs. set (arrivals (ccf_HMACSecret cfg) ev))" by blast
  have "drains st (ev # evs) s @ rc_host (g_rc (fold st (ev # evs) s)) = rc_host (g_rc s) @ n1 @ n2"
    using n(1,2) by simp
  moreover have "set (n1 @ n2) \<subseteq> (inbound_of \<circ> del_Envelope) ` (\<Union>ev\<in>set (ev # evs). set (arrivals (ccf_HMACSecret cfg) ev))"
    using n(3,4) by (simp add: image_Un) blast
  ultimately show ?case using IH by auto
qed simp

lemma drains_append: "drains st (xs @ ys) s = drains st xs s @ drains st ys (fold st xs s)"
  by (induction xs arbitrary: s) simp_all


text \<open>A host's request to drain.\<close>

definition drain_request :: "bytes \<Rightarrow> bytes" where
  "drain_request i = print_object [(''jsonrpc'', json_quote ''2.0''), (''id'', i), (''method'', json_quote ''tools/call''),
     (''params'', print_object [(''name'', json_quote ''bus.drain'')])]"

lemma drain_request_parses:
  assumes "json_text m i" "m + 2 \<le> maxNestingDepth"
  shows "unmarshal_rpcRequest (drain_request i) =
      Inr \<lparr>rq_JSONRPC = ''2.0'', rq_ID = i, rq_Method = ''tools/call'', rq_Params = print_object [(''name'', json_quote ''bus.drain'')]\<rparr>"
    "unmarshal (dec_struct upd_call) ([], []) (print_object [(''name'', json_quote ''bus.drain'')]) = Inr (''bus.drain'', [])"
proof -
  let ?params = "print_object [(''name'', json_quote ''bus.drain'')]"
  have d: "valid_utf8 ''bus.drain''" by code_simp
  have p: "json_text (m + 1) ?params" using json_text_object [of m "[(''name'', json_quote ''bus.drain'')]"] by simp
  have i: "json_text (m + 1) i" using json_text_mono [OF assms(1)] by simp
  show "unmarshal_rpcRequest (drain_request i) = Inr \<lparr>rq_JSONRPC = ''2.0'', rq_ID = i, rq_Method = ''tools/call'', rq_Params = ?params\<rparr>"
    unfolding unmarshal_rpcRequest_def drain_request_def
    using assms i p utf8_names by (subst unmarshal_print [of "m + 1"])
      (simp_all add: upd_rpcRequest_def rpcRequest_names_def field_raws_def find_field_def dec_raw_def Let_def del: dec_string.simps(2))
  show "unmarshal (dec_struct upd_call) ([], []) ?params = Inr (''bus.drain'', [])"
    using assms(2) d utf8_names by (subst unmarshal_print [of m])
      (simp_all add: upd_call_def field_raws_def find_field_def dec_raw_def Let_def del: dec_string.simps(2))
qed

lemma requested_drain:
  assumes "json_text m i" "m + 2 \<le> maxNestingDepth"
  shows "requested_calls (drain_request i) = [CallDrain]"
proof -
  have "i \<noteq> []" using json_text_head [OF assms(1)] by simp
  then show ?thesis using drain_request_parses [OF assms] by (simp add: requested_calls_def tool_calls_def object_like_def bytesTrimSpace_def)
qed


section \<open>The cc adapter\<close>

lemma probe_loop_bounds:
  assumes "probe_loop env_name draw net k cfg = (x, tried)"
  shows "tried \<noteq> [] \<and> hd tried = ccf_Name cfg \<and> length tried \<le> Suc (nameCollisionRetries - k) \<and>
    (\<forall>cfg'. x = Inr cfg' \<longrightarrow> cfg' = cfg\<lparr>ccf_Name := last tried\<rparr>) \<and> (env_name \<noteq> [] \<longrightarrow> length tried = 1) \<and>
    (\<forall>j<length tried. 0 < j \<longrightarrow> tried ! j = generateName (draw (k + j)))"
  using assms
proof (induction env_name draw net k cfg arbitrary: tried rule: probe_loop.induct)
  case (1 env_name draw net k cfg)
  let ?r = "fst (Connect (se_dial (net k)) (se_write (net k)) (se_first (net k)) (NewClient cfg))"
  show ?case
  proof (cases "?r = Inl ErrNameClaimed \<and> k < nameCollisionRetries \<and> env_name = []")
    case False
    then have "tried = [ccf_Name cfg] \<and> (\<forall>cfg'. x = Inr cfg' \<longrightarrow> cfg' = cfg)"
      using "1.prems" unfolding probe_loop.simps [of env_name draw net k cfg] by (auto simp: Let_def split: sum.splits if_splits)
    then show ?thesis by auto
  next
    case True
    let ?cfg = "cfg\<lparr>ccf_Name := UniqueName env_name (draw (Suc k))\<rparr>"
    obtain t where t: "probe_loop env_name draw net (Suc k) ?cfg = (x, t)" "tried = ccf_Name cfg # t"
      using "1.prems" True unfolding probe_loop.simps [of env_name draw net k cfg]
      by (cases "probe_loop env_name draw net (Suc k) ?cfg") (auto simp: Let_def)
    from "1.IH" [OF refl _ _ _ _ t(1), of ErrNameClaimed] True
    have IH: "t \<noteq> []" "hd t = ccf_Name ?cfg" "length t \<le> Suc (nameCollisionRetries - Suc k)"
      "\<forall>cfg'. x = Inr cfg' \<longrightarrow> cfg' = ?cfg\<lparr>ccf_Name := last t\<rparr>" "\<forall>j<length t. 0 < j \<longrightarrow> t ! j = generateName (draw (Suc k + j))" by auto
    have "tried ! j = generateName (draw (k + j))" if j: "j < length tried" "0 < j" for j
    proof (cases "j = 1")
      case True
      then show ?thesis using t(2) IH(1,2) \<open>?r = Inl ErrNameClaimed \<and> k < nameCollisionRetries \<and> env_name = []\<close>
        by (simp add: UniqueName_def hd_conv_nth)
    next
      case False
      then obtain l where "j = Suc l" "0 < l" using j(2) by (cases j) auto
      then show ?thesis using t(2) IH(5) j(1) by simp
    qed
    then show ?thesis using t(2) IH True by auto
  qed
qed

lemma probe_loop_exhausted:
  assumes "\<And>j name. fst (Connect (se_dial (net j)) (se_write (net j)) (se_first (net j)) (NewClient (cfg\<lparr>ccf_Name := name\<rparr>))) = Inl ErrNameClaimed"
    "probe_loop [] draw net k (cfg\<lparr>ccf_Name := nm\<rparr>) = (x, tried)" "k \<le> nameCollisionRetries"
  shows "length tried = Suc (nameCollisionRetries - k) \<and> x = Inl (RotationsRejected (last tried))"
  using assms(2,3)
proof (induction "nameCollisionRetries - k" arbitrary: k nm x tried)
  case 0
  then show ?case using assms(1) [of k nm] by (auto simp: probe_loop.simps [of _ _ _ nameCollisionRetries] Let_def)
next
  case (Suc d)
  let ?nm = "UniqueName [] (draw (Suc k))"
  obtain y t where t: "probe_loop [] draw net (Suc k) (cfg\<lparr>ccf_Name := ?nm\<rparr>) = (y, t)" by fastforce
  have "d = nameCollisionRetries - Suc k" "Suc k \<le> nameCollisionRetries" using Suc(2) by simp_all
  note IH = Suc(1) [OF this(1) t this(2)]
  have "\<not> nameCollisionRetries \<le> k" using Suc(2) by simp
  then have "x = y" "tried = nm # t" using Suc(3) t assms(1) [of k nm] by (simp_all add: probe_loop.simps [of _ _ _ k] Let_def)
  moreover have "t \<noteq> []" using IH by auto
  ultimately show ?case using IH Suc(2) by simp
qed


definition demo_refused :: session where
  "demo_refused = \<lparr>se_dial = True, se_write = Written, se_first = ReadClosed 1008 ''name claimed under a different token'', se_rand = 0, se_reads = []\<rparr>"

lemma demo_refused_claimed:
  "fst (Connect (se_dial demo_refused) (se_write demo_refused) (se_first demo_refused) (NewClient (demo_client\<lparr>ccf_Name := name\<rparr>))) = Inl ErrNameClaimed"
  by (simp add: demo_refused_def Connect_def NewClient_def demo_client_def demo_secret_def MinSecretLen_def writeJSON_client_def
      limited_client_def StatusPolicyViolation_def Let_def)


text \<open>What the cc adapter pushes in one event and in a run.\<close>

fun cc_pushed :: "(nat \<Rightarrow> write_outcome) \<Rightarrow> cc_event \<Rightarrow> cc_world \<Rightarrow> Inbound list" where
  "cc_pushed aw (CcFrame r) w = rc_host (frame_in aw cc_handle r (cc_rc w))"
| "cc_pushed aw _ w = []"

fun cc_pushes :: "(cc_event \<Rightarrow> cc_world \<Rightarrow> cc_world) \<Rightarrow> (nat \<Rightarrow> write_outcome) \<Rightarrow> cc_event list \<Rightarrow> cc_world \<Rightarrow> Inbound list" where
  "cc_pushes st aw [] w = []"
| "cc_pushes st aw (ev # evs) w = cc_pushed aw ev w @ cc_pushes st aw evs (st ev w)"

fun cc_arrivals :: "bytes \<Rightarrow> cc_event \<Rightarrow> deliver_frame list" where
  "cc_arrivals secret (CcFrame r) = deliveries secret [r]"
| "cc_arrivals secret _ = []"

fun cc_initialized :: "cc_event \<Rightarrow> bool" where
  "cc_initialized (CcHost raw) = signals_initialized (Dispatched raw)"
| "cc_initialized _ = False"

lemma Notify_keeps: "ms_bus (Notify m p s) = ms_bus s" "init_inv i (Notify m p s) = init_inv i s"
  by (simp_all add: Notify_def write_line_def init_inv_def split: option.split)

lemma fold_Deliver_keeps: "ms_bus (fold Deliver is s) = ms_bus s" "init_inv i (fold Deliver is s) = init_inv i s"
  by (induction "is" arbitrary: s) (simp_all add: Deliver_def Notify_keeps)

lemma push_all_keeps: "bs_rc (ms_bus (push_all s)) = (bs_rc (ms_bus s))\<lparr>rc_host := []\<rparr>" "init_inv i (push_all s) = init_inv i s"
  by (simp_all add: push_all_def Let_def fold_Deliver_keeps)

lemma frame_in_fired: "rc_fired (frame_in aw h r rc) = rc_fired rc"
  by (auto simp: frame_in_def surface_def Let_def split: option.split sum.split prod.split bool.split)

lemma connect_fired: "connect ses b rc = (x, rc', rest) \<Longrightarrow> rc_fired rc \<le> rc_fired rc'"
proof (induction ses b rc rule: connect.induct)
  case (2 se ses b rc)
  then show ?case by (auto simp: Let_def split: prod.splits sum.splits if_splits)
qed simp

lemma redial_fired: "rc_fired rc \<le> rc_fired (redial ses rc)"
  using connect_fired [of ses baseBackoff rc] by (cases "connect ses baseBackoff rc") (simp add: redial_def)

text \<open>The invariant of a running cc adapter: what the host was pushed (\<open>D\<close>), and whether it has said that it
  is initialized (\<open>i\<close>).\<close>

definition cc_inv :: "string set \<Rightarrow> ClientConfig \<Rightarrow> Inbound list \<Rightarrow> bool \<Rightarrow> cc_world \<Rightarrow> bool" where
  "cc_inv U cfg D i w \<longleftrightarrow> host_inv ib_ID U cfg D (cc_rc w) \<and> rc_host (cc_rc w) = [] \<and> init_inv i (cw_srv w) \<and>
     cw_announced w \<le> rc_fired (cc_rc w) \<and> (cw_announced w = 0 \<or> i)"

lemma cc_inv_start:
  assumes "finite U" "int (card U) \<le> dd_max (NewDedupe n)"
  shows "cc_inv U cfg [] False (cc_start cfg n)"
  using host_inv_initial [OF assms, of ib_ID cfg]
  by (simp add: cc_inv_def cc_start_def cc_rc_def Let_def Initialized_def NewChannelServer_def NewMcpServer_def WithChannelCapability_def
      WithoutDrain_def WithServerName_def init_inv_def SetOnConnect_def NewResumingClient_def host_inv_def)

lemma cc_step_inv:
  assumes "cc_inv U cfg D i w" "\<forall>del\<in>set (cc_arrivals (ccf_HMACSecret cfg) ev). env_ID (del_Envelope del) \<in> U"
  shows "cc_inv U cfg (D @ cc_pushed aw ev w) (i \<or> cc_initialized ev) (cc_step et ct orc aw ev w)"
proof (cases ev)
  case (CcHost raw)
  let ?s = "mcp_dispatch et (busAdapter (ccBus ct orc)) raw (cw_srv w)"
  have "init_inv (i \<or> signals_initialized (Dispatched raw)) ?s"
    using init_inv_step [of i "cw_srv w" "Dispatched raw" et "busAdapter (ccBus ct orc)"] assms(1) by (simp add: cc_inv_def)
  moreover note h = cbus.any_dispatch_rel [of "cw_srv w" et ct orc raw]
  moreover have "host_inv ib_ID U cfg D (bs_rc (ms_bus ?s))"
    using host_inv_same [OF h] assms(1) by (simp add: cc_inv_def cc_rc_def)
  ultimately show ?thesis using assms(1) CcHost by (auto simp: cc_inv_def cc_rc_def same_host_def)
next
  case (CcRedial ses)
  then show ?thesis using redial_inv [of ib_ID U cfg D "cc_rc w" ses] redial_fired [of "cc_rc w" ses] assms(1)
    by (simp add: cc_inv_def cc_rc_def cc_set_rc_def)
next
  case (CcFrame r)
  then have u: "\<forall>del\<in>set (deliveries (ccf_HMACSecret cfg) [r]). env_ID (del_Envelope del) \<in> U"
    using assms(2) by (simp only: cc_arrivals.simps)
  have i: "host_inv ib_ID U cfg D (cc_rc w)" "rc_host (cc_rc w) = []" using assms(1) by (simp_all add: cc_inv_def)
  let ?rc = "frame_in aw cc_handle r (cc_rc w)"
  have "host_inv ib_ID U cfg (D @ rc_host ?rc) (?rc\<lparr>rc_host := []\<rparr>)"
    using ch.frame_inv(1) [OF i(1) u, of aw] by (simp add: host_inv_def)
  then show ?thesis using assms(1) CcFrame frame_in_fired [of aw cc_handle r "cc_rc w"]
    by (simp add: cc_inv_def cc_rc_def cc_set_rc_def push_all_keeps)
next
  case CcAnnounce
  have "ms_initializedCh (cw_srv w) = Some True \<Longrightarrow> i" using assms(1) by (simp add: cc_inv_def init_inv_def)
  then show ?thesis using assms(1) CcAnnounce by (auto simp: cc_inv_def cc_rc_def AnnounceSelf_def Notify_keeps)
qed

lemma cc_run_inv:
  assumes "cc_inv U cfg D i w" "\<forall>ev\<in>set evs. \<forall>del\<in>set (cc_arrivals (ccf_HMACSecret cfg) ev). env_ID (del_Envelope del) \<in> U"
    "st = cc_step et ct orc aw"
  shows "cc_inv U cfg (D @ cc_pushes st aw evs w) (i \<or> list_ex cc_initialized evs) (fold st evs w)"
  using assms(1,2)
proof (induction evs arbitrary: D i w)
  case (Cons ev evs)
  have u: "\<forall>del\<in>set (cc_arrivals (ccf_HMACSecret cfg) ev). env_ID (del_Envelope del) \<in> U"
    "\<forall>ev\<in>set evs. \<forall>del\<in>set (cc_arrivals (ccf_HMACSecret cfg) ev). env_ID (del_Envelope del) \<in> U" using Cons.prems(2) by simp_all
  note step = cc_step_inv [OF Cons.prems(1) u(1), where et = et and ct = ct and orc = orc and aw = aw, folded assms(3)]
  from Cons.IH [OF step u(2)] show ?case by (simp add: disj_assoc)
qed simp

lemma cc_pushes_verified:
  assumes "cc_inv U cfg D i w" "\<forall>ev\<in>set evs. \<forall>del\<in>set (cc_arrivals (ccf_HMACSecret cfg) ev). env_ID (del_Envelope del) \<in> U"
    "st = cc_step et ct orc aw"
  shows "set (cc_pushes st aw evs w) \<subseteq> (channel_inbound \<circ> del_Envelope) ` (\<Union>ev\<in>set evs. set (cc_arrivals (ccf_HMACSecret cfg) ev))"
  using assms(1,2)
proof (induction evs arbitrary: D i w)
  case (Cons ev evs)
  have u: "\<forall>del\<in>set (cc_arrivals (ccf_HMACSecret cfg) ev). env_ID (del_Envelope del) \<in> U"
    "\<forall>ev\<in>set evs. \<forall>del\<in>set (cc_arrivals (ccf_HMACSecret cfg) ev). env_ID (del_Envelope del) \<in> U" using Cons.prems(2) by simp_all
  note step = cc_step_inv [OF Cons.prems(1) u(1), where et = et and ct = ct and orc = orc and aw = aw, folded assms(3)]
  have "set (cc_pushed aw ev w) \<subseteq> (channel_inbound \<circ> del_Envelope) ` set (cc_arrivals (ccf_HMACSecret cfg) ev)"
  proof (cases ev)
    case (CcFrame r)
    then have "\<forall>del\<in>set (deliveries (ccf_HMACSecret cfg) [r]). env_ID (del_Envelope del) \<in> U" using u(1) by (simp only: cc_arrivals.simps)
    from ch.frame_inv(2) [OF _ this, of D "cc_rc w" aw] Cons.prems(1) CcFrame show ?thesis by (auto simp: cc_inv_def simp del: deliveries.simps)
  qed simp_all
  with Cons.IH [OF step u(2)] show ?case by (simp add: image_Un) blast
qed simp

text \<open>The line written for a pushed message.\<close>

definition push_line :: "Inbound \<Rightarrow> bytes" where
  "push_line i = concat (ms_out (Deliver i (NewMcpServer ())))"

lemma Deliver_out: "ms_out (Deliver i s) = ms_out s @ [push_line i]"
  by (simp add: push_line_def Deliver_def Notify_def write_line_def NewMcpServer_def)

lemma fold_Deliver_out: "ms_out (fold Deliver is s) = ms_out s @ map push_line is"
  by (induction "is" arbitrary: s) (simp_all add: Deliver_out)

lemma cc_frame_writes:
  "ms_out (cw_srv (cc_step et ct orc aw (CcFrame r) w)) = ms_out (cw_srv w) @ map push_line (cc_pushed aw (CcFrame r) w)"
  by (simp add: push_all_def Let_def fold_Deliver_out cc_set_rc_def)

lemma cc_pushes_append: "cc_pushes st aw (xs @ ys) w = cc_pushes st aw xs w @ cc_pushes st aw ys (fold st xs w)"
  by (induction xs arbitrary: w) simp_all


section \<open>Witnesses\<close>

lemma demo_cur: "\<exists>c. connect [demo_session []] baseBackoff rc = (Some (Inr (c, [])), rc\<lparr>rc_cur := Some c,
    rc_fired := rc_fired rc + (if rc_onConnect rc then 1 else 0)\<rparr>, []) \<and> conn c"
  if "rc_cfg rc = demo_client" for rc :: "'h resuming"
proof -
  obtain x c where C: "Connect (se_dial (demo_session [])) (se_write (demo_session [])) (se_first (demo_session [])) (NewClient demo_client) = (x, c)"
    by fastforce
  with demo_session_connects [of "[]"] obtain u where x: "x = Inr u" by (cases x) (auto simp: connects_def is_ok_def)
  then show ?thesis using C that Connect_ok(1) [OF C [unfolded x]] by (simp add: demo_session_def)
qed

lemma demo_connected: "rc_cfg rc = demo_client \<Longrightarrow> rc_cur rc = None \<Longrightarrow> connected (redial [demo_session []] rc)"
  using demo_cur [of rc] by (auto simp: redial_def connected_def simp del: connect.simps)

definition demo_events :: "adapter_event list" where
  "demo_events = [Redial [demo_session []], Frame (TextMsg demo_frame), HostMessage (drain_request ''9''), Frame (TextMsg demo_frame)]"

lemma demo_U: "finite {''m1''}" "int (card {''m1''}) \<le> dd_max (NewDedupe 8)"
  by (simp_all add: NewDedupe_def)

lemma demo_arrivals:
  "\<exists>del. deliveries (ccf_HMACSecret demo_client) [TextMsg demo_frame] = [del] \<and> env_ID (del_Envelope del) = ''m1''"
proof -
  have "ccf_HMACSecret demo_client = demo_secret" by (simp add: demo_client_def)
  then show ?thesis using demo_deliveries by (metis deliveries.simps(1))
qed


definition demo_buffered :: "generic_bus mcp_server" where
  "demo_buffered = NewMcpServer \<lparr>bs_rc = NewResumingClient demo_client 8 [\<lparr>in_ID = ''m1'', in_From = ''alice'', in_Source = ''peer-bus'', in_Body = ''[1]''\<rparr>],
     bs_calls = 0\<rparr>"


lemma demo_probe: "ccProbe [] draw (\<lambda>_. demo_session []) demo_client = (Inr demo_client, [''bob''])"
proof -
  have n: "ccf_Name demo_client = ''bob''" by (simp add: demo_client_def)
  obtain u where "fst (Connect (se_dial (demo_session [])) (se_write (demo_session [])) (se_first (demo_session [])) (NewClient demo_client)) = Inr u"
    using demo_session_connects [of "[]"] by (auto simp: connects_def is_ok_def split: sum.splits)
  then show ?thesis using n by (simp add: ccProbe_def probe_loop.simps Let_def)
qed

definition demo_cc_events :: "cc_event list" where
  "demo_cc_events = [CcRedial [demo_session []], CcFrame (TextMsg demo_frame), CcFrame (TextMsg demo_frame)]"


end
