(* ===== verification/Commands.thy ===== *)
theory Commands
  imports Broker_Safety Config Modes
begin

text \<open>
  Package \<open>cmd/peerbus\<close>: the command line.  The parser of Go's \<open>flag\<close> package is modelled as the
  sources use it.  What a command prints on its standard output is a list of messages; diagnostics on
  standard error are not modelled.  The file system maps a path to the database stored there.  The
  life of the serving broker and of a running adapter mode are arguments of the commands that start them.
\<close>

section \<open>Flag parsing\<close>

datatype flag_kind = BoolFlag | StringFlag

datatype flag_error = BadFlagSyntax | NotDefined string | ErrHelp | BadBool string | NeedsArgument string

definition ParseBool :: "string \<Rightarrow> bool option" where
  "ParseBool v =
     (if v \<in> {''1'', ''t'', ''T'', ''TRUE'', ''true'', ''True''} then Some True
      else if v \<in> {''0'', ''f'', ''F'', ''FALSE'', ''false'', ''False''} then Some False
      else None)"

text \<open>The loop over a flag's name looks for \<open>=\<close> from its second byte on.\<close>

definition flag_split :: "string \<Rightarrow> string \<times> string option" where
  "flag_split name =
     (case cut_at (CHR ''='') (tl name) of
        None \<Rightarrow> (name, None)
      | Some (k, v) \<Rightarrow> (hd name # k, Some v))"

definition set_bool :: "string \<Rightarrow> string \<Rightarrow> (string \<Rightarrow> string) \<Rightarrow> (flag_error, string \<Rightarrow> string) result" where
  "set_bool name v vals =
     (case ParseBool v of None \<Rightarrow> Inl (BadBool v) | Some b \<Rightarrow> Inr (vals(name := (if b then ''true'' else ''false''))))"

fun parse_flags :: "(string \<rightharpoonup> flag_kind) \<Rightarrow> string list \<Rightarrow> (string \<Rightarrow> string) \<Rightarrow> (flag_error, (string \<Rightarrow> string) \<times> string list) result" where
  "parse_flags formal [] vals = Inr (vals, [])"
| "parse_flags formal (s # args) vals =
     (if length s < 2 \<or> hd s \<noteq> CHR ''-'' then Inr (vals, s # args)
      else if s = ''--'' then Inr (vals, args)
      else
        (let name0 = (if s ! 1 = CHR ''-'' then drop 2 s else drop 1 s) in
         if name0 = [] \<or> hd name0 = CHR ''-'' \<or> hd name0 = CHR ''='' then Inl BadFlagSyntax
         else (case flag_split name0 of (name, value) \<Rightarrow>
           (case formal name of
              None \<Rightarrow> Inl (if name = ''help'' \<or> name = ''h'' then ErrHelp else NotDefined name)
            | Some BoolFlag \<Rightarrow>
                (case set_bool name (case value of None \<Rightarrow> ''true'' | Some v \<Rightarrow> v) vals of
                   Inl err \<Rightarrow> Inl err
                 | Inr vals1 \<Rightarrow> parse_flags formal args vals1)
            | Some StringFlag \<Rightarrow>
                (case value of
                   Some v \<Rightarrow> parse_flags formal args (vals(name := v))
                 | None \<Rightarrow>
                     (case args of
                        [] \<Rightarrow> Inl (NeedsArgument name)
                      | v # args1 \<Rightarrow> parse_flags formal args1 (vals(name := v))))))))"

section \<open>version.go\<close>

definition Version :: string where
  "Version = ''0.0.0-dev''"

definition version_String :: string where
  "version_String = ''peerbus '' @ Version"

section \<open>broker.go\<close>

definition printUsage :: string where
  "printUsage = concat (map (\<lambda>l. l @ [LF])
    [''usage: peerbus <command> [flags]'',
     '''',
     ''commands:'',
     ''  serve                        start the WebSocket broker'',
     ''  audit verify [--db PATH]     walk the blake3 audit hash-chain'',
     ''  adapter --adapter=<mode>     run an adapter (cc | generic)'',
     '''',
     ''flags:'',
     ''  --version                    print version and exit'',
     ''  -h, --help                   print this help and exit'',
     '''',
     ''serve config is loaded from PEERBUS_* env (LISTEN, TOKENS, HMAC_SECRET, DB).'',
     ''adapter config is loaded from PEERBUS_* env (URL, NAME, TOKEN, HMAC_SECRET).''])"

datatype cmd_output = OutVersion string | OutUsage string | OutServing string | OutShutDown | OutAuditOK | OutAuditBroken break

text \<open>What the process meets: its environment variables, the hash function, the faults of the database.\<close>

record cmd_env =
  ce_getenv :: "string \<Rightarrow> string"
  ce_digest :: digest
  ce_db :: dbenv

type_synonym disk = "string \<rightharpoonup> store"

definition defaultDBPath :: string where
  "defaultDBPath = ''peerbus.db''"

text \<open>How \<open>http.Server.ListenAndServe\<close> and the context race: the broker returns the cancellation or the
  error of the listener.\<close>

datatype listen_end = CtxDone | ListenError

datatype serve_error = ContextCanceled | BrokerListen

definition ListenAndServe :: "listen_end \<Rightarrow> serve_error" where
  "ListenAndServe le = (case le of CtxDone \<Rightarrow> ContextCanceled | ListenError \<Rightarrow> BrokerListen)"

text \<open>SQLite keeps a database named \<open>:memory:\<close>, or by the empty name, only as long as it is open.\<close>

definition ephemeral :: "string \<Rightarrow> bool" where
  "ephemeral path \<longleftrightarrow> path = [] \<or> path = '':memory:''"

definition db_file :: "string \<Rightarrow> disk \<Rightarrow> store option" where
  "db_file path d = (if ephemeral path then None else d path)"

definition close_db :: "cmd_env \<Rightarrow> string \<Rightarrow> store \<Rightarrow> disk \<Rightarrow> disk" where
  "close_db e path st d = (if ephemeral path then d else d(path \<mapsto> snd (Close (ce_db e) st)))"

definition brokerServe :: "cmd_env \<Rightarrow> (server \<Rightarrow> server) \<Rightarrow> listen_end \<Rightarrow> string list \<Rightarrow> disk \<Rightarrow> nat \<times> cmd_output list \<times> disk" where
  "brokerServe e life le args d =
     (case parse_flags [''version'' \<mapsto> BoolFlag, ''db'' \<mapsto> StringFlag] args
            ((\<lambda>_. [])(''version'' := ''false'', ''db'' := defaultDBPath)) of
        Inl _ \<Rightarrow> (2, [], d)
      | Inr (vals, _) \<Rightarrow>
          if vals ''version'' = ''true'' then (0, [OutVersion version_String], d)
          else (case LoadConfig (ce_getenv e) \<lparr>cfg_ListenAddr = [], cfg_Tokens = [], cfg_HMACSecret = [], cfg_DBPath = vals ''db''\<rparr> of
             Inl _ \<Rightarrow> (2, [], d)
           | Inr cfg \<Rightarrow>
               (case Open (ce_db e) (db_file (cfg_DBPath cfg) d) of
                  Inl _ \<Rightarrow> (2, [], d)
                | Inr st \<Rightarrow>
                    (let srv = life (NewServer (NewAuthenticator (cfg_Tokens cfg)) NewRegistry st);
                         d1 = close_db e (cfg_DBPath cfg) (sv_store srv) d
                     in if ListenAndServe le \<noteq> ContextCanceled then (2, [OutServing (cfg_ListenAddr cfg)], d1)
                        else (0, [OutServing (cfg_ListenAddr cfg), OutShutDown], d1)))))"

definition brokerAuditVerify :: "cmd_env \<Rightarrow> string list \<Rightarrow> disk \<Rightarrow> nat \<times> cmd_output list \<times> disk" where
  "brokerAuditVerify e args d =
     (case parse_flags [''db'' \<mapsto> StringFlag] args ((\<lambda>_. [])(''db'' := defaultDBPath)) of
        Inl _ \<Rightarrow> (2, [], d)
      | Inr (vals, rest) \<Rightarrow>
          if rest = [] \<or> hd rest \<noteq> ''verify'' then (2, [], d)
          else (case Open (ce_db e) (db_file (vals ''db'') d) of
             Inl _ \<Rightarrow> (2, [], d)
           | Inr st \<Rightarrow>
               (let d1 = close_db e (vals ''db'') st d
                in case Verify_audit (ce_digest e) (ce_db e) st of
                     Inl _ \<Rightarrow> (2, [], d1)
                   | Inr (Some brk) \<Rightarrow> (1, [OutAuditBroken brk], d1)
                   | Inr None \<Rightarrow> (0, [OutAuditOK], d1))))"

section \<open>adapter.go\<close>

definition envClientConfig :: "(string \<Rightarrow> string) \<Rightarrow> ClientConfig" where
  "envClientConfig getenv = \<lparr>ccf_URL = getenv ''PEERBUS_URL'', ccf_Token = getenv ''PEERBUS_TOKEN'',
     ccf_Name = getenv ''PEERBUS_NAME'', ccf_HMACSecret = getenv ''PEERBUS_HMAC_SECRET''\<rparr>"

text \<open>How the mode's \<open>Run\<close> ends: without an error, or with one, before or after a termination signal.\<close>

datatype run_end = RunOK | RunFailed | RunSignalled

definition adapterRun :: "cmd_env \<Rightarrow> (adapter_mode \<Rightarrow> run_end) \<Rightarrow> string list \<Rightarrow> nat \<times> cmd_output list \<times> adapter_mode option" where
  "adapterRun e run args =
     (case parse_flags [''adapter'' \<mapsto> StringFlag, ''version'' \<mapsto> BoolFlag] args
            ((\<lambda>_. [])(''version'' := ''false'', ''adapter'' := [])) of
        Inl _ \<Rightarrow> (2, [], None)
      | Inr (vals, _) \<Rightarrow>
          if vals ''version'' = ''true'' then (0, [OutVersion version_String], None)
          else if vals ''adapter'' = [] then (2, [], None)
          else (case ResolveMode (vals ''adapter'') modeReg of
             Inl _ \<Rightarrow> (2, [], None)
           | Inr ctor \<Rightarrow>
               (let cfg = envClientConfig (ce_getenv e) in
                if ccf_URL cfg = [] then (2, [], None)
                else if ccf_Token cfg = [] then (2, [], None)
                else if length (ccf_HMACSecret cfg) < MinSecretLen then (2, [], None)
                else if vals ''adapter'' = ''generic'' \<and> ccf_Name cfg = [] then (2, [], None)
                else (let m = ctor cfg 0 in (if run m = RunFailed then 1 else 0, [], Some m)))))"

section \<open>main.go\<close>

definition cmd_dispatch :: "cmd_env \<Rightarrow> (server \<Rightarrow> server) \<Rightarrow> listen_end \<Rightarrow> (adapter_mode \<Rightarrow> run_end) \<Rightarrow> string list \<Rightarrow> disk \<Rightarrow>
    nat \<times> cmd_output list \<times> disk \<times> adapter_mode option" where
  "cmd_dispatch e life le run args d =
     (case args of
        [] \<Rightarrow> (2, [], d, None)
      | c # rest \<Rightarrow>
          if c \<in> {''--version'', ''-version''} then (0, [OutVersion version_String], d, None)
          else if c \<in> {''help'', ''-h'', ''--help''} then (0, [OutUsage printUsage], d, None)
          else if c = ''serve'' then (case brokerServe e life le rest d of (x, outs, d1) \<Rightarrow> (x, outs, d1, None))
          else if c = ''audit'' then (case brokerAuditVerify e rest d of (x, outs, d1) \<Rightarrow> (x, outs, d1, None))
          else if c = ''adapter'' then (case adapterRun e run rest of (x, outs, m) \<Rightarrow> (x, outs, d, m))
          else (2, [], d, None))"

section \<open>Properties\<close>

lemma parse_db: "formal ''db'' = Some StringFlag \<Longrightarrow> parse_flags formal (''--db'' # path # args) vals = parse_flags formal args (vals(''db'' := path))"
  by (simp add: flag_split_def)

lemma parse_verify: "parse_flags formal (''verify'' # args) vals = Inr (vals, ''verify'' # args)"
  by simp

text \<open>A serve command either leaves the files alone or runs one broker on the database and closes it.\<close>

lemma serve_cases:
  assumes "ce_getenv e EnvDBPath = []" "path \<noteq> []" "brokerServe e life le [''--db'', path] d = (x, outs, d1)"
  shows "d1 = d \<or> (\<exists>tokens st. Open (ce_db e) (db_file path d) = Inr st \<and>
    d1 = close_db e path (sv_store (life (fst (initial tokens st)))) d)"
proof -
  let ?base = "\<lparr>cfg_ListenAddr = [], cfg_Tokens = [], cfg_HMACSecret = [], cfg_DBPath = path\<rparr>"
  let ?vals = "((\<lambda>_. [])(''version'' := ''false'', ''db'' := defaultDBPath))(''db'' := path)"
  have p: "parse_flags [''version'' \<mapsto> BoolFlag, ''db'' \<mapsto> StringFlag] [''--db'', path] ((\<lambda>_. [])(''version'' := ''false'', ''db'' := defaultDBPath)) =
      Inr (?vals, [])" by (subst parse_db) simp_all
  show ?thesis
  proof (cases "LoadConfig (ce_getenv e) ?base")
    case (Inl err)
    then show ?thesis using assms(3) by (simp add: brokerServe_def p del: parse_flags.simps)
  next
    case (Inr cfg)
    then have db: "cfg_DBPath cfg = path" using assms(1,2) by (auto simp: LoadConfig_def Let_def split: if_splits)
    show ?thesis
    proof (cases "Open (ce_db e) (db_file path d)")
      case (Inr st)
      have "d1 = close_db e path (sv_store (life (NewServer (NewAuthenticator (cfg_Tokens cfg)) NewRegistry st))) d"
        using assms(3) \<open>LoadConfig _ _ = _\<close> db Inr by (auto simp: brokerServe_def p Let_def simp del: parse_flags.simps split: if_splits)
      then show ?thesis using Inr
        by (intro disjI2 exI [of _ "cfg_Tokens cfg"] exI [of _ st]) (simp add: initial_def NewAuthenticator_def)
    qed (use assms(3) Inr db in \<open>simp add: brokerServe_def p del: parse_flags.simps\<close>)
  qed
qed

text \<open>Several brokers, one after the other, on the same path, each with its own environment and its own interleaving of
  connections.\<close>

type_synonym serve_run = "cmd_env \<times> (server \<Rightarrow> server) \<times> listen_end"

fun serve_all :: "string \<Rightarrow> serve_run list \<Rightarrow> disk \<Rightarrow> disk" where
  "serve_all path [] d = d"
| "serve_all path ((e, life, le) # runs) d = serve_all path runs (snd (snd (brokerServe e life le [''--db'', path] d)))"

fun proper_run :: "digest \<Rightarrow> serve_run \<Rightarrow> bool" where
  "proper_run b3 (e, life, le) \<longleftrightarrow> ce_getenv e EnvDBPath = [] \<and>
     (\<forall>s. \<exists>env g. be_digest env = b3 \<and> (micro env)\<^sup>*\<^sup>* (s, \<lambda>_. None) (life s, g))"

definition disk_ok :: "digest \<Rightarrow> string \<Rightarrow> disk \<Rightarrow> bool" where
  "disk_ok b3 path d \<longleftrightarrow> (\<forall>st. d path = Some st \<longrightarrow> store_inv st \<and> log_ok b3 st)"

lemma opened_ok:
  assumes "disk_ok b3 path d" "Open e (d path) = Inr st"
  shows "store_inv st" "log_ok b3 st"
proof -
  obtain st0 where st0: "Open e (Some st0) = Inr st" "store_inv st0" "log_ok b3 st0"
  proof (cases "d path")
    case None
    then have "Open e (Some empty_store) = Inr st" using assms(2) by (auto simp: Open_def migrate_def split: if_splits)
    moreover have "log_ok b3 empty_store" by (simp add: empty_store_def)
    ultimately show ?thesis using that store_inv_empty by blast
  next
    case (Some st0)
    with assms show ?thesis by (intro that [of st0]) (simp_all add: disk_ok_def)
  qed
  from store_steps_inv [OF r_into_rtranclp [of store_step, OF step_Open [OF st0(1)]] st0(2)] show "store_inv st" .
  show "log_ok b3 st" using st0(3) reopened [OF st0(1)] by simp
qed

lemma proper_run_disk:
  assumes "proper_run b3 (e, life, le)" "path \<noteq> []" "disk_ok b3 path d" "d1 = snd (snd (brokerServe e life le [''--db'', path] d))"
  shows "disk_ok b3 path d1" "d path = Some st0 \<Longrightarrow> \<exists>st1. d1 path = Some st1 \<and> store_step\<^sup>*\<^sup>* st0 st1"
proof -
  obtain x outs where "brokerServe e life le [''--db'', path] d = (x, outs, d1)" using assms(4) by (metis prod.collapse)
  from serve_cases [OF _ assms(2) this] assms(1)
  consider "d1 = d" | tokens st where "Open (ce_db e) (db_file path d) = Inr st"
    "d1 = close_db e path (sv_store (life (fst (initial tokens st)))) d" by auto
  then have "disk_ok b3 path d1 \<and> (d path = Some st0 \<longrightarrow> (\<exists>st1. d1 path = Some st1 \<and> store_step\<^sup>*\<^sup>* st0 st1))"
  proof cases
    case (2 tokens st)
    let ?s = "life (fst (initial tokens st))" and ?st1 = "snd (Close (ce_db e) (sv_store (life (fst (initial tokens st)))))"
    show ?thesis
    proof (cases "ephemeral path")
      case False
      then have d1: "d1 path = Some ?st1" and o: "Open (ce_db e) (d path) = Inr st" using 2 by (simp_all add: close_db_def db_file_def)
      note st = opened_ok [OF assms(3) o]
      obtain env g where r: "be_digest env = b3" "(micro env)\<^sup>*\<^sup>* (initial tokens st) (?s, g)"
        using assms(1) by (force simp: initial_def)
      then have "(broker_run b3)\<^sup>*\<^sup>* (initial tokens st) (?s, g)" using micros_run by blast
      note run = this reachable_micro_inv [OF this]
      have c: "store_step (sv_store ?s) ?st1" by (rule step_Close)
      have "store_inv ?st1" "log_ok b3 ?st1"
        using run(2) st store_steps_inv [OF r_into_rtranclp [of store_step, OF c]] by (auto simp: micro_inv_def run_env_def)
      moreover have "store_step\<^sup>*\<^sup>* st0 ?st1" if "d path = Some st0"
      proof -
        have "store_step st0 st" using o that by (auto intro: step_Open)
        then show ?thesis using broker_runs_store [OF run(1)] c by (auto intro: rtranclp.rtrancl_into_rtrancl converse_rtranclp_into_rtranclp)
      qed
      ultimately show ?thesis using d1 by (simp add: disk_ok_def)
    qed (use 2 assms(3) in \<open>simp add: close_db_def\<close>)
  qed (use assms(3) in simp)
  then show "disk_ok b3 path d1" "d path = Some st0 \<Longrightarrow> \<exists>st1. d1 path = Some st1 \<and> store_step\<^sup>*\<^sup>* st0 st1" by blast+
qed

lemma serve_all_disk:
  assumes "list_all (proper_run b3) runs" "path \<noteq> []" "disk_ok b3 path d"
  shows "disk_ok b3 path (serve_all path runs d) \<and>
    (\<forall>st. d path = Some st \<longrightarrow> (\<exists>st1. serve_all path runs d path = Some st1 \<and> store_step\<^sup>*\<^sup>* st st1))"
  using assms(1,3)
proof (induction runs arbitrary: d)
  case (Cons run runs)
  obtain e life le where run: "run = (e, life, le)" by (cases run)
  let ?d1 = "snd (snd (brokerServe e life le [''--db'', path] d))"
  have p: "proper_run b3 (e, life, le)" using Cons.prems(1) run by simp
  note one = proper_run_disk [OF p assms(2) Cons.prems(2) refl]
  have "\<exists>st2. serve_all path runs ?d1 path = Some st2 \<and> store_step\<^sup>*\<^sup>* st st2" if "d path = Some st" for st
    using one(2) [OF that] Cons.IH [OF _ one(1)] Cons.prems(1) by (metis list.pred_inject(2) rtranclp_trans)
  then show ?case using Cons.IH [OF _ one(1)] Cons.prems(1) run by simp
qed simp

text \<open>C20: databases survive their brokers: when any number of \<open>peerbus serve --db PATH\<close> processes have run one after the other on a path
  that held a well-formed database or none, each through any interleaving of connections and with any faults, \<open>peerbus audit
  --db PATH verify\<close> reports an intact chain and exits with 0 (up to \<open>2^63\<close> rows, when the statements of this last command do
  not fail), and every message that was stored before is still there, unaltered.\<close>

theorem serve_then_audit:
  assumes "list_all (proper_run b3) runs" "path \<noteq> []" "disk_ok b3 path d" "d1 = serve_all path runs d"
    "ce_digest e = b3" "db_fault (ce_db e) = (\<lambda>_. False)" "\<forall>st. d1 path = Some st \<longrightarrow> length (st_audit st) \<le> 2 ^ 63"
  shows "(\<exists>d2. brokerAuditVerify e [''--db'', path, ''verify''] d1 = (0, [OutAuditOK], d2)) \<and>
    (\<forall>st i m. d path = Some st \<and> message_row st i = Some m \<longrightarrow>
       (\<exists>st1 m1. d1 path = Some st1 \<and> message_row st1 i = Some m1 \<and> msg_From m1 = msg_From m \<and> msg_To m1 = msg_To m \<and>
          msg_Envelope m1 = msg_Envelope m \<and> (msg_Acked m \<longrightarrow> msg_Acked m1)))"
proof -
  note D = serve_all_disk [OF assms(1-3), folded assms(4)]
  obtain st where o: "Open (ce_db e) (db_file path d1) = Inr st" and st: "st_audit st = [] \<or> (\<exists>st1. d1 path = Some st1 \<and> st_audit st = st_audit st1)"
    "\<not> st_closed st"
    using assms(6) by (cases "db_file path d1") (auto simp: Open_def migrate_def empty_store_def db_file_def split: if_splits)
  have ch: "chained b3 0 (genesisPrevHash b3) (sort_key ar_Seq (st_audit st))"
    using st(1) D assms(7) by (auto simp: disk_ok_def)
  have "is_ok (fst (AuditRows (ce_db e) st))" using assms(6) st(2) by (simp add: AuditRows_def okToUse_def is_ok_def)
  then have v: "Verify_audit (ce_digest e) (ce_db e) st = Inr None" using ch assms(5) by (simp add: Verify_audit_chained)
  have p: "parse_flags [''db'' \<mapsto> StringFlag] [''--db'', path, ''verify''] vals = Inr (vals(''db'' := path), [''verify''])" for vals
    by (subst parse_db) (simp_all add: parse_verify del: parse_flags.simps)
  have "\<exists>d2. brokerAuditVerify e [''--db'', path, ''verify''] d1 = (0, [OutAuditOK], d2)"
    by (simp add: brokerAuditVerify_def p o v Let_def del: parse_flags.simps)
  moreover have "\<exists>st1 m1. d1 path = Some st1 \<and> message_row st1 i = Some m1 \<and> row_le m m1" if "d path = Some st0" "message_row st0 i = Some m" for st0 i m
    using D that mrow.steps_row by metis
  ultimately show ?thesis unfolding row_le_def by meson
qed

text \<open>A flag after the verb is not read: the default database is checked whatever follows.\<close>

theorem audit_db_after_verb_ignored: "brokerAuditVerify e (''verify'' # rest) d = brokerAuditVerify e [''verify''] d"
  by (simp add: brokerAuditVerify_def)

text \<open>C40: the adapter command starts a mode only when it can work: the mode is a known one, the broker's address and
  token are given, the secret is long enough that connecting never fails for its length, and the generic
  mode has a name; otherwise nothing is started and the exit code is 2, except that the version is
  printed with 0.\<close>

theorem adapter_fails_fast:
  assumes "adapterRun e run args = (x, outs, started)"
  shows "(case started of
      Some m \<Rightarrow>
        (let cfg = envClientConfig (ce_getenv e) in
         (m = CcMode cfg 0 \<or> m = GenericMode cfg 0 \<and> ccf_Name cfg \<noteq> []) \<and> ccf_URL cfg \<noteq> [] \<and> ccf_Token cfg \<noteq> [] \<and>
         (\<forall>dial w r. fst (Connect dial w r (NewClient cfg)) \<noteq> Inl ShortSecret) \<and> x = (if run m = RunFailed then 1 else 0))
    | None \<Rightarrow> x = 2 \<and> outs = [] \<or> x = 0 \<and> outs = [OutVersion version_String])"
proof -
  let ?cfg = "envClientConfig (ce_getenv e)"
  have long: "fst (Connect dial w r (NewClient ?cfg)) \<noteq> Inl ShortSecret" if "\<not> length (ccf_HMACSecret ?cfg) < MinSecretLen" for dial w r
    using that by (simp add: Connect_def NewClient_def Let_def split: prod.split bool.split cread.split)
  have modes: "ResolveMode m modeReg = Inr ctor \<Longrightarrow> m = ''generic'' \<and> ctor = GenericMode \<or> m = ''cc'' \<and> ctor = CcMode" for m ctor
    by (auto simp: ResolveMode_def modeReg_def RegisterMode_def split: option.splits if_splits)
  show ?thesis
    using assms long modes unfolding adapterRun_def by (fastforce simp: Let_def split: sum.splits prod.splits if_splits)
qed

section \<open>Witnesses\<close>

definition demo_vars :: "string \<Rightarrow> string" where
  "demo_vars = (\<lambda>_. [])(''PEERBUS_TOKENS'' := ''tok'', ''PEERBUS_HMAC_SECRET'' := demo_secret, ''PEERBUS_URL'' := ''ws://b'', ''PEERBUS_TOKEN'' := ''tok'')"

definition demo_cmd :: cmd_env where
  "demo_cmd = \<lparr>ce_getenv = demo_vars, ce_digest = demo_digest, ce_db = no_fault 9\<rparr>"

definition demo_life :: "server \<Rightarrow> server" where
  "demo_life = auditEvent demo_benv ''send'' ''m1'' ''alice'' ''bob''"

lemma demo_serve_audit:
  assumes "\<forall>st. d ''a.db'' = Some st \<longrightarrow> length (st_audit st) \<le> n"
    "snd (snd (brokerServe demo_cmd demo_life le [''--db'', ''a.db''] d)) ''a.db'' = Some st"
  shows "length (st_audit st) \<le> Suc n"
proof -
  have grow: "length (st_audit (sv_store (demo_life s))) \<le> Suc (length (st_audit (sv_store s)))" for s
    unfolding demo_life_def auditEvent_def
    by (cases rule: au.Append_cases [of "be_digest demo_benv" "be_db demo_benv (sv_tick s)" "audit_event_bytes ''send'' ''m1'' ''alice'' ''bob''" "sv_store s"])
      (auto split: prod.splits)
  have c: "ce_getenv demo_cmd EnvDBPath = []" "''a.db'' \<noteq> []" by (simp_all add: demo_cmd_def demo_vars_def EnvDBPath_def)
  obtain x outs d1 where d1: "brokerServe demo_cmd demo_life le [''--db'', ''a.db''] d = (x, outs, d1)" by (metis prod.collapse)
  from serve_cases [OF c d1] show ?thesis
  proof (elim disjE exE conjE)
    fix tokens st0
    assume o: "Open (ce_db demo_cmd) (db_file ''a.db'' d) = Inr st0"
      and "d1 = close_db demo_cmd ''a.db'' (sv_store (demo_life (fst (initial tokens st0)))) d"
    then have "st_audit st = st_audit (sv_store (demo_life (fst (initial tokens st0))))"
      using assms(2) d1 by (auto simp: close_db_def ephemeral_def)
    moreover have "length (st_audit st0) \<le> n"
      using o assms(1) by (cases "d ''a.db''") (auto simp: db_file_def ephemeral_def Open_def migrate_def empty_store_def split: if_splits)
    ultimately show ?thesis using grow [of "fst (initial tokens st0)"] by simp
  qed (use assms d1 in force)
qed

theorem serve_then_audit_witness:
  "(\<exists>d1. brokerServe demo_cmd demo_life CtxDone [''--db'', ''a.db''] Map.empty = (0, [OutServing DefaultListenAddr, OutShutDown], d1)) \<and>
   (\<exists>d2. brokerAuditVerify demo_cmd [''--db'', ''a.db'', ''verify'']
      (serve_all ''a.db'' [(demo_cmd, demo_life, CtxDone), (demo_cmd, demo_life, CtxDone)] Map.empty) = (0, [OutAuditOK], d2))"
proof -
  let ?st = "empty_store" and ?srv = "demo_life (NewServer [''tok''] NewRegistry empty_store)"
  let ?d1 = "close_db demo_cmd ''a.db'' (sv_store ?srv) Map.empty"
  have t: "parseTokens ''tok'' = [''tok'']" by code_simp
  have c: "LoadConfig demo_vars \<lparr>cfg_ListenAddr = [], cfg_Tokens = [], cfg_HMACSecret = [], cfg_DBPath = ''a.db''\<rparr> =
      Inr \<lparr>cfg_ListenAddr = DefaultListenAddr, cfg_Tokens = [''tok''], cfg_HMACSecret = demo_secret, cfg_DBPath = ''a.db''\<rparr>"
    by (simp add: LoadConfig_def demo_vars_def EnvListenAddr_def EnvTokens_def EnvHMACSecret_def EnvDBPath_def t demo_secret_def MinSecretLen_def Let_def)
  have o: "Open (no_fault 9) None = Inr empty_store" by (simp add: Open_def migrate_def no_fault_def empty_store_def)
  have p: "parse_flags [''version'' \<mapsto> BoolFlag, ''db'' \<mapsto> StringFlag] [''--db'', ''a.db''] vals = Inr (vals(''db'' := ''a.db''), [])" for vals
    by (subst parse_db) simp_all
  have b: "brokerServe demo_cmd demo_life CtxDone [''--db'', ''a.db''] Map.empty = (0, [OutServing DefaultListenAddr, OutShutDown], ?d1)"
    using c o by (simp add: brokerServe_def p demo_cmd_def ListenAndServe_def NewAuthenticator_def db_file_def Let_def del: parse_flags.simps)
  have l: "\<forall>s. \<exists>env g. be_digest env = ce_digest demo_cmd \<and> (micro env)\<^sup>*\<^sup>* (s, \<lambda>_. None) (demo_life s, g)"
  proof
    fix s
    have "(micro demo_benv)\<^sup>*\<^sup>* (s, \<lambda>_. None) (demo_life s, \<lambda>_. None)" unfolding demo_life_def by (rule micro_one [OF m_audit])
    then show "\<exists>env g. be_digest env = ce_digest demo_cmd \<and> (micro env)\<^sup>*\<^sup>* (s, \<lambda>_. None) (demo_life s, g)"
      by (intro exI [of _ demo_benv]) (auto simp: demo_benv_def demo_cmd_def)
  qed
  let ?run = "(demo_cmd, demo_life, CtxDone)"
  have f: "proper_run demo_digest ?run" "''a.db'' \<noteq> []" "disk_ok demo_digest ''a.db'' Map.empty" "db_fault (ce_db demo_cmd) = (\<lambda>_. False)"
    "ce_digest demo_cmd = demo_digest"
    using l by (simp_all add: demo_cmd_def demo_vars_def EnvDBPath_def no_fault_def disk_ok_def)
  have "\<forall>st. ?d1 ''a.db'' = Some st \<longrightarrow> length (st_audit st) \<le> 1" using demo_serve_audit [of Map.empty 0 CtxDone] b by simp
  from demo_serve_audit [of ?d1, OF this, of CtxDone]
  have "length (st_audit st) \<le> 2" if "serve_all ''a.db'' [?run, ?run] Map.empty ''a.db'' = Some st" for st
    using that b by (simp add: numeral_2_eq_2)
  then have n: "\<forall>st. serve_all ''a.db'' [?run, ?run] Map.empty ''a.db'' = Some st \<longrightarrow> length (st_audit st) \<le> 2 ^ 63"
    by fastforce
  have "list_all (proper_run demo_digest) [?run, ?run]" using f(1) by simp
  from serve_then_audit [OF this f(2,3) refl f(5,4) n] b show ?thesis by blast
qed

theorem adapter_fails_fast_witness:
  "snd (snd (adapterRun demo_cmd (\<lambda>_. RunOK) [''--adapter=cc''])) = Some (CcMode (envClientConfig demo_vars) 0) \<and>
   (\<forall>dial w r. fst (Connect dial w r (NewClient (envClientConfig demo_vars))) \<noteq> Inl ShortSecret)"
proof -
  have p: "parse_flags [''adapter'' \<mapsto> StringFlag, ''version'' \<mapsto> BoolFlag] [''--adapter=cc''] vals = Inr (vals(''adapter'' := ''cc''), [])" for vals
    by (simp add: flag_split_def)
  have "ResolveMode ''cc'' modeReg = Inr CcMode" by (simp add: ResolveMode_def modeReg_def RegisterMode_def)
  then have a: "adapterRun demo_cmd (\<lambda>_. RunOK) [''--adapter=cc''] = (0, [], Some (CcMode (envClientConfig demo_vars) 0))"
    by (simp add: adapterRun_def p demo_cmd_def envClientConfig_def demo_vars_def demo_secret_def MinSecretLen_def Let_def del: parse_flags.simps)
  with adapter_fails_fast [OF a] show ?thesis by (simp add: demo_cmd_def Let_def)
qed

end
