(* ===== verification/Frames.thy ===== *)
theory Frames
  imports Broker_Safety Resume
begin

text \<open>
  The frames that cross a connection, from the side that reads them.  A frame is printed by one
  program and decoded by the other: this theory shows what the decoders of \<open>client.go\<close> make of
  everything the broker may write, and where a frame is too deep to be decoded at all.
\<close>

section \<open>Decoded envelopes\<close>

lemma upd_envelope_valid: "wf_strings e \<Longrightarrow> wf_strings (fst (upd_envelope ms e))"
  by (simp add: upd_envelope_def wf_strings_def Let_def dec_string_valid)

lemma unmarshal_envelope_valid: "unmarshal_envelope bs = Inr e \<Longrightarrow> wf_strings e"
  using upd_envelope_valid [of zero_envelope "json_members (skip_ws bs)"]
  by (auto simp: unmarshal_envelope_def unmarshal_def dec_struct_def zero_envelope_def wf_strings_def
      split: if_splits prod.splits jkind.splits)

section \<open>Texts that are too deep\<close>

text \<open>Inside an enclosing value the scanner has that much less room: where a text that is valid on its
  own exceeds what is left, the scan of the whole fails.\<close>

lemma scan_step_deep:
  assumes "scan_step M c s = (s', op)" "op \<noteq> ScanError" "scan_step m c s = (t, ScanError)"
  shows "snd (scan_step (m + length base) c (lift_scan base s)) = ScanError"
proof -
  obtain q st where s: "s = (q, st)" by (cases s)
  have bv: "snd (begin_value (m + length base) c (st @ base) r) = ScanError"
    if "begin_value m c st r' = (t, ScanError)" "begin_value M c st r' = (s', op)" for r r'
    using that assms(2) unfolding begin_value_def push_ps_def scan_err_def by (auto split: if_splits)
  have "q = BeginValue \<or> q = BeginValueOrEmpty \<and> c \<noteq> CHR '']''"
    using assms s by (cases q) (auto split: if_splits simp del: end_value.simps)
  then show ?thesis using assms(1,3) s bv by (auto simp: lift_scan_def)
qed

lemma scan_too_deep:
  "scan_all M s b = Some t \<Longrightarrow> wf_scan s \<Longrightarrow> m \<le> M \<Longrightarrow> base \<noteq> [] \<Longrightarrow> scan_all m s b = None \<Longrightarrow>
     \<not> scan_ok (m + length base) (lift_scan base s) (b @ w)"
proof (induction b arbitrary: s)
  case (Cons c b)
  obtain s' op where step: "scan_step M c s = (s', op)" by fastforce
  with Cons.prems(1) have ok: "op \<noteq> ScanSkipSpace" "op \<noteq> ScanEnd" "op \<noteq> ScanError" "scan_all M s' b = Some t"
    by (auto split: if_splits)
  obtain s'' op' where step': "scan_step m c s = (s'', op')" by fastforce
  show ?case
  proof (cases "op' = ScanError")
    case True
    from scan_step_deep [OF step ok(3) step' [unfolded True], of base] show ?thesis by (auto split: prod.splits)
  next
    case False
    then have e: "s'' = s'" "op' = op" using scan_step_mono [OF step' False Cons.prems(3)] step by simp_all
    then have "scan_all m s' b = None" using Cons.prems(5) step' ok by simp
    moreover have "wf_scan s'" using wf_scan_step step ok(3) Cons.prems(2) by blast
    ultimately show ?thesis
      using Cons.IH [OF ok(4)] Cons.prems(3,4) scan_step_lift [OF Cons.prems(4,2) step' [unfolded e] ok(2,3)] by simp
  qed
qed simp

lemma json_text_too_deep:
  assumes "json_text M b" "\<not> json_text m b" "base \<noteq> []"
  shows "\<not> scan_ok (m + length base) (BeginValue, base) (b @ w)"
proof -
  have "m \<le> M" using assms(1,2) json_text_mono [of M b m] by linarith
  obtain t where t: "scan_all M (BeginValue, []) b = Some t" "complete t" using assms(1) by (rule json_textE)
  have "scan_all m (BeginValue, []) b = None"
  proof (rule ccontr)
    assume "scan_all m (BeginValue, []) b \<noteq> None"
    then obtain u where u: "scan_all m (BeginValue, []) b = Some u" by blast
    then have "u = t" using scan_all_mono [OF u \<open>m \<le> M\<close>] t(1) by simp
    then show False using u t(2) assms(2) by (simp add: json_text_def)
  qed
  from scan_too_deep [OF t(1) _ \<open>m \<le> M\<close> assms(3) this, of w] show ?thesis
    by (simp add: wf_scan_def lift_scan_def)
qed

text \<open>The scanner enters a member of an object after the members before it.\<close>

lemma member_entered:
  assumes "list_all (\<lambda>kv. json_text (m + 1) (snd kv)) kvs" "q = BeginString \<or> q = BeginStringOrEmpty"
  shows "\<exists>p. join_comma (map print_member (kvs @ (k, v) # rest)) = p @ v @ (if rest = [] then [] else CHR '','' # join_comma (map print_member rest)) \<and>
    scan_all (m + 1 + length (ParseObjectKey # st)) (q, ParseObjectKey # st) p = Some (BeginValue, ParseObjectValue # st)"
  using assms
proof (induction kvs arbitrary: q)
  case Nil
  have "scan_all (m + 1 + length (ParseObjectKey # st)) (q, ParseObjectKey # st) (json_quote k @ '':'') = Some (BeginValue, ParseObjectValue # st)"
    using scan_json_quote [of q "m + 1 + length (ParseObjectKey # st)" "ParseObjectKey # st" k] Nil.prems(2)
    by (auto simp: scan_all_appendI isSpace_def)
  then show ?case by (intro exI [of _ "json_quote k @ '':''"]) (cases rest; simp add: print_member_def [of "(k, v)"])
next
  case (Cons kv kvs)
  obtain k' v' where kv: "kv = (k', v')" by fastforce
  let ?M = "m + 1 + length (ParseObjectKey # st)"
  obtain p where p: "join_comma (map print_member (kvs @ (k, v) # rest)) = p @ v @ (if rest = [] then [] else CHR '','' # join_comma (map print_member rest))"
    "scan_all ?M (BeginString, ParseObjectKey # st) p = Some (BeginValue, ParseObjectValue # st)"
    using Cons.IH [of BeginString] Cons.prems by auto
  obtain r where r: "value_end r" "scan_all ?M (BeginValue, ParseObjectValue # st) v' = Some (r, ParseObjectValue # st)"
    using json_text_inside [of "m + 1" v' "ParseObjectValue # st"] Cons.prems kv by auto
  have "scan_all ?M (q, ParseObjectKey # st) (json_quote k') = Some (EndValue, ParseObjectKey # st)"
    using Cons.prems(2) by (intro scan_json_quote) auto
  then have "scan_all ?M (q, ParseObjectKey # st) (print_member kv @ CHR '','' # p) = Some (BeginValue, ParseObjectValue # st)"
    using r p(2) kv value_end_comma [OF r(1)] by (simp add: print_member_def scan_all_appendI isSpace_def)
  moreover have "join_comma (map print_member ((kv # kvs) @ (k, v) # rest)) =
      (print_member kv @ CHR '','' # p) @ v @ (if rest = [] then [] else CHR '','' # join_comma (map print_member rest))"
    using p(1) by (cases kvs) simp_all
  ultimately show ?case by blast
qed

lemma object_entered:
  assumes "\<forall>kv\<in>set kvs. \<forall>n. json_text n (snd kv)" "2 + length st \<le> M"
  shows "\<exists>p w. print_object (kvs @ (k, v) # rest) = p @ v @ w \<and> scan_all M (BeginValue, st) p = Some (BeginValue, ParseObjectValue # st)"
proof -
  obtain m where m: "M = m + 1 + length (ParseObjectKey # st)" using assms(2) by (auto simp: le_iff_add)
  obtain p where p: "join_comma (map print_member (kvs @ (k, v) # rest)) = p @ v @ (if rest = [] then [] else CHR '','' # join_comma (map print_member rest))"
    "scan_all M (BeginStringOrEmpty, ParseObjectKey # st) p = Some (BeginValue, ParseObjectValue # st)"
    using member_entered [of m kvs BeginStringOrEmpty k v rest st] assms(1) unfolding m by (auto simp: list_all_iff)
  have "scan_all M (BeginValue, st) (CHR ''{'' # p) = Some (BeginValue, ParseObjectValue # st)"
    using p(2) assms(2) by (simp add: begin_value_def isSpace_def push_ps_def)
  then show ?thesis using p(1)
    by (intro exI [of _ "CHR ''{'' # p"] exI [of _ "(if rest = [] then [] else CHR '','' # join_comma (map print_member rest)) @ ''}''"])
      (simp add: print_object_def del: scan_all.simps)
qed

text \<open>A delivery adds two levels around the body.  A body that leaves no room for them is printed by the
  broker, but no longer decoded by anyone.\<close>

definition body_deliverable :: "bytes \<Rightarrow> bool" where
  "body_deliverable b = json_text (maxNestingDepth - 2) (norm_body b)"

lemma marshal_deliver_parts:
  assumes "marshal_deliver d = Some fr"
  obtains b where "marshal_raw (env_Body (del_Envelope d)) = Some b" "norm_body (env_Body (del_Envelope d)) = b" "json_text maxNestingDepth b"
    "fr = print_object [(''protocol_version'', json_quote (del_ProtocolVersion d)), (''type'', json_quote (del_Type d)),
        (''delivery_key'', json_quote (del_DeliveryKey d)),
        (''envelope'', print_object (canonicalEnvelope (del_Envelope d) b @ [(''hmac'', json_quote (env_HMAC (del_Envelope d)))]))]"
proof -
  obtain b where b: "marshal_raw (env_Body (del_Envelope d)) = Some b"
    using assms by (auto simp: marshal_deliver_def marshal_envelope_def)
  then have "json_text maxNestingDepth b"
    by (auto simp: marshal_raw_def json_compact_def split: if_splits intro: json_compact_text)
  then show ?thesis using that [OF b] assms b by (simp add: marshal_deliver_def marshal_envelope_def norm_body_def)
qed

lemma deep_delivery_invalid:
  assumes "marshal_deliver d = Some fr" "\<not> body_deliverable (env_Body (del_Envelope d))"
  shows "\<not> checkValid fr"
proof -
  let ?e = "del_Envelope d"
  obtain b where b: "norm_body (env_Body ?e) = b" "json_text maxNestingDepth b"
    and fr: "fr = print_object [(''protocol_version'', json_quote (del_ProtocolVersion d)), (''type'', json_quote (del_Type d)),
        (''delivery_key'', json_quote (del_DeliveryKey d)),
        (''envelope'', print_object (canonicalEnvelope ?e b @ [(''hmac'', json_quote (env_HMAC ?e))]))]"
    using assms(1) by (rule marshal_deliver_parts)
  let ?E = "print_object (canonicalEnvelope ?e b @ [(''hmac'', json_quote (env_HMAC ?e))])"
  have M: "4 \<le> maxNestingDepth" "maxNestingDepth - 2 + 2 = maxNestingDepth" by (simp_all add: maxNestingDepth_def)
  obtain p w where p: "fr = p @ ?E @ w" "scan_all maxNestingDepth (BeginValue, []) p = Some (BeginValue, [ParseObjectValue])"
    using object_entered [of "[(''protocol_version'', json_quote (del_ProtocolVersion d)), (''type'', json_quote (del_Type d)),
        (''delivery_key'', json_quote (del_DeliveryKey d))]" "[]" maxNestingDepth "''envelope''" ?E "[]"] M(1) fr by auto
  have "canonicalEnvelope ?e b @ [(''hmac'', json_quote (env_HMAC ?e))] =
     [(''protocol_version'', json_quote (env_ProtocolVersion ?e)), (''id'', json_quote (env_ID ?e)), (''from'', json_quote (env_From ?e)),
      (''to'', json_quote (env_To ?e)), (''ts'', json_quote (env_TS ?e)), (''source'', json_quote (env_Source ?e)),
      (''kind'', json_quote (env_Kind ?e))] @ (''body'', b) # [(''hmac'', json_quote (env_HMAC ?e))]"
    by (simp add: canonicalEnvelope_def)
  then obtain q u where q: "?E = q @ b @ u"
    "scan_all maxNestingDepth (BeginValue, [ParseObjectValue]) q = Some (BeginValue, [ParseObjectValue, ParseObjectValue])"
    using object_entered [of "[(''protocol_version'', json_quote (env_ProtocolVersion ?e)), (''id'', json_quote (env_ID ?e)), (''from'', json_quote (env_From ?e)),
      (''to'', json_quote (env_To ?e)), (''ts'', json_quote (env_TS ?e)), (''source'', json_quote (env_Source ?e)),
      (''kind'', json_quote (env_Kind ?e))]" "[ParseObjectValue]" maxNestingDepth "''body''" b "[(''hmac'', json_quote (env_HMAC ?e))]"] M(1) by auto
  have "checkValid fr = scan_ok maxNestingDepth (BeginValue, [ParseObjectValue, ParseObjectValue]) (b @ u @ w)"
    using scan_all_ok [OF p(2), of "q @ b @ u @ w"] scan_all_ok [OF q(2), of "b @ u @ w"]
    by (simp add: checkValid_def checkValid_at_def p(1) q(1))
  then show ?thesis
    using json_text_too_deep [OF b(2), of "maxNestingDepth - 2" "[ParseObjectValue, ParseObjectValue]" "u @ w"] assms(2) b(1) M(2)
    by (simp add: body_deliverable_def numeral_2_eq_2)
qed

section \<open>What the adapter decodes\<close>

lemma dec_string_quoted: "dec_string [json_quote s] v = (to_valid_utf8 s, False)"
  by simp

lemma valid_to_valid: "valid_utf8 s \<Longrightarrow> to_valid_utf8 s = s"
  by (simp add: valid_utf8_def)

lemma delivery_decoded:
  assumes "marshal_deliver (deliver_of key e) = Some fr" "wf_strings e" "body_deliverable (env_Body e)"
  shows "control_type fr = ControlDeliver" "unmarshal_deliver fr = Inr (deliver_of (to_valid_utf8 key) (norm_envelope e))"
proof -
  let ?n = "norm_envelope e"
  obtain b where b: "marshal_raw (env_Body e) = Some b" "norm_body (env_Body e) = b"
    using marshal_deliver_parts [OF assms(1)] by (auto simp: deliver_of_def)
  then have same: "marshal_envelope ?n = marshal_envelope e" "norm_envelope ?n = ?n"
    using norm_body_idem [OF b(1)] by (simp_all add: marshal_envelope_def canonicalEnvelope_def norm_envelope_def norm_body_def)
  have fits: "body_fits 2 (env_Body ?n)" using assms(3) by (simp add: body_deliverable_def body_fits_def json_text_checkValid)
  obtain x where x: "marshal_envelope ?n = Some x" "json_text (maxNestingDepth - 1) x"
    using fits marshal_envelope_text [of 1 ?n] by (auto simp: maxNestingDepth_def numeral_2_eq_2)
  let ?kvs = "[(''protocol_version'', json_quote ProtocolVersion), (''type'', json_quote ControlDeliver),
      (''delivery_key'', json_quote key), (''envelope'', x)]"
  have fr: "fr = print_object ?kvs" using assms(1) x(1) same(1) by (simp add: marshal_deliver_def deliver_of_def)
  have v: "to_valid_utf8 ProtocolVersion = ProtocolVersion" "to_valid_utf8 ControlDeliver = ControlDeliver"
    using valid_to_valid [of ControlDeliver] valid_to_valid [of ProtocolVersion] by (simp_all add: ProtocolVersion_def)
  have "dec_struct upd_envelope x z = (?n, False)" for z
    using dec_struct_envelope [of ?n 2 x z] fits assms(2) x(1) same(2) by simp
  then have "upd_deliver ?kvs zero_deliver = (deliver_of (to_valid_utf8 key) ?n, False)"
    using v by (simp add: upd_deliver_def field_raws_def find_field_def names_defs Let_def dec_string_quoted deliver_of_def del: dec_string.simps(2))
  then show "unmarshal_deliver fr = Inr (deliver_of (to_valid_utf8 key) ?n)"
    using unmarshal_print [of "maxNestingDepth - 1" ?kvs upd_deliver zero_deliver] depth_pred deliver_members_text [OF x(2)]
    by (simp add: unmarshal_deliver_def list_all_conj fr)
  show "control_type fr = ControlDeliver"
    using ControlTypeOf_deliver [of "deliver_of key ?n"] fits fr x(1) by (auto simp: deliver_of_def marshal_deliver_def control_type_def)
qed

lemma dec_strings_quoted: "dec_strings [print_array (map json_quote ns)] v = (Some (map to_valid_utf8 ns), False)"
proof -
  have "json_elems (print_array (map json_quote ns)) = map json_quote ns"
    by (rule json_elems_array [of 0]) (simp_all add: list.pred_map o_def list.pred_True)
  then show ?thesis by (simp add: o_def list_ex_iff dec_string_quoted del: dec_string.simps)
qed

lemma peers_decoded:
  assumes "peers_Type p = ControlPeers"
  shows "control_type (marshal_peers p) = ControlPeers"
    "\<exists>q. unmarshal_peers (marshal_peers p) = Inr q \<and> peers_Names q = map_option (map to_valid_utf8) (peers_Names p)"
proof -
  show "control_type (marshal_peers p) = ControlPeers" using ControlTypeOf_peers [of p] assms by (simp add: control_type_def)
  let ?kvs = "[(''protocol_version'', json_quote (peers_ProtocolVersion p)), (''type'', json_quote (peers_Type p)),
      (''names'', marshal_strings (peers_Names p))]"
  have t: "json_text (maxNestingDepth - 1) (marshal_strings (peers_Names p))"
    using json_text_strings [of "maxNestingDepth - 2" "peers_Names p"] by (simp add: maxNestingDepth_def)
  have "dec_strings [marshal_strings (peers_Names p)] None = (map_option (map to_valid_utf8) (peers_Names p), False)"
    by (cases "peers_Names p") (simp_all add: marshal_strings_def dec_strings_quoted del: dec_strings.simps(2), simp)
  then show "\<exists>q. unmarshal_peers (marshal_peers p) = Inr q \<and> peers_Names q = map_option (map to_valid_utf8) (peers_Names p)"
    using t unfolding unmarshal_peers_def marshal_peers_def
    by (subst unmarshal_print [OF _ depth_pred])
      (simp_all add: upd_peers_def field_raws_def find_field_def names_defs upper_ascii_def Let_def dec_string_quoted del: dec_string.simps dec_strings.simps)
qed

section \<open>Everything the broker writes is well typed\<close>

lemma reachable_frame:
  assumes "(broker_run b3)\<^sup>*\<^sup>* (initial tokens st) (s, g)" "store_inv st" "log_ok b3 st" "fr \<in> set (pc_out (sv_conns s c))"
  shows "(\<exists>p. peers_Type p = ControlPeers \<and> fr = marshal_peers p) \<or>
    (\<exists>m e. m \<in> set (st_messages (sv_store s)) \<and> g c = Some (msg_To m) \<and> unmarshal_envelope (msg_Envelope m) = Inr e \<and>
       marshal_deliver (deliver_of (msg_ID m) e) = Some fr)"
proof -
  have inv: "micro_inv (run_env b3) (s, g)" by (rule reachable_micro_inv [OF assms(1-3)])
  then have "frame_ok (sv_store s) (g c) fr" "store_inv (sv_store s)" using assms(4) by (auto simp: micro_inv_def)
  then show ?thesis by (auto simp: frame_ok_def message_row_in)
qed

lemma deep_delivery_type: "marshal_deliver d = Some fr \<Longrightarrow> \<not> body_deliverable (env_Body (del_Envelope d)) \<Longrightarrow> control_type fr = []"
  using deep_delivery_invalid [of d fr] by (simp add: control_type_def ControlTypeOf_def unmarshal_def)

text \<open>C24: Frames are well typed: in every interleaving, with any faults and over any restarts, every frame the broker has
  written to a connection decodes on the other side, as a list of peers or as the delivery of a
  stored row whose envelope arrives as it was stored, its body compacted; only a row whose body leaves no
  room for the two levels around it is printed as a text that \<open>ControlTypeOf\<close> rejects.\<close>

theorem broker_frames_well_typed:
  assumes "(broker_run b3)\<^sup>*\<^sup>* (initial tokens st) (s, g)" "store_inv st" "log_ok b3 st" "fr \<in> set (pc_out (sv_conns s c))"
  shows "control_type fr = ControlPeers \<and> (\<exists>p. unmarshal_peers fr = Inr p) \<or>
    (\<exists>m e. m \<in> set (st_messages (sv_store s)) \<and> g c = Some (msg_To m) \<and> unmarshal_envelope (msg_Envelope m) = Inr e \<and>
       (if body_deliverable (env_Body e)
        then control_type fr = ControlDeliver \<and> unmarshal_deliver fr = Inr (deliver_of (to_valid_utf8 (msg_ID m)) (norm_envelope e))
        else control_type fr = []))"
  using reachable_frame [OF assms]
proof (elim disjE exE conjE)
  fix p assume "peers_Type p = ControlPeers" "fr = marshal_peers p"
  then show ?thesis using peers_decoded [of p] by auto
next
  fix m e assume m: "m \<in> set (st_messages (sv_store s))" "g c = Some (msg_To m)" and e: "unmarshal_envelope (msg_Envelope m) = Inr e"
    "marshal_deliver (deliver_of (msg_ID m) e) = Some fr"
  show ?thesis
    using m e delivery_decoded [OF e(2) unmarshal_envelope_valid [OF e(1)]] deep_delivery_type [OF e(2)]
    by (intro disjI2 exI [of _ m] exI [of _ e]) (simp add: deliver_of_def)
qed

theorem broker_frames_well_typed_witness:
  "let fr = the (deliver_bytes demo_row) in
   control_type fr = ControlPeers \<and> (\<exists>p. unmarshal_peers fr = Inr p) \<or>
   (\<exists>m e. m \<in> set (st_messages (sv_store demo_after)) \<and> msg_To m = ''bob'' \<and> unmarshal_envelope (msg_Envelope m) = Inr e \<and>
      (if body_deliverable (env_Body e)
       then control_type fr = ControlDeliver \<and> unmarshal_deliver fr = Inr (deliver_of (to_valid_utf8 (msg_ID m)) (norm_envelope e))
       else control_type fr = []))"
proof -
  obtain g where g: "(broker_run demo_digest)\<^sup>*\<^sup>* (initial [''tok''] demo_store) (demo_after, g)" using demo_after_run by blast
  have "g 0 = Some ''bob''" using reachable_micro_inv [OF g demo_store_ok(1,2)] demo_after_facts(3) by (force simp: micro_inv_def)
  moreover have "the (deliver_bytes demo_row) \<in> set (pc_out (sv_conns demo_after 0))" by (simp add: demo_after_facts(1))
  ultimately show ?thesis using broker_frames_well_typed [OF g demo_store_ok(1,2), of "the (deliver_bytes demo_row)" 0]
    by (simp only: Let_def option.inject eq_commute [of "''bob''"])
qed

lemma recv_loop_typed:
  assumes "\<forall>fr\<in>set frs. length fr \<le> MaxFrameBytes \<and> (control_type fr = ControlDeliver \<longrightarrow> (\<exists>d. unmarshal_deliver fr = Inr d))"
    "recv_loop (map TextMsg frs) c = (Some (Inl err), c', rest)"
  shows "droppable err"
  using assms
proof (induction frs arbitrary: c)
  case (Cons fr frs)
  have IH: "recv_loop (map TextMsg frs) c0 = (Some (Inl err), c', rest) \<Longrightarrow> droppable err" for c0 using Cons by simp
  have l: "limited_client (TextMsg fr) = TextMsg fr" using Cons.prems(1) by (simp add: limited_client_def)
  show ?case
  proof (cases "control_type fr = ControlDeliver")
    case True
    then obtain d where "unmarshal_deliver fr = Inr d" using Cons.prems(1) by auto
    then show ?thesis using Cons.prems(2) True l by (auto simp: droppable_def split: if_splits sum.splits)
  next
    case False
    then show ?thesis using Cons.prems(2) l IH by (auto split: if_splits)
  qed
qed simp

lemma peers_loop_typed:
  assumes "\<forall>fr\<in>set frs. length fr \<le> MaxFrameBytes \<and> (control_type fr = ControlPeers \<longrightarrow> (\<exists>p. unmarshal_peers fr = Inr p))"
  shows "fst (peers_loop (map TextMsg frs) strays) \<noteq> Some (Inl err)"
  using assms
proof (induction frs arbitrary: strays)
  case (Cons fr frs)
  then have IH: "fst (peers_loop (map TextMsg frs) x) \<noteq> Some (Inl err)" for x by simp
  have "limited_client (TextMsg fr) = TextMsg fr" using Cons.prems by (simp add: limited_client_def)
  then show ?case using Cons.prems IH by (auto simp: Let_def split: sum.splits)
qed simp

text \<open>C25: What the broker writes never breaks the connection from the other side: reading any selection of
  frames of a connection, in any order, all within the frame limit, \<open>Recv\<close> returns a delivery, goes on waiting, or
  reports an error after which the resume loop keeps the connection; \<open>Peers\<close> never fails to decode.\<close>

theorem broker_frames_keep_reader_alive:
  assumes "(broker_run b3)\<^sup>*\<^sup>* (initial tokens st) (s, g)" "store_inv st" "log_ok b3 st"
    "set frs \<subseteq> set (pc_out (sv_conns s c))" "\<forall>fr\<in>set frs. length fr \<le> MaxFrameBytes" "conn cl"
  shows "(\<forall>err. fst (Recv (map TextMsg frs) cl) = Some (Inl err) \<longrightarrow> droppable err) \<and>
    (\<forall>err. fst (peers_loop (map TextMsg frs) []) \<noteq> Some (Inl err))"
proof -
  have t: "(control_type fr = ControlDeliver \<longrightarrow> (\<exists>d. unmarshal_deliver fr = Inr d)) \<and>
      (control_type fr = ControlPeers \<longrightarrow> (\<exists>p. unmarshal_peers fr = Inr p))" if "fr \<in> set frs" for fr
  proof -
    have "fr \<in> set (pc_out (sv_conns s c))" using that assms(4) by blast
    from reachable_frame [OF assms(1-3) this] show ?thesis
    proof (elim disjE exE conjE)
      fix p assume "peers_Type p = ControlPeers" "fr = marshal_peers p"
      then show ?thesis using peers_decoded [of p] by (auto simp: ControlPeers_def ControlDeliver_def)
    next
      fix m e assume "unmarshal_envelope (msg_Envelope m) = Inr e" and d: "marshal_deliver (deliver_of (msg_ID m) e) = Some fr"
      then show ?thesis
        using delivery_decoded [OF d] unmarshal_envelope_valid deep_delivery_type [OF d]
        by (cases "body_deliverable (env_Body e)") (auto simp: deliver_of_def ControlPeers_def ControlDeliver_def)
    qed
  qed
  have "droppable err" if "fst (Recv (map TextMsg frs) cl) = Some (Inl err)" for err
    using recv_loop_typed [of frs cl err] t assms(5,6) that by (cases "recv_loop (map TextMsg frs) cl") (auto simp: Recv_def)
  moreover have "fst (peers_loop (map TextMsg frs) []) \<noteq> Some (Inl err)" for err
    using peers_loop_typed [of frs] t assms(5) by blast
  ultimately show ?thesis by blast
qed

theorem broker_frames_keep_reader_alive_witness:
  "\<forall>err. fst (peers_loop [TextMsg (peers_reply demo_after)] []) \<noteq> Some (Inl err)"
proof -
  let ?c = demo_conn
  obtain g where g: "(broker_run demo_digest)\<^sup>*\<^sup>* (initial [''tok''] demo_store) (demo_after, g)" using demo_after_run by blast
  have "length (peers_reply demo_after) \<le> 200"
  proof -
    have "peers_reply demo_after = marshal_peers \<lparr>peers_ProtocolVersion = ProtocolVersion, peers_Type = ControlPeers, peers_Names = Some [''bob'']\<rparr>"
      by (simp add: peers_reply_def demo_after_facts(2) List_def)
    moreover have "length (marshal_peers \<lparr>peers_ProtocolVersion = ProtocolVersion, peers_Type = ControlPeers, peers_Names = Some [''bob'']\<rparr>) \<le> 200"
      by code_simp
    ultimately show ?thesis by simp
  qed
  then have "length (peers_reply demo_after) \<le> MaxFrameBytes" by (simp add: MaxFrameBytes_def)
  then show ?thesis
    using broker_frames_keep_reader_alive [OF g demo_store_ok(1,2), of "[peers_reply demo_after]" 0 ?c] demo_after_facts(1)
    by (simp add: conn_def demo_conn_def del: peers_loop.simps)
qed

section \<open>A body that is too deep\<close>

definition nested :: "nat \<Rightarrow> bytes" where
  "nested n = replicate n (CHR ''['') @ replicate n (CHR '']'')"

lemma nested_Suc: "nested (Suc n) = print_array (if n = 0 then [] else [nested n])"
  by (simp add: nested_def print_array_def replicate_append_same [symmetric])

lemma nested_text: "n \<noteq> 0 \<Longrightarrow> json_text n (nested n)"
proof (induction n)
  case (Suc n)
  then show ?case using json_text_array [of n "if n = 0 then [] else [nested n]"] by (auto simp: nested_Suc)
qed simp

lemma nested_deep: "n < length st + k \<Longrightarrow> scan_all n (BeginValueOrEmpty, st) (replicate k (CHR ''['') @ w) = None \<and>
    scan_all n (BeginValue, st) (replicate k (CHR ''['') @ w) = None \<or> k = 0"
proof (induction k arbitrary: st)
  case (Suc k)
  show ?case
  proof (cases "length st < n")
    case True
    then have "k \<noteq> 0" using Suc.prems by simp
    then show ?thesis using Suc.IH [of "ParseArrayValue # st"] Suc.prems True by (simp add: begin_value_def isSpace_def push_ps_def)
  next
    case False
    then show ?thesis by (simp add: begin_value_def isSpace_def push_ps_def scan_err_def)
  qed
qed simp

lemma nested_not_text: "\<not> json_text n (nested (Suc n))"
  using nested_deep [of n "[]" "Suc n" "replicate (Suc n) (CHR '']'')"] by (simp add: json_text_def nested_def del: scan_all.simps replicate_Suc)

lemma nested_normal:
  assumes "n \<noteq> 0" "n \<le> maxNestingDepth"
  shows "norm_body (nested n) = nested n"
proof -
  have "list_all (\<lambda>c. \<not> is_html c \<and> c \<noteq> CHR 0xE2) (nested n)" by (auto simp: nested_def list_all_iff is_html_def)
  from escaped_append_ascii [OF this, of "[]"] have "escaped (nested n)" by (simp add: escaped_def)
  moreover obtain t where "scan_all maxNestingDepth (BeginValue, []) (nested n) = Some t" "complete t"
    using json_text_mono [OF nested_text [OF assms(1)] assms(2)] by (rule json_textE)
  ultimately have "json_compact (nested n) = Some (nested n)"
    by (simp add: json_compact_def json_compact_at_def compact_from_escaped)
  then show ?thesis using assms(1) by (simp add: norm_body_def marshal_raw_def nested_def)
qed

text \<open>A message can be accepted and never arrive: an envelope whose body uses all the levels that the sender's
  frame leaves it is decoded by the broker and printed into a delivery, but the recipient skips the delivery as a
  frame of unknown type, without handing it on and without acknowledging it.\<close>

theorem deep_body_never_arrives:
  assumes "wf_strings e" "body_fits 1 (env_Body e)" "\<not> body_deliverable (env_Body e)" "conn cl"
  shows "\<exists>fr fr'. marshal_envelope e = Some fr \<and> ControlTypeOf fr = Inr [] \<and> unmarshal_envelope fr = Inr (norm_envelope e) \<and>
    marshal_deliver (deliver_of key (norm_envelope e)) = Some fr' \<and>
    (length fr' \<le> MaxFrameBytes \<longrightarrow> (\<forall>rs. Recv (TextMsg fr' # rs) cl = Recv rs cl))"
proof -
  obtain fr where fr: "marshal_envelope e = Some fr" "unmarshal_envelope fr = Inr (norm_envelope e)"
    using unmarshal_envelope_print [OF assms(1,2)] by blast
  have m: "marshal_deliver (deliver_of key (norm_envelope e)) = marshal_deliver (deliver_of key e)"
    using marshal_norm_envelope [OF assms(2)] by (simp add: marshal_deliver_def deliver_of_def)
  then obtain fr' where fr': "marshal_deliver (deliver_of key e) = Some fr'" using fr(1) by (simp add: marshal_deliver_def deliver_of_def)
  have "control_type fr' = []" using deep_delivery_type [OF fr'] assms(3) by (simp add: deliver_of_def)
  then have "length fr' \<le> MaxFrameBytes \<longrightarrow> (\<forall>rs. Recv (TextMsg fr' # rs) cl = Recv rs cl)"
    using assms(4) by (simp add: Recv_def limited_client_def ControlDeliver_def ControlPeers_def)
  then show ?thesis using fr fr' m ControlTypeOf_envelope [OF assms(2) fr(1)] by auto
qed

theorem deep_body_never_arrives_witness:
  "\<exists>fr'. marshal_deliver (deliver_of ''m1'' (norm_envelope (demo_envelope\<lparr>env_Body := nested 9999\<rparr>))) = Some fr'"
proof -
  let ?e = "demo_envelope\<lparr>env_Body := nested 9999\<rparr>"
  let ?c = demo_conn
  have "wf_strings ?e" using demo_envelope_ok(1) by (simp add: wf_strings_def)
  moreover have "body_fits 1 (env_Body ?e)" using nested_text [of 9999] by (simp add: body_fits_def json_text_checkValid maxNestingDepth_def)
  moreover have "\<not> body_deliverable (env_Body ?e)"
    using nested_not_text [of 9998] nested_normal [of 9999] by (simp add: body_deliverable_def maxNestingDepth_def)
  moreover have "conn ?c" by (simp add: conn_def demo_conn_def)
  ultimately show ?thesis using deep_body_never_arrives [of ?e ?c "''m1''"] by blast
qed

end
