(* ===== verification/Session.thy ===== *)
theory Session
  imports Frames
begin

text \<open>
  One connection with its two ends: the register handshake of \<open>Connect\<close> in \<open>client.go\<close> against \<open>handshake\<close> in \<open>server.go\<close>.
  What the adapter reads from a connection is what the broker wrote to it, in order, followed by the close
  frame if the broker has closed it.
\<close>

section \<open>What the other end reads\<close>

text \<open>The status code and the reason of every \<open>closeNormal\<close> call; a takeover calls \<open>CloseNow\<close>, which sends none.\<close>

fun close_status :: "close_reason \<Rightarrow> (nat \<times> string) option" where
  "close_status NoHandshakeFrame = Some (1002, ''no handshake frame'')"
| "close_status HandshakeNotText = Some (1003, ''handshake must be text'')"
| "close_status MalformedHandshake = Some (1007, ''malformed handshake'')"
| "close_status FirstFrameNotRegister = Some (1008, ''first frame must be register'')"
| "close_status UnsupportedVersion = Some (1008, ''unsupported protocol version'')"
| "close_status EmptyName = Some (1008, ''empty peer name'')"
| "close_status InvalidToken = Some (1008, ''invalid bearer token'')"
| "close_status PersistenceFailed = Some (1011, ''peer persistence failed'')"
| "close_status NameClaimed = Some (1008, ''name claimed under a different token'')"
| "close_status HandshakeAckFailed = Some (1011, ''handshake ack failed'')"
| "close_status ShuttingDown = Some (1001, ''server shutting down'')"
| "close_status Bye = Some (1000, ''bye'')"
| "close_status TakenOver = None"

definition conn_reads :: "peerConn \<Rightarrow> cread list" where
  "conn_reads p = map TextMsg (pc_out p) @
     (if pc_closed p then
        [case Option.bind (pc_reason p) close_status of None \<Rightarrow> ReadFailed | Some (code, reason) \<Rightarrow> ReadClosed code reason]
      else [])"

definition client_register :: "ClientConfig \<Rightarrow> register_frame" where
  "client_register cfg = \<lparr>reg_ProtocolVersion = ProtocolVersion, reg_Type = ControlRegister,
     reg_Token = ccf_Token cfg, reg_Name = ccf_Name cfg\<rparr>"

lemma client_register_sel [simp]:
  "reg_ProtocolVersion (client_register cfg) = ProtocolVersion" "reg_Type (client_register cfg) = ControlRegister"
  "reg_Token (client_register cfg) = ccf_Token cfg" "reg_Name (client_register cfg) = ccf_Name cfg"
  by (simp_all add: client_register_def)

text \<open>The adapter's side, when dialling and writing work.\<close>

lemma Connect_writes_register:
  "MinSecretLen \<le> length (ccf_HMACSecret cfg) \<Longrightarrow> cl_sent (snd (Connect True Written r (NewClient cfg))) = [marshal_register (client_register cfg)]"
  by (auto simp: Connect_def writeJSON_client_def NewClient_def client_register_def Let_def split: cread.splits)

lemma Connect_reads:
  assumes "MinSecretLen \<le> length (ccf_HMACSecret cfg)"
  shows "fst (Connect True Written (TextMsg fr) (NewClient cfg)) =
      (if MaxFrameBytes < length fr then Inl RegisterRejected
       else if control_type fr = ControlPeers then Inr () else Inl (UnexpectedAck (control_type fr)))"
    "fst (Connect True Written (ReadClosed code reason) (NewClient cfg)) =
      (if code = 1008 \<and> reason = ''name claimed under a different token'' then Inl client_error.ErrNameClaimed else Inl RegisterRejected)"
  using assms by (auto simp: Connect_def writeJSON_client_def NewClient_def Let_def limited_client_def StatusPolicyViolation_def)

section \<open>The broker's side\<close>

lemma adapter_handshake:
  assumes "valid_utf8 (ccf_Token cfg)" "valid_utf8 (ccf_Name cfg)"
    "s1 = snd (db_call env (\<lambda>d. Register d (ccf_Name cfg)) s)"
  shows "handshake env c (ReadText (marshal_register (client_register cfg))) s =
    (if ccf_Name cfg = [] then (None, closeNormal c EmptyName s)
     else if \<not> Valid (sv_auth s) (ccf_Token cfg) then (None, closeNormal c InvalidToken s)
     else if \<not> is_ok (fst (db_call env (\<lambda>d. Register d (ccf_Name cfg)) s)) then (None, closeNormal c PersistenceFailed s1)
     else (case Bind (ccf_Name cfg) (ccf_Token cfg) c (sv_registry s) of
         (Inl _, _) \<Rightarrow> (None, closeNormal c NameClaimed s1)
       | (Inr displaced, r') \<Rightarrow> bound_handshake env c (ccf_Name cfg) displaced (s1\<lparr>sv_registry := r'\<rparr>)))"
proof -
  have u: "unmarshal_register (marshal_register (client_register cfg)) = Inr (client_register cfg)"
    using assms(1,2) by (intro unmarshal_register_print) (simp add: ProtocolVersion_def)
  obtain x where x: "db_call env (\<lambda>d. Register d (ccf_Name cfg)) s = (x, s1)" using assms(3) by (metis prod.collapse)
  moreover have "sv_registry s1 = sv_registry s" by (simp add: assms(3))
  moreover obtain y r' where "Bind (ccf_Name cfg) (ccf_Token cfg) c (sv_registry s) = (y, r')" by fastforce
  ultimately show ?thesis
    unfolding handshake_def bound_handshake_def ws_read.case u sum.case client_register_sel CheckVersion_def Let_def
    by (cases x; cases y) (auto split: registry_error.split)
qed

lemma flush_loop_appends: "\<exists>rest. pc_out (sv_conns (flush_loop env c ms s) c) = pc_out (sv_conns s c) @ rest"
proof (induction ms arbitrary: s)
  case (Cons m ms)
  have w: "\<exists>rest. pc_out (sv_conns s1 c) = pc_out (sv_conns s c) @ rest" if "writeJSON env c b s = (ok, s1)" for b ok s1
    using writeJSON_out [of env c b s c] that by auto
  show ?case
  proof (cases "unmarshal_envelope (msg_Envelope m)")
    case (Inr e)
    obtain ok s1 where s1: "writeJSON env c (marshal_deliver (deliver_of (msg_ID m) e)) s = (ok, s1)" by fastforce
    obtain r1 where r1: "pc_out (sv_conns s1 c) = pc_out (sv_conns s c) @ r1" using w [OF s1] by blast
    let ?s2 = "snd (db_call env (\<lambda>d. MarkDelivered d (msg_ID m)) s1)"
    let ?s3 = "auditEvent env ''deliver'' (msg_ID m) (msg_From m) (pc_name (sv_conns ?s2 c)) ?s2"
    obtain r2 where "pc_out (sv_conns (flush_loop env c ms ?s3) c) = pc_out (sv_conns ?s3 c) @ r2" using Cons.IH by blast
    then show ?thesis using Inr s1 r1 by (cases ok) (simp_all add: Let_def)
  qed (use Cons.IH in simp)
qed simp

lemma flushPending_appends: "\<exists>rest. pc_out (sv_conns (flushPending env c s) c) = pc_out (sv_conns s c) @ rest"
proof -
  obtain x s1 where x: "db_call env (\<lambda>d. PendingFor d (pc_name (sv_conns s c))) s = (x, s1)" by fastforce
  then have "sv_conns s1 = sv_conns s" using db_call_simps(3) [of env "\<lambda>d. PendingFor d (pc_name (sv_conns s c))" s] by simp
  then show ?thesis using x flush_loop_appends [of env c _ s1] by (cases x) (simp_all add: flushPending_def)
qed

lemma bound_handshake_out:
  assumes "pc_out (sv_conns s c) = []" "\<not> pc_closed (sv_conns s c)" "displaced \<noteq> Some c"
  shows "fst (bound_handshake env c n displaced s) = Some n \<and>
      (\<exists>p rest. pc_out (sv_conns (snd (bound_handshake env c n displaced s)) c) = peers_reply p # rest) \<or>
    fst (bound_handshake env c n displaced s) = None \<and> pc_closed (sv_conns (snd (bound_handshake env c n displaced s)) c) \<and>
      pc_reason (sv_conns (snd (bound_handshake env c n displaced s)) c) = Some HandshakeAckFailed \<and>
      (\<exists>p. pc_out (sv_conns (snd (bound_handshake env c n displaced s)) c) \<in> {[], [peers_reply p]})"
proof -
  let ?s3 = "case displaced of Some old \<Rightarrow> CloseTakenOver old s | None \<Rightarrow> s"
  let ?s4 = "snd (db_call env (\<lambda>d. RequeueUnacked d n) ?s3)"
  have s4: "pc_out (sv_conns ?s4 c) = []" "\<not> pc_closed (sv_conns ?s4 c)" using assms by (cases displaced; simp)+
  obtain ok s5 where w: "writeJSON env c (Some (peers_reply ?s4)) ?s4 = (ok, s5)" by fastforce
  have o: "pc_out (sv_conns s5 c) = [] \<or> pc_out (sv_conns s5 c) = [peers_reply ?s4]" "ok \<Longrightarrow> pc_out (sv_conns s5 c) = [peers_reply ?s4]"
    "\<not> pc_closed (sv_conns s5 c)"
    using writeJSON_out [of env c "Some (peers_reply ?s4)" ?s4 c] writeJSON_ok [of env c "Some (peers_reply ?s4)" ?s4]
      writeJSON_simps(6) [of env c "Some (peers_reply ?s4)" ?s4 c] s4 w by auto
  show ?thesis
  proof (cases ok)
    case True
    obtain rest where "pc_out (sv_conns (flushPending env c (upd_conn c (\<lambda>p. p\<lparr>pc_name := n\<rparr>) s5)) c) = [peers_reply ?s4] @ rest"
      using flushPending_appends [of env c "upd_conn c (\<lambda>p. p\<lparr>pc_name := n\<rparr>) s5"] o(2) [OF True] by auto
    then show ?thesis using w True by (auto simp: bound_handshake_def Let_def)
  next
    case False
    then show ?thesis using w o(1,3) by (auto simp: bound_handshake_def Let_def closeNormal_def)
  qed
qed

section \<open>Both ends agree\<close>


definition demo_intruder :: ClientConfig where
  "demo_intruder = demo_client\<lparr>ccf_Token := ''other''\<rparr>"


section \<open>A delivery before the acknowledgement\<close>

lemma bound_handshake_appends:
  "\<exists>rest. pc_out (sv_conns (snd (bound_handshake env c n displaced s)) c) = pc_out (sv_conns s c) @ rest"
proof -
  let ?s3 = "case displaced of Some old \<Rightarrow> CloseTakenOver old s | None \<Rightarrow> s"
  let ?s4 = "snd (db_call env (\<lambda>d. RequeueUnacked d n) ?s3)"
  have s4: "pc_out (sv_conns ?s4 c) = pc_out (sv_conns s c)" by (cases displaced) simp_all
  obtain ok s5 where w: "writeJSON env c (Some (peers_reply ?s4)) ?s4 = (ok, s5)" by fastforce
  obtain r where r: "pc_out (sv_conns s5 c) = pc_out (sv_conns s c) @ r"
    using writeJSON_out [of env c "Some (peers_reply ?s4)" ?s4 c] s4 w by auto
  obtain r' where "pc_out (sv_conns (flushPending env c (upd_conn c (\<lambda>p. p\<lparr>pc_name := n\<rparr>) s5)) c) =
      pc_out (sv_conns (upd_conn c (\<lambda>p. p\<lparr>pc_name := n\<rparr>) s5) c) @ r'" using flushPending_appends by blast
  then show ?thesis using w r by (cases ok) (simp_all add: bound_handshake_def Let_def)
qed

text \<open>\<open>Bind\<close> makes the connection routable before the acknowledgement is written.  A message that another connection
  routes to the name in between is the first frame on the new connection, and \<open>Connect\<close> takes it for a wrong
  acknowledgement and gives the connection up.\<close>

theorem delivery_may_precede_ack:
  assumes "env_good env" "sv_conns s c = newPeerConn" "Get n (sv_registry s) = Some c" "\<not> st_closed (sv_store s)"
    "unmarshal_envelope (msg_Envelope m) = Inr e" "body_deliverable (env_Body e)"
    "deliver_bytes m = Some fr" "length fr \<le> MaxFrameBytes" "MinSecretLen \<le> length (ccf_HMACSecret cfg)"
  shows "fst (Connect True Written (hd (conn_reads (sv_conns (snd (bound_handshake env' c n displaced (deliverTo env n m s))) c)))
    (NewClient cfg)) = Inl (UnexpectedAck ControlDeliver)"
proof -
  have d: "marshal_deliver (deliver_of (msg_ID m) e) = Some fr" using assms(5,7) by (simp add: deliver_bytes_def)
  have ty: "control_type fr = ControlDeliver" using delivery_decoded(1) [OF d unmarshal_envelope_valid [OF assms(5)] assms(6)] .
  have "pc_out (sv_conns (deliverTo env n m s) c) = [fr]"
    using deliverTo_online(2) [OF assms(1,4,3) _ assms(7)] assms(2) by (simp add: newPeerConn_def)
  then obtain rest where "pc_out (sv_conns (snd (bound_handshake env' c n displaced (deliverTo env n m s))) c) = fr # rest"
    using bound_handshake_appends [of env' c n displaced "deliverTo env n m s"] by auto
  then show ?thesis using Connect_reads(1) [OF assms(9), of fr] assms(8) ty
    by (simp add: conn_reads_def ControlDeliver_def ControlPeers_def)
qed

text \<open>The broker between \<open>Bind\<close> and the acknowledgement of \<open>bob\<close>'s handshake, with one stored message for him.\<close>

theorem delivery_may_precede_ack_witness:
  "fst (Connect True Written (hd (conn_reads (sv_conns (snd (bound_handshake demo_benv 0 ''bob'' None
      (deliverTo demo_benv ''bob'' demo_row demo_online))) 0))) (NewClient demo_client)) = Inl (UnexpectedAck ControlDeliver)"
proof -
  have "unmarshal_envelope (print_object []) = Inr zero_envelope"
    unfolding unmarshal_envelope_def by (subst unmarshal_print [OF _ depth_pred])
      (simp_all add: upd_envelope_def field_raws_def dec_raw_def zero_envelope_def Let_def)
  then have e: "unmarshal_envelope (msg_Envelope demo_row) = Inr zero_envelope"
    by (simp add: demo_row_def demo_msg_def print_object_def)
  then obtain fr where fr: "deliver_bytes demo_row = Some fr" using demo_deliverable by (auto simp: demo_row_def)
  have z: "env_Body zero_envelope = []" "marshal_raw [] = Some ''null''" by (simp_all add: zero_envelope_def marshal_raw_def)
  have "length fr \<le> 300"
    using length_deliver_frame [of "''m1''" zero_envelope fr "''null''"] fr e z
    by (simp add: deliver_bytes_def deliver_of_def demo_row_def demo_msg_def zero_envelope_def)
  then have l: "length fr \<le> MaxFrameBytes" by (simp add: MaxFrameBytes_def)
  have b: "body_deliverable (env_Body zero_envelope)" using z by (simp add: body_deliverable_def norm_body_def)
  have "sv_conns demo_online 0 = newPeerConn" "Get ''bob'' (sv_registry demo_online) = Some 0"
    "MinSecretLen \<le> length (ccf_HMACSecret demo_client)"
    by (simp_all add: demo_online_def Get_def demo_client_def demo_secret_def MinSecretLen_def)
  with delivery_may_precede_ack [OF demo_benv_good _ _ demo_online_simps(4) e b fr l] show ?thesis by simp
qed

end
