(* ===== verification/Hosts.thy ===== *)
theory Hosts
  imports Session Modes
begin

text \<open>
  What an adapter's two neighbours see of it: a host that calls a tool, and the broker behind the connection.
  The lemmas here are the pieces from which the end-to-end statements of the root theory are put together.
\<close>

section \<open>A host calls a tool\<close>

definition tool_request :: "bytes \<Rightarrow> string \<Rightarrow> bytes \<Rightarrow> bytes" where
  "tool_request rid name args = print_object [(''jsonrpc'', json_quote ''2.0''), (''id'', rid), (''method'', json_quote ''tools/call''),
     (''params'', print_object [(''name'', json_quote name), (''arguments'', args)])]"

lemma send_request_tool: "send_request rid to body = tool_request rid ''bus.send'' (print_object [(''to'', json_quote to), (''body'', body)])"
  by (simp add: send_request_def tool_request_def)

lemma dispatch_tool_request:
  assumes "json_text m rid" "json_text (m + 1) (print_object kvs)" "valid_utf8 name" "name \<noteq> []" "m + 3 \<le> maxNestingDepth"
    "callTool et bus name (print_object kvs) (ms_bus s) = (Inr res, b)"
  shows "mcp_dispatch et bus (tool_request rid name (print_object kvs)) s = writeResult rid res (s\<lparr>ms_bus := b\<rparr>)"
proof -
  let ?args = "print_object kvs"
  let ?params = "print_object [(''name'', json_quote name), (''arguments'', ?args)]"
  have ne: "rid \<noteq> []" using json_text_head assms(1) by blast
  have p: "json_text (m + 2) ?params" using json_text_object [of "m + 1"] assms(2) by simp
  have i: "json_text (m + 2) rid" using json_text_mono [OF assms(1)] by simp
  have rp: "unmarshal (dec_struct upd_call) ([], []) ?params = Inr (name, ?args)"
    using assms utf8_names by (subst unmarshal_print [of "m + 1"])
      (simp_all add: upd_call_def field_raws_def find_field_def dec_raw_def Let_def del: dec_string.simps(2))
  have rr: "unmarshal_rpcRequest (tool_request rid name ?args) =
      Inr \<lparr>rq_JSONRPC = ''2.0'', rq_ID = rid, rq_Method = ''tools/call'', rq_Params = ?params\<rparr>"
    unfolding unmarshal_rpcRequest_def tool_request_def
    using assms i p utf8_names by (subst unmarshal_print [of "m + 2"])
      (simp_all add: upd_rpcRequest_def rpcRequest_names_def field_raws_def find_field_def dec_raw_def Let_def del: dec_string.simps(2))
  have "hd (bytesTrimSpace ?args) = CHR ''{''" by (simp add: bytesTrimSpace_def print_object_def LF_def CR_def)
  then show ?thesis using rr rp ne assms(4,6) by (simp add: mcp_dispatch_def handleToolsCall_def Let_def)
qed

text \<open>The four tools on a bus, with well-formed arguments.\<close>

lemma callTool_broadcast:
  assumes "json_text m body" "m + 1 \<le> maxNestingDepth" "bus_Broadcast bus body b = (Inr u, b')"
  shows "callTool et bus ''bus.broadcast'' (print_object [(''body'', body)]) b =
    (Inr (toolResult (Some (print_map [(''broadcast'', print_bool True)]))), b')"
proof -
  let ?args = "print_object [(''body'', body)]"
  have "unmarshal (dec_struct upd_broadcast_args) [] ?args = Inr body"
    using assms(1,2) by (subst unmarshal_print [of m]) (simp_all add: upd_broadcast_args_def field_raws_def find_field_def dec_raw_def)
  moreover have "?args \<noteq> []" "?args \<noteq> ''null''" "body \<noteq> []" using json_text_head [OF assms(1)] by (simp_all add: print_object_def)
  ultimately show ?thesis using assms(3) by (simp add: callTool_def unmarshalArgs_def)
qed

lemma callTool_peers:
  "bus_Peers bus b = (Inr (self, names), b') \<Longrightarrow> callTool et bus ''bus.peers'' args b =
    (Inr (toolResult (Some (print_map [(''self'', json_quote self),
       (''peers'', print_array (map json_quote (case names of None \<Rightarrow> [] | Some ns \<Rightarrow> ns)))]))), b')"
  by (simp add: callTool_def)

lemma ms_out_writeResult: "ms_out (writeResult i r s) = ms_out s @ [(case marshal_result i r of None \<Rightarrow> marshal_failure | Some b \<Rightarrow> b) @ [LF]]"
  by (simp add: writeResult_def write_response_def write_line_def)

lemma rid_marshals:
  assumes "json_text m rid" "m + 3 \<le> maxNestingDepth"
  shows "marshal_raw rid = Some (norm_body rid)"
proof -
  have "checkValid_at maxNestingDepth rid" using json_text_mono [OF assms(1), of maxNestingDepth] assms(2) by (simp add: json_text_checkValid)
  then show ?thesis using body_fits_text(1) [of 0 rid] by (simp add: body_fits_def)
qed

section \<open>Asking for the peers\<close>

lemma routeFrame_peers: "routeFrame env ca peers_request s = handlePeers env ca s"
  using ControlTypeOf_peers [of "\<lparr>peers_ProtocolVersion = ProtocolVersion, peers_Type = ControlPeers, peers_Names = None\<rparr>"]
  by (simp add: routeFrame_def peers_request_def Let_def ControlPeers_def ControlAck_def)

lemma peers_answered:
  assumes "env_good env" "\<not> pc_closed (sv_conns s ca)"
  shows "pc_out (sv_conns (routeFrame env ca peers_request s) ca) = pc_out (sv_conns s ca) @ [peers_reply s]"
  using good_write [OF assms, of "peers_reply s"] by (simp add: routeFrame_peers handlePeers_def)

lemma peers_reply_names:
  assumes "\<forall>n\<in>set (List (sv_registry s)). valid_utf8 n"
  shows "\<exists>q. unmarshal_peers (peers_reply s) = Inr q \<and> peers_Names q = Some (List (sv_registry s))"
proof -
  have "map to_valid_utf8 (List (sv_registry s)) = List (sv_registry s)" using assms by (simp add: map_idI valid_to_valid)
  then show ?thesis
    using peers_decoded(2) [of "\<lparr>peers_ProtocolVersion = ProtocolVersion, peers_Type = ControlPeers, peers_Names = Some (List (sv_registry s))\<rparr>"]
    by (simp add: peers_reply_def)
qed

lemma Peers_bus_answered:
  assumes "rc_cur (bs_rc b) = Some c" "conn c" "e = orc (bs_calls b)" "bv_write e = Written" "bv_frames e = [peers_reply s]"
    "\<forall>n\<in>set (List (sv_registry s)). valid_utf8 n"
  shows "Peers_bus ct orc b = (Inr (Name_of (bs_rc b), filterSelf (Some (List (sv_registry s))) (Name_of (bs_rc b))),
     b\<lparr>bs_rc := (bs_rc b)\<lparr>rc_cur := Some (c\<lparr>cl_sent := cl_sent c @ [peers_request], cl_sink := None\<rparr>)\<rparr>, bs_calls := Suc (bs_calls b)\<rparr>)"
proof -
  obtain q where "unmarshal_peers (peers_reply s) = Inr q" "peers_Names q = Some (List (sv_registry s))"
    using peers_reply_names [OF assms(6)] by blast
  moreover have "conn (SetPeersSink (Some None) c)" using assms(2) by (simp add: conn_def SetPeersSink_def split: if_splits)
  ultimately show ?thesis using assms(1,3-5)
    by (simp add: Peers_bus_def Client_of_def RequestPeers_def writeJSON_client_def forwardPeers_def SetPeersSink_def Let_def)
qed

section \<open>A signed envelope on its way to a recipient\<close>

text \<open>What a client writes for an envelope, and what the broker makes of the frame.\<close>

definition sendable :: "client \<Rightarrow> envelope \<Rightarrow> bool" where
  "sendable c e \<longleftrightarrow> conn c \<and> MinSecretLen \<le> length (ccf_HMACSecret (cl_cfg c)) \<and> wf_strings e \<and> body_fits 2 (env_Body e) \<and>
     env_ID e \<noteq> [] \<and> env_To e \<noteq> []"

lemma signed_frame:
  assumes "sendable c e"
  shows "\<exists>sg fr. SignEnvelope (ccf_HMACSecret (cl_cfg c)) e = Inr sg \<and> marshal_envelope sg = Some fr \<and>
    marshal_envelope (norm_envelope sg) = Some fr \<and> sendEnvelope Written e c = (Inr (), c\<lparr>cl_sent := cl_sent c @ [fr]\<rparr>) \<and>
    (\<forall>env ca s. routeFrame env ca fr s = routeEnvelope env (pc_name (sv_conns s ca)) (norm_envelope sg) s)"
proof -
  let ?k = "ccf_HMACSecret (cl_cfg c)"
  have b: "body_fits 2 (env_Body e)" "body_fits 1 (env_Body e)" using assms body_fits_less [of 2 "env_Body e" 1] by (auto simp: sendable_def)
  obtain cb where "Canonical e = Inr cb" using body_fits_text(1) [OF b(1)] by (simp add: Canonical_eq)
  moreover have "MinSecretLen \<le> length ?k" using assms by (simp add: sendable_def)
  ultimately obtain sg where sg: "SignEnvelope ?k e = Inr sg" using hm.sign_total by blast
  note k = hm.sign_keeps [OF sg]
  have wf: "wf_strings sg" "body_fits 1 (env_Body sg)" using k(2,3) assms b by (auto simp: sendable_def)
  obtain fr where fr: "marshal_envelope sg = Some fr" "unmarshal_envelope fr = Inr (norm_envelope sg)"
    using unmarshal_envelope_print [OF wf] by blast
  have "ControlTypeOf fr = Inr []" using ControlTypeOf_envelope [OF wf(2) fr(1)] .
  then have "routeFrame env ca fr s = routeEnvelope env (pc_name (sv_conns s ca)) (norm_envelope sg) s" for env ca s
    using fr(2) k(4,6) assms
    by (auto simp: routeFrame_def Let_def sendable_def ControlAck_def ControlPeers_def ControlRegister_def ControlDeliver_def)
  moreover have "sendEnvelope Written e c = (Inr (), c\<lparr>cl_sent := cl_sent c @ [fr]\<rparr>)"
    using assms sg fr(1) by (simp add: sendEnvelope_def sendable_def writeJSON_client_def)
  moreover have "marshal_envelope (norm_envelope sg) = Some fr" using marshal_norm_envelope [OF wf(2)] fr(1) by simp
  ultimately show ?thesis using sg fr(1) by blast
qed

text \<open>The row that stores a signed envelope is delivered as a frame from which \<open>Recv\<close> gets the envelope.\<close>

lemma signed_row_received:
  assumes "SignEnvelope (ccf_HMACSecret (cl_cfg cr)) e = Inr sg" "wf_strings e" "body_fits 2 (env_Body e)"
    "marshal_envelope (norm_envelope sg) = Some raw" "msg_Envelope m = raw" "valid_utf8 (msg_ID m)" "msg_ID m \<noteq> []" "conn cr"
  shows "\<exists>fr. deliver_bytes m = Some fr \<and>
    (length fr \<le> MaxFrameBytes \<longrightarrow> (\<forall>rs. \<exists>del. Recv (TextMsg fr # rs) cr = (Some (Inr del), cr, rs) \<and>
       del_DeliveryKey del = msg_ID m \<and> del_Envelope del = norm_envelope sg))"
proof -
  let ?d = "\<lparr>del_ProtocolVersion = ProtocolVersion, del_Type = ControlDeliver, del_DeliveryKey = msg_ID m, del_Envelope = sg\<rparr>"
  note k = hm.sign_keeps [OF assms(1)]
  have b: "body_fits 2 (env_Body sg)" using assms(3) k(3) by simp
  have wf: "wf_strings (norm_envelope sg)" "body_fits 1 (env_Body (norm_envelope sg))"
    using assms(2) k(2) body_fits_norm [OF b] body_fits_less [of 2 _ 1] by simp_all
  have "unmarshal_envelope raw = Inr (norm_envelope sg)"
    using unmarshal_envelope_print [OF wf] assms(4) norm_envelope_idem [OF b] by simp
  then have d: "deliver_bytes m = marshal_deliver ?d"
    using marshal_deliver_norm [of 2 ?d] b by (simp add: deliver_bytes_def assms(5) deliver_of_def)
  obtain fr where fr: "marshal_deliver ?d = Some fr" using ControlTypeOf_deliver [of ?d] b by auto
  with d recv_signed [OF assms(1-3,6,7) fr _ assms(8) refl] show ?thesis by auto
qed

text \<open>A delivery that the receiving adapter has not seen is appended to the buffer of its host.\<close>

lemma frame_buffered:
  assumes "rc_cur (bs_rc (ms_bus sb)) = Some cr" "conn cr" "Recv [TextMsg fr] cr = (Some (Inr del), cr, [])"
    "dedupe_inv (rc_dedupe (bs_rc (ms_bus sb)))" "env_ID (del_Envelope del) \<notin> set (dd_ll (rc_dedupe (bs_rc (ms_bus sb))))"
  shows "rc_host (bs_rc (ms_bus (generic_step et ct orc aw (Frame (TextMsg fr)) sb))) =
    rc_host (bs_rc (ms_bus sb)) @ [inbound_of (del_Envelope del)]"
proof -
  obtain x d where d: "Seen (env_ID (del_Envelope del)) (rc_dedupe (bs_rc (ms_bus sb))) = (x, d)" by fastforce
  then have "\<not> x" using dd.seen_iff [OF assms(4), of "env_ID (del_Envelope del)"] assms(5) by simp
  then show ?thesis using assms(1-3) d by (simp add: frame_in_def surface_def generic_handle_def Let_def)
qed

text \<open>The cc adapter pushes what it reads: one line on its standard output, from which the host decodes the message.\<close>

lemma frame_pushed:
  assumes "rc_cur (cc_rc w) = Some cr" "conn cr" "Recv [TextMsg fr] cr = (Some (Inr del), cr, [])" "rc_host (cc_rc w) = []"
    "dedupe_inv (rc_dedupe (cc_rc w))" "env_ID (del_Envelope del) \<notin> set (dd_ll (rc_dedupe (cc_rc w)))"
    "channel_inbound (del_Envelope del) = ib" "list_all valid_utf8 [ib_ID ib, ib_From ib, ib_Source ib, ib_Kind ib, decodeBody (ib_Body ib)]"
  shows "\<exists>line. ms_out (cw_srv (cc_step et ct orc aw (CcFrame (TextMsg fr)) w)) = ms_out (cw_srv w) @ [line @ [LF]] \<and>
    unmarshal_notification line = Inr \<lparr>pn_JSONRPC = ''2.0'', pn_Method = PushMethod,
      pn_Params = \<lparr>pp_Content = formatInbound ib, pp_Meta = push_meta ib\<rparr>\<rparr>"
proof -
  obtain x d where d: "Seen (env_ID (del_Envelope del)) (rc_dedupe (cc_rc w)) = (x, d)" by fastforce
  then have "\<not> x" using dd.seen_iff [OF assms(5), of "env_ID (del_Envelope del)"] assms(6) by simp
  then have "cc_pushed aw (CcFrame (TextMsg fr)) w = [ib]"
    using assms(1-4,7) d by (simp add: frame_in_def surface_def cc_handle_def Let_def)
  then have "ms_out (cw_srv (cc_step et ct orc aw (CcFrame (TextMsg fr)) w)) = ms_out (Deliver ib (cw_srv w))"
    by (simp only: cc_frame_writes Deliver_out list.map)
  then show ?thesis using push_roundtrip [of ib "cw_srv w"] assms(8) by fastforce
qed

section \<open>Acknowledging\<close>

text \<open>Having consumed the message, the adapter acknowledges the delivery on the same connection.\<close>

lemma frame_acked:
  assumes "rc_cur (bs_rc (ms_bus sb)) = Some cr" "conn cr" "Recv [TextMsg fr] cr = (Some (Inr del), cr, [])"
    "aw (rc_tick (bs_rc (ms_bus sb))) = Written"
  shows "rc_cur (bs_rc (ms_bus (generic_step et ct orc aw (Frame (TextMsg fr)) sb))) =
    Some (cr\<lparr>cl_sent := cl_sent cr @ [ack_bytes (del_DeliveryKey del)]\<rparr>)"
proof -
  have a: "snd (Ack Written k cr) = cr\<lparr>cl_sent := cl_sent cr @ [ack_bytes k]\<rparr>" for k
    using assms(2) by (simp add: Ack_def writeJSON_client_def ack_bytes_def)
  obtain x d where "Seen (env_ID (del_Envelope del)) (rc_dedupe (bs_rc (ms_bus sb))) = (x, d)" by fastforce
  then show ?thesis using assms by (cases x) (simp_all add: frame_in_def surface_def generic_handle_def Let_def a)
qed

text \<open>The broker takes the acknowledgement, and the row is never handed out again, not even by a later process.\<close>

lemma ack_settles:
  assumes "db_good env" "\<not> st_closed (sv_store s)" "store_inv (sv_store s)" "message_row (sv_store s) i = Some m" "msg_Delivered m"
    "valid_utf8 i" "i \<noteq> []" "(broker_run b3)\<^sup>*\<^sup>* (routeFrame env c (ack_bytes i) s, g) (s', g')" "fst (PendingFor e n (sv_store s')) = Inr ms"
  shows "i \<notin> msg_ID ` set ms"
proof -
  let ?a = "\<lparr>ack_ProtocolVersion = ProtocolVersion, ack_Type = ControlAck, ack_ID = i\<rparr>" and ?s = "routeFrame env c (ack_bytes i) s"
  have m: "m \<in> set (st_messages (sv_store s))" "msg_ID m = i" using assms(3,4) by (simp_all add: message_row_in)
  have "ControlTypeOf (ack_bytes i) = Inr ControlAck"
    using ControlTypeOf_ack [of ?a] by (simp add: ack_bytes_def ControlAck_def valid_utf8_Cons_ascii)
  moreover have "unmarshal_ack (ack_bytes i) = Inr ?a"
    unfolding ack_bytes_def using assms(6) by (intro unmarshal_ack_print) (simp add: ControlAck_def ProtocolVersion_def valid_utf8_Cons_ascii)
  ultimately have "m\<lparr>msg_Acked := True\<rparr> \<in> set (st_messages (sv_store ?s))"
    using any_peer_can_ack [OF assms(1,2) m(1), of "ack_bytes i" ?a c] m(2) assms(7) by simp
  moreover have inv: "store_inv (sv_store ?s)" by (rule store_steps_inv [OF routeFrame_store assms(3)])
  ultimately have "message_row (sv_store ?s) i = Some (m\<lparr>msg_Acked := True\<rparr>)" using m(2) by (simp add: message_row_in)
  from settled_not_pending [OF inv this _ _ broker_runs_store [OF assms(8), unfolded fst_conv] assms(9)] assms(5) show ?thesis by simp
qed

section \<open>Fanning out\<close>

lemma row_id_valid: "valid_utf8 i \<Longrightarrow> valid_utf8 r \<Longrightarrow> valid_utf8 (row_id i r)"
  by (simp add: row_id_def valid_utf8_append valid_utf8_Cons_ascii)

text \<open>Writing to one recipient leaves every other connection alone.\<close>

lemma deliverTo_other:
  assumes "Get r (sv_registry s) \<noteq> Some c"
  shows "pc_out (sv_conns (deliverTo env r m s) c) = pc_out (sv_conns s c)"
proof -
  have w: "pc_out (sv_conns s1 c) = pc_out (sv_conns s c)" if "writeJSON env c' b s = (ok, s1)" "c' \<noteq> c" for c' b ok s1
    using writeJSON_out [of env c' b s c] that by auto
  show ?thesis using assms by (auto simp: deliverTo_def Let_def dest: w split: option.splits sum.splits prod.splits bool.splits)
qed

lemma deliverTo_closed: "pc_closed (sv_conns (deliverTo env r m s) c) = pc_closed (sv_conns s c)"
proof -
  have w: "pc_closed (sv_conns s1 c) = pc_closed (sv_conns s c)" if "writeJSON env c' b s = (ok, s1)" for c' b ok s1
    using writeJSON_simps(6) [of env c' b s c] that by simp
  show ?thesis by (auto simp: deliverTo_def Let_def w split: option.splits sum.splits prod.splits bool.splits)
qed

lemma broadcast_loop_other:
  assumes "\<forall>r\<in>set rs. r \<noteq> from \<longrightarrow> Get r (sv_registry s) \<noteq> Some c"
  shows "pc_out (sv_conns (broadcast_loop env from e raw rs s) c) = pc_out (sv_conns s c)"
  using assms
proof (induction rs arbitrary: s)
  case (Cons r rs)
  let ?m = "mk_message (row_id (env_ID e) r) from r raw"
  obtain x s1 where x: "db_call env (\<lambda>d. Enqueue d ?m) s = (x, s1)" by fastforce
  then have s1: "sv_conns s1 = sv_conns s" "sv_registry s1 = sv_registry s"
    using db_call_simps(2,3) [of env "\<lambda>d. Enqueue d ?m" s] by simp_all
  let ?s2 = "auditEvent env ''send'' (row_id (env_ID e) r) from r s1"
  show ?case
  proof (cases "r = from")
    case False
    have "pc_out (sv_conns (deliverTo env r ?m ?s2) c) = pc_out (sv_conns s c)"
      using deliverTo_other [of r ?s2 c env ?m] Cons.prems False s1 by simp
    then show ?thesis using Cons.IH [of s1] Cons.IH [of "deliverTo env r ?m ?s2"] Cons.prems False x s1
      by (cases x) (simp_all add: deliverTo_keeps Let_def)
  qed (use Cons in simp)
qed simp

text \<open>Every online recipient's connection gets exactly one more frame.\<close>

lemma broadcast_loop_online:
  assumes "env_good env" "from \<noteq> []" "raw \<noteq> []" "\<not> st_closed (sv_store s)" "distinct rs"
    "\<forall>r\<in>set rs. r \<noteq> [] \<and> r \<in> peer_name ` set (st_peers (sv_store s))"
    "\<forall>r\<in>set rs. row_id (env_ID e) r \<notin> msg_ID ` set (st_messages (sv_store s))"
    "\<forall>r'. Get r' (sv_registry s) = Some c \<longrightarrow> r' = r" "r \<in> set rs" "r \<noteq> from" "Get r (sv_registry s) = Some c"
    "\<not> pc_closed (sv_conns s c)" "deliver_bytes (mk_message (row_id (env_ID e) r) from r raw) = Some fr"
  shows "pc_out (sv_conns (broadcast_loop env from e raw rs s) c) = pc_out (sv_conns s c) @ [fr]"
  using assms(4-9,11,12)
proof (induction rs arbitrary: s)
  case Nil
  from Nil.prems(6) show ?case by simp
next
  case (Cons y rs)
  show ?case
  proof (cases "y = from")
    case False
    let ?m = "mk_message (row_id (env_ID e) y) from y raw"
    let ?s1 = "s\<lparr>sv_store := enqueued (be_db env (sv_tick s)) ?m (sv_store s), sv_tick := Suc (sv_tick s)\<rparr>"
    let ?a = "auditEvent env ''send'' (row_id (env_ID e) y) from y ?s1"
    let ?s2 = "deliverTo env y ?m ?a"
    have db: "db_good env" using assms(1) by (simp add: env_good_def)
    have "db_call env (\<lambda>d. Enqueue d ?m) s = (Inr (), ?s1)"
      using Cons.prems(1,3,4) assms(2,3) by (intro good_enqueue [OF db]) simp_all
    with False have l: "broadcast_loop env from e raw (y # rs) s = broadcast_loop env from e raw rs ?s2" by (simp add: Let_def)
    have reg: "sv_registry ?s2 = sv_registry s" by (simp add: deliverTo_keeps)
    show ?thesis
    proof (cases "y = r")
      case True
      have "pc_out (sv_conns ?s2 c) = pc_out (sv_conns s c) @ [fr]"
        using deliverTo_online(2) [OF assms(1), of ?a r c ?m fr] Cons.prems(1,7,8) True assms(13) by (simp add: enqueued_def)
      moreover have "\<forall>r'\<in>set rs. r' \<noteq> from \<longrightarrow> Get r' (sv_registry ?s2) \<noteq> Some c" using Cons.prems(2,5) True reg by auto
      ultimately show ?thesis using broadcast_loop_other [of rs "from" ?s2 c env e raw] l by simp
    next
      case other: False
      have "Get y (sv_registry ?a) \<noteq> Some c" using Cons.prems(5) other by simp blast
      then have "pc_out (sv_conns ?s2 c) = pc_out (sv_conns s c)" using deliverTo_other [of y ?a c env ?m] by simp
      note out = this
      have k: "map row_key (st_messages (sv_store ?s2)) = map row_key (st_messages (sv_store s)) @ [(row_id (env_ID e) y, from, y, raw)]"
        by (simp add: deliverTo_keeps row_key_def)
      have "msg_ID ` set (st_messages (sv_store ?s2)) = insert (row_id (env_ID e) y) (msg_ID ` set (st_messages (sv_store s)))"
        by (simp only: ids_row_key k) auto
      then have ids: "\<forall>r'\<in>set rs. row_id (env_ID e) r' \<notin> msg_ID ` set (st_messages (sv_store ?s2))" using Cons.prems(2,4) by auto
      have st: "\<not> st_closed (sv_store ?s2)" "\<forall>r\<in>set rs. r \<noteq> [] \<and> r \<in> peer_name ` set (st_peers (sv_store ?s2))"
        using Cons.prems(1,3) by (simp_all add: deliverTo_keeps enqueued_def)
      have c: "r \<in> set rs" "distinct rs" using Cons.prems(2,6) other by auto
      have c3: "\<not> pc_closed (sv_conns ?s2 c)" using Cons.prems(8) deliverTo_closed [of env y ?m ?a c] by simp
      have g: "\<forall>r'. Get r' (sv_registry ?s2) = Some c \<longrightarrow> r' = r" "Get r (sv_registry ?s2) = Some c"
        unfolding reg by (rule Cons.prems(5), rule Cons.prems(7))
      from Cons.IH [OF st(1) c(2) st(2) ids g(1) c(1) g(2) c3] show ?thesis unfolding l out .
    qed
  next
    case True
    then have m: "r \<in> set rs" "distinct rs" using Cons.prems(2,6) assms(10) by auto
    have p: "\<forall>r\<in>set rs. r \<noteq> [] \<and> r \<in> peer_name ` set (st_peers (sv_store s))"
      "\<forall>r\<in>set rs. row_id (env_ID e) r \<notin> msg_ID ` set (st_messages (sv_store s))" using Cons.prems(3,4) by simp_all
    from Cons.IH [OF Cons.prems(1) m(2) p Cons.prems(5) m(1) Cons.prems(7,8)] True show ?thesis by simp
  qed
qed

end
