(* ===== verification/Handshake_Notes.thy ===== *)
theory Handshake_Notes
  imports Channel
begin

text \<open>
  Package \<open>internal/channel\<close>, \<open>handshake_notes.go\<close>: the shapes that the host and the server exchange in the MCP
  \<open>initialize\<close> handshake, as structs.  The server builds its answer from maps (\<open>internal/mcp\<close>); here the answer is
  decoded under the documented structs.
\<close>

section \<open>handshake_notes.go\<close>

definition MCPProtocolVersion :: string where
  "MCPProtocolVersion = ''2025-06-18''"

definition ChannelCapabilityKey :: string where
  "ChannelCapabilityKey = ''claude/channel''"

record ClientInfo =
  ci_Name :: string
  ci_Version :: string

record ServerInfo =
  si_Name :: string
  si_Version :: string

record Capabilities =
  cap_Experimental :: "(string \<times> bytes) list"
  cap_Tools :: bytes

record InitializeParams =
  ip_ProtocolVersion :: string
  ip_Capabilities :: Capabilities
  ip_ClientInfo :: ClientInfo

record InitializeResult =
  ir_ProtocolVersion :: string
  ir_Capabilities :: Capabilities
  ir_ServerInfo :: ServerInfo

text \<open>Decoding: a field that is a struct is decoded into what it holds so far, a \<open>map[string]json.RawMessage\<close> takes
  the members of an object as they are.\<close>

fun dec_nested :: "((string \<times> bytes) list \<Rightarrow> 'a \<Rightarrow> 'a \<times> bool) \<Rightarrow> bytes list \<Rightarrow> 'a \<Rightarrow> 'a \<times> bool" where
  "dec_nested upd [] x = (x, False)"
| "dec_nested upd (raw # raws) x =
     (case dec_struct upd raw x of (x1, e1) \<Rightarrow> (case dec_nested upd raws x1 of (x2, e2) \<Rightarrow> (x2, e1 \<or> e2)))"

fun dec_raw_map :: "bytes list \<Rightarrow> (string \<times> bytes) list \<Rightarrow> (string \<times> bytes) list \<times> bool" where
  "dec_raw_map [] v = (v, False)"
| "dec_raw_map (raw # raws) v =
     (case json_kind raw of
        JObject \<Rightarrow> dec_raw_map raws (foldl (\<lambda>m (k, x). AList.update k x m) v (json_members raw))
      | JNull \<Rightarrow> dec_raw_map raws []
      | _ \<Rightarrow> (fst (dec_raw_map raws v), True))"

definition upd_ClientInfo :: "(string \<times> bytes) list \<Rightarrow> ClientInfo \<Rightarrow> ClientInfo \<times> bool" where
  "upd_ClientInfo ms x =
     (let r = field_raws [''name'', ''version''] ms;
          n = dec_string (r ''name'') (ci_Name x); v = dec_string (r ''version'') (ci_Version x)
      in (\<lparr>ci_Name = fst n, ci_Version = fst v\<rparr>, snd n \<or> snd v))"

definition upd_ServerInfo :: "(string \<times> bytes) list \<Rightarrow> ServerInfo \<Rightarrow> ServerInfo \<times> bool" where
  "upd_ServerInfo ms x =
     (let r = field_raws [''name'', ''version''] ms;
          n = dec_string (r ''name'') (si_Name x); v = dec_string (r ''version'') (si_Version x)
      in (\<lparr>si_Name = fst n, si_Version = fst v\<rparr>, snd n \<or> snd v))"

definition upd_Capabilities :: "(string \<times> bytes) list \<Rightarrow> Capabilities \<Rightarrow> Capabilities \<times> bool" where
  "upd_Capabilities ms x =
     (let r = field_raws [''experimental'', ''tools''] ms;
          e = dec_raw_map (r ''experimental'') (cap_Experimental x)
      in (\<lparr>cap_Experimental = fst e, cap_Tools = dec_raw (r ''tools'') (cap_Tools x)\<rparr>, snd e))"

definition upd_InitializeParams :: "(string \<times> bytes) list \<Rightarrow> InitializeParams \<Rightarrow> InitializeParams \<times> bool" where
  "upd_InitializeParams ms x =
     (let r = field_raws [''protocolVersion'', ''capabilities'', ''clientInfo''] ms;
          p = dec_string (r ''protocolVersion'') (ip_ProtocolVersion x);
          c = dec_nested upd_Capabilities (r ''capabilities'') (ip_Capabilities x);
          i = dec_nested upd_ClientInfo (r ''clientInfo'') (ip_ClientInfo x)
      in (\<lparr>ip_ProtocolVersion = fst p, ip_Capabilities = fst c, ip_ClientInfo = fst i\<rparr>, snd p \<or> snd c \<or> snd i))"

definition upd_InitializeResult :: "(string \<times> bytes) list \<Rightarrow> InitializeResult \<Rightarrow> InitializeResult \<times> bool" where
  "upd_InitializeResult ms x =
     (let r = field_raws [''protocolVersion'', ''capabilities'', ''serverInfo''] ms;
          p = dec_string (r ''protocolVersion'') (ir_ProtocolVersion x);
          c = dec_nested upd_Capabilities (r ''capabilities'') (ir_Capabilities x);
          i = dec_nested upd_ServerInfo (r ''serverInfo'') (ir_ServerInfo x)
      in (\<lparr>ir_ProtocolVersion = fst p, ir_Capabilities = fst c, ir_ServerInfo = fst i\<rparr>, snd p \<or> snd c \<or> snd i))"

definition unmarshal_InitializeParams :: "bytes \<Rightarrow> (json_error, InitializeParams) result" where
  "unmarshal_InitializeParams = unmarshal (dec_struct upd_InitializeParams)
     \<lparr>ip_ProtocolVersion = [], ip_Capabilities = \<lparr>cap_Experimental = [], cap_Tools = []\<rparr>, ip_ClientInfo = \<lparr>ci_Name = [], ci_Version = []\<rparr>\<rparr>"

definition unmarshal_InitializeResult :: "bytes \<Rightarrow> (json_error, InitializeResult) result" where
  "unmarshal_InitializeResult = unmarshal (dec_struct upd_InitializeResult)
     \<lparr>ir_ProtocolVersion = [], ir_Capabilities = \<lparr>cap_Experimental = [], cap_Tools = []\<rparr>, ir_ServerInfo = \<lparr>si_Name = [], si_Version = []\<rparr>\<rparr>"

section \<open>The request\<close>

text \<open>The server decodes only the version of the parameters; the field is found among the documented ones just as
  it is found alone.\<close>

lemma find_version:
  "find_field [''protocolVersion'', ''capabilities'', ''clientInfo''] key = Some ''protocolVersion'' \<longleftrightarrow>
   find_field [''protocolVersion''] key = Some ''protocolVersion''"
proof -
  have "fold_name ''protocolVersion'' \<noteq> fold_name ''capabilities''" "fold_name ''protocolVersion'' \<noteq> fold_name ''clientInfo''" by code_simp+
  then show ?thesis by (auto simp: find_field_def)
qed

lemma init_version_params:
  assumes "unmarshal_InitializeParams params = Inr p"
  shows "init_version params = ip_ProtocolVersion p"
proof -
  have "field_raws [''protocolVersion'', ''capabilities'', ''clientInfo''] ms ''protocolVersion'' = field_raws [''protocolVersion''] ms ''protocolVersion''" for ms
    by (simp add: field_raws_def find_version)
  then show ?thesis using assms
    by (auto simp: unmarshal_InitializeParams_def unmarshal_def init_version_def dec_struct_def upd_InitializeParams_def upd_pv_def Let_def
        split: if_splits jkind.splits)
qed

lemma init_version_valid: "valid_utf8 (init_version params)"
  by (auto simp: init_version_def dec_struct_def upd_pv_def dec_string_valid split: jkind.splits)

section \<open>The answer\<close>

lemma sort_answer: "sort_key fst [(''protocolVersion'', a), (''capabilities'', b), (''serverInfo'', c)] =
    [(''capabilities'', b), (''protocolVersion'', a), (''serverInfo'', c)]"
  "sort_key fst [(''tools'', a), (''experimental'', b)] = [(''experimental'', b), (''tools'', a)]"
  "sort_key fst [(''name'', a), (''version'', b)] = [(''name'', a), (''version'', b)]"
proof -
  have "\<not> ''protocolVersion'' \<le> ''capabilities''" "''protocolVersion'' \<le> ''serverInfo''" "''capabilities'' \<le> ''serverInfo''"
    "''capabilities'' \<le> ''protocolVersion''" "\<not> ''tools'' \<le> ''experimental''" "''name'' \<le> ''version''" by code_simp+
  then show "sort_key fst [(''protocolVersion'', a), (''capabilities'', b), (''serverInfo'', c)] =
      [(''capabilities'', b), (''protocolVersion'', a), (''serverInfo'', c)]"
    "sort_key fst [(''tools'', a), (''experimental'', b)] = [(''experimental'', b), (''tools'', a)]"
    "sort_key fst [(''name'', a), (''version'', b)] = [(''name'', a), (''version'', b)]" by (simp_all add: sort_key_def)
qed

lemma answer_names: "list_all valid_utf8 [''protocolVersion'', ''capabilities'', ''serverInfo'', ''experimental'', ''tools'', ''name'', ''version'',
    ''claude/channel'', ''1'']"
  by (simp add: valid_utf8_ascii)

lemma json_text_empty: "json_text (Suc m) (print_map [])"
  using json_text_object [of m "[]"] by (simp add: print_map_def)

lemma capabilities_decoded:
  assumes "caps = print_map ([(''tools'', print_map [])] @ (if chan then [(''experimental'', print_map [(''claude/channel'', print_map [])])] else []))"
  shows "json_text 3 caps" "dec_nested upd_Capabilities [caps] \<lparr>cap_Experimental = [], cap_Tools = []\<rparr> =
    (\<lparr>cap_Experimental = (if chan then [(ChannelCapabilityKey, ''{}'')] else []), cap_Tools = ''{}''\<rparr>, False)"
proof -
  let ?x = "print_object [(''claude/channel'', print_object [])]"
  have e: "json_text 1 (print_object [])" "json_text 2 (print_object [])" using json_text_object [of 0 "[]"] json_text_object [of 1 "[]"] by (simp_all add: numeral_2_eq_2)
  have x: "json_text 2 ?x" using json_text_object [of 1 "[(''claude/channel'', print_object [])]"] e(1) by (simp add: numeral_2_eq_2)
  have c: "caps = print_object (if chan then [(''experimental'', ?x), (''tools'', print_object [])] else [(''tools'', print_object [])])"
    using assms by (simp add: print_map_def sort_answer)
  have M: "1 \<le> maxNestingDepth" "2 \<le> maxNestingDepth" by (simp_all add: maxNestingDepth_def)
  have m: "json_members ?x = [(''claude/channel'', print_object [])]"
    using e(1) M(1) answer_names by (intro json_members_print [of 1]) simp_all
  have empty: "print_object [] = ''{}''" by (simp add: print_object_def)
  show "json_text 3 caps" unfolding c using e x json_text_object [of 2] by (simp add: numeral_3_eq_3 numeral_2_eq_2)
  have "dec_struct upd_Capabilities caps z = upd_Capabilities (if chan then [(''experimental'', ?x), (''tools'', print_object [])] else [(''tools'', print_object [])]) z" for z
    unfolding c using e x M(2) answer_names by (intro dec_struct_print [of 2]) simp_all
  then show "dec_nested upd_Capabilities [caps] \<lparr>cap_Experimental = [], cap_Tools = []\<rparr> =
      (\<lparr>cap_Experimental = (if chan then [(ChannelCapabilityKey, ''{}'')] else []), cap_Tools = ''{}''\<rparr>, False)"
    using m by (simp add: upd_Capabilities_def field_raws_def find_field_def dec_raw_def Let_def ChannelCapabilityKey_def empty)
qed

text \<open>C26: The answer to \<open>initialize\<close> has the documented shape: whatever host sends parameters that decode as \<open>InitializeParams\<close>, it gets one
  line whose result decodes as \<open>InitializeResult\<close>, with the version it asked for, or the documented one if it named none, an empty \<open>tools\<close>
  capability, the server's name, and the channel capability if and only if the server is a channel.\<close>

theorem initialize_answer_typed:
  assumes "unmarshal_rpcRequest raw = Inr req" "rq_Method req = ''initialize''" "rpc_id (rq_ID req) = Some idf"
    "unmarshal_InitializeParams (rq_Params req) = Inr p" "valid_utf8 (ms_serverName s)"
  shows "\<exists>r. ms_out (mcp_dispatch et bus raw s) = ms_out s @ [print_object ([(''jsonrpc'', json_quote ''2.0'')] @ idf @ [(''result'', r)]) @ [LF]] \<and>
    unmarshal_InitializeResult r = Inr
      \<lparr>ir_ProtocolVersion = (if ip_ProtocolVersion p = [] then MCPProtocolVersion else ip_ProtocolVersion p),
       ir_Capabilities = \<lparr>cap_Experimental = (if ms_channelCap s then [(ChannelCapabilityKey, ''{}'')] else []), cap_Tools = ''{}''\<rparr>,
       ir_ServerInfo = \<lparr>si_Name = ms_serverName s, si_Version = ''1''\<rparr>\<rparr>"
proof -
  define pv where "pv = (if ip_ProtocolVersion p = [] then MCPProtocolVersion else ip_ProtocolVersion p)"
  define caps where "caps = print_map ([(''tools'', print_map [])] @ (if ms_channelCap s then [(''experimental'', print_map [(''claude/channel'', print_map [])])] else []))"
  define si where "si = print_map [(''name'', json_quote (ms_serverName s)), (''version'', json_quote ''1'')]"
  let ?kvs = "[(''capabilities'', caps), (''protocolVersion'', json_quote pv), (''serverInfo'', si)]"
  have iv: "init_version (rq_Params req) = ip_ProtocolVersion p" by (rule init_version_params [OF assms(4)])
  then have "valid_utf8 (ip_ProtocolVersion p)" using init_version_valid [of "rq_Params req"] by simp
  then have v: "valid_utf8 pv" by (simp add: pv_def MCPProtocolVersion_def valid_utf8_ascii)
  have out: "ms_out (mcp_dispatch et bus raw s) = ms_out s @ [print_object ([(''jsonrpc'', json_quote ''2.0'')] @ idf @ [(''result'', print_object ?kvs)]) @ [LF]]"
    using assms(1-3) iv by (simp add: mcp_dispatch_def handleInitialize_def Let_def writeResult_def write_response_def write_line_def
        marshal_result_def print_map_def [of "[_, _, _]"] sort_answer pv_def caps_def si_def MCPProtocolVersion_def protocolVersion_def)
  note c = capabilities_decoded [OF caps_def]
  have si: "si = print_object [(''name'', json_quote (ms_serverName s)), (''version'', json_quote ''1'')]"
    by (simp add: si_def print_map_def sort_answer)
  have t: "json_text 3 si" unfolding si using json_text_object [of 2] by (simp add: numeral_3_eq_3 numeral_2_eq_2)
  have d: "dec_struct upd_ServerInfo si z = (\<lparr>si_Name = ms_serverName s, si_Version = ''1''\<rparr>, False)" for z
    unfolding si using assms(5) answer_names
    by (subst dec_struct_print [of 2]) (simp_all add: maxNestingDepth_def upd_ServerInfo_def field_raws_def find_field_def Let_def del: dec_string.simps(2))
  have "unmarshal_InitializeResult (print_object ?kvs) = Inr \<lparr>ir_ProtocolVersion = pv,
       ir_Capabilities = \<lparr>cap_Experimental = (if ms_channelCap s then [(ChannelCapabilityKey, ''{}'')] else []), cap_Tools = ''{}''\<rparr>,
       ir_ServerInfo = \<lparr>si_Name = ms_serverName s, si_Version = ''1''\<rparr>\<rparr>"
    unfolding unmarshal_InitializeResult_def using c t v d answer_names
    by (subst unmarshal_print [of 3])
      (simp_all add: maxNestingDepth_def upd_InitializeResult_def field_raws_def find_field_def Let_def del: dec_string.simps(2) dec_nested.simps(2),
       simp_all)
  then show ?thesis using out by (intro exI [of _ "print_object ?kvs"]) (simp add: pv_def)
qed

definition demo_initialize :: bytes where
  "demo_initialize = print_object [(''jsonrpc'', json_quote ''2.0''), (''id'', ''7''), (''method'', json_quote ''initialize''), (''params'', print_object [])]"

text \<open>A host that names no version, in front of the server of a cc adapter.\<close>

theorem initialize_answer_typed_witness:
  "\<exists>r. ms_out (mcp_dispatch (\<lambda>_. []) idle_bus demo_initialize (NewChannelServer (0::nat))) =
      [print_object [(''jsonrpc'', json_quote ''2.0''), (''id'', ''7''), (''result'', r)] @ [LF]] \<and>
    map_sum id (\<lambda>x. (ir_ProtocolVersion x, cap_Experimental (ir_Capabilities x))) (unmarshal_InitializeResult r) =
      Inr (''2025-06-18'', [(''claude/channel'', ''{}'')])"
proof -
  let ?req = "\<lparr>rq_JSONRPC = ''2.0'', rq_ID = ''7'', rq_Method = ''initialize'', rq_Params = print_object []\<rparr>"
  let ?p = "\<lparr>ip_ProtocolVersion = [], ip_Capabilities = \<lparr>cap_Experimental = [], cap_Tools = []\<rparr>, ip_ClientInfo = \<lparr>ci_Name = [], ci_Version = []\<rparr>\<rparr>"
  have t: "json_text 2 ''7''" "marshal_raw ''7'' = Some ''7''" by code_simp+
  have e: "json_text 2 (print_object [])" using json_text_object [of 1 "[]"] by (simp add: numeral_2_eq_2)
  have names: "list_all valid_utf8 [''jsonrpc'', ''id'', ''method'', ''params'', ''initialize'', ''2.0'']" by (simp add: valid_utf8_ascii)
  have "unmarshal_rpcRequest demo_initialize = Inr ?req"
    unfolding unmarshal_rpcRequest_def demo_initialize_def using t e names
    by (subst unmarshal_print [of 2])
      (simp_all add: maxNestingDepth_def upd_rpcRequest_def rpcRequest_names_def field_raws_def find_field_def dec_raw_def Let_def del: dec_string.simps(2))
  moreover have "unmarshal_InitializeParams (print_object []) = Inr ?p"
    unfolding unmarshal_InitializeParams_def by (subst unmarshal_print [of 2])
      (simp_all add: maxNestingDepth_def upd_InitializeParams_def field_raws_def Let_def)
  moreover have "rpc_id ''7'' = Some [(''id'', ''7'')]" using t(2) by (simp add: rpc_id_def)
  moreover have "valid_utf8 (ms_serverName (NewChannelServer (0::nat)))" "ms_channelCap (NewChannelServer (0::nat))" "ms_out (NewChannelServer (0::nat)) = []"
    by (simp_all add: NewChannelServer_def NewMcpServer_def WithChannelCapability_def WithoutDrain_def WithServerName_def valid_utf8_ascii)
  ultimately show ?thesis
    using initialize_answer_typed [of demo_initialize ?req "[(''id'', ''7'')]" ?p "NewChannelServer (0::nat)" "\<lambda>_. []" idle_bus]
    by (auto simp: MCPProtocolVersion_def ChannelCapabilityKey_def)
qed

end
