(* ===== verification/Spec2Isabelle.thy ===== *)
theory Spec2Isabelle
  imports Commands Hosts Handshake_Notes
begin

text \<open>
  A verification of peerbus, a message bus for coding agents: a broker with a durable queue and a
  tamper-evident audit log, and adapters that connect an agent to it over MCP.

  \<^bold>\<open>The program.\<close>  A host (an agent) starts \<open>peerbus adapter\<close> and talks JSON-RPC to it over standard input and
  output (\<open>internal/mcp\<close>).  The adapter keeps one WebSocket connection to the broker, redials it when it
  drops and registers again under the same name (\<open>internal/adapter\<close>).  Envelopes are signed by the sender
  and verified by the recipient with a shared secret (\<open>internal/hmac\<close> over the canonical form of
  \<open>internal/wire\<close>); the broker (\<open>internal/broker\<close>) authenticates peers by token, stores every message
  (\<open>internal/store\<close>), writes it to the recipient's connection when there is one, keeps it until it is
  acknowledged, and appends every event to a hash chain (\<open>internal/audit\<close>).  The generic adapter buffers
  deliveries until the host drains them; the cc adapter pushes them as notifications
  (\<open>internal/channel\<close>).  \<open>cmd/peerbus\<close> is the command line around all of it.

  \<^bold>\<open>Theories\<close>, each after the ones it needs:
  \<^item> \<open>Peerbus_Prelude\<close>: byte strings, results with errors, hexadecimal, 64-bit wrap-around, shared lemmas.
  \<^item> \<open>Json_Scanner\<close>, \<open>Json_Codec\<close>: the parts of \<open>encoding/json\<close> that the sources use: the scanner as a state machine
    with its nesting bound, compaction, quoting and unquoting, UTF-8, printing and decoding of structs.
  \<^item> \<open>Wire\<close> (\<open>internal/wire\<close>): envelopes, control frames, \<open>Canonical\<close>, \<open>ControlTypeOf\<close>, \<open>CheckVersion\<close>.
  \<^item> \<open>Go_Crypto\<close>, \<open>Hmac\<close> (\<open>internal/hmac\<close>): SHA-256 and HMAC as executable definitions, \<open>Sign\<close> and \<open>Verify\<close>; the locale of a
    message authentication code carries the lemmas, which are interpreted on HMAC-SHA256.
  \<^item> \<open>Store\<close> (\<open>internal/store\<close>): the four tables as a record, every operation as a function on it that takes the
    faults of the database as an argument, and the reachable states as an inductive relation.
  \<^item> \<open>Audit_Log\<close> (\<open>internal/audit\<close>): \<open>Append\<close> and \<open>Verify\<close> over the interface \<open>auditStore\<close>, interpreted on the store.
  \<^item> \<open>Go_Strings\<close>, \<open>Registry\<close> (\<open>auth.go\<close>, \<open>registry.go\<close>), \<open>Config\<close> (\<open>config.go\<close>).
  \<^item> \<open>Broker\<close> (\<open>server.go\<close>, \<open>router.go\<close>): the handshake, the flush of pending rows, the read loop and every frame handler on
    the server's state; a relation \<open>micro\<close> whose steps are the single accesses to shared state, so that
    its runs are the interleavings of all connections.  \<open>Restarts\<close>: the relation \<open>broker_run\<close> adds the end of the process, closing
    the store or not, and its next start.  \<open>Broker_Safety\<close>: what holds in every such run.
  \<^item> \<open>Dedupe\<close>, \<open>Client\<close>, \<open>Resume\<close> (\<open>dedupe.go\<close>, \<open>client.go\<close>, \<open>reconnect.go\<close>): the cache of seen ids, one connection, and the loop
    that redials, verifies, suppresses repetitions and acknowledges after the host has consumed.
  \<^item> \<open>Mcp\<close> (\<open>server.go\<close>, \<open>tools.go\<close> of \<open>internal/mcp\<close>): the framings, JSON-RPC dispatch, the four tools over a record of bus
    functions, and the serve loop over a stream of bytes; the locales state what it relies on in a bus.
  \<^item> \<open>Channel\<close> (\<open>internal/channel\<close>): pushes, the rendering of bodies, minted names with both word lists.
  \<^item> \<open>Modes\<close> (\<open>mode.go\<close>, \<open>generic.go\<close>, \<open>cc.go\<close>): the mode registry, the buses, the probe loop, and both adapters as
    interleavings of host messages, dials, frames and announcements.
  \<^item> \<open>Handshake_Notes\<close> (\<open>handshake_notes.go\<close>): the structs of the initialize exchange and their decoding, against the
    answer that the MCP server gives.
  \<^item> \<open>Frames\<close>, \<open>Session\<close>, \<open>Hosts\<close>: where client and broker meet.  \<open>Frames\<close> shows how the client decodes what the broker writes,
    \<open>Session\<close> runs \<open>Connect\<close> against \<open>handshake\<close> with the close codes of the broker, \<open>Hosts\<close> follows a tool call into a
    frame and a stored row into the buffer of a host.
  \<^item> \<open>Commands\<close> (\<open>cmd/peerbus\<close>): flag parsing, the subcommands, exit codes and standard output.
  \<^item> This theory: what spans adapter, broker and adapter.

  \<^bold>\<open>What is proved.\<close>  From host to host: a \<open>bus.send\<close> call becomes exactly one message in the buffer of an online
  recipient and, once acknowledged, is never pending again (\<open>host_to_host\<close>), or one notification line to the host of a cc adapter (\<open>session_to_session\<close>), and a message for an
  absent recipient survives any interleaving, any fault and any restart or crash of the broker and
  is delivered when it returns (\<open>offline_message_delivered_on_return\<close>); a \<open>bus.broadcast\<close> call becomes one message at every other
  connected peer (\<open>broadcast_to_hosts\<close>), and \<open>bus.peers\<close> answers with the names of the broker's registry (\<open>host_lists_peers\<close>).
  Between client and broker: every frame written decodes on the other side and none ends the
  connection, and the two halves of the handshake agree on the outcome.  In the broker, in every
  interleaving and over restarts and crashes: no frame reaches a peer it is not addressed to, bound names are authenticated, stored
  rows are never lost or altered, the audit log verifies, and whole handlers refine the interleaving
  relation.  In the store: well-formedness of every reachable database, first-in first-out order per sender,
  atomic deduplicating insertion, redelivery until acknowledged and never after.  In the adapters:
  each message reaches the host exactly once, is acknowledged only when consumed, and waits between
  dials are bounded.  For signatures: what is signed verifies after transport, and what verifies
  under an honest tag agrees with what was signed or is a collision of HMAC.  For the log: \<open>Verify\<close> reports
  exactly the first broken row, and rewriting an event is detected there or at the next row unless the digest collides.  For the MCP
  server: both framings are read back, one response per request, one line per response, and the bus
  changes only by the calls requested; the answer to \<open>initialize\<close> has the documented type.  For the commands: what any number of brokers have served passes \<open>audit verify\<close> and keeps its messages.

  \<^bold>\<open>Arguments instead of code.\<close>  The WebSocket library, the database engine, \<open>blake3\<close>, \<open>crypto/rand\<close> and the clock are not part of the
  repository: what a dial, a read or a write meets, which statements fail, the digest, random bytes
  and time stamps are arguments, quantified over in the theorems.  The digest is constrained only by
  its own collisions.  The wording of library errors is an argument where it travels in an answer.

  \<^bold>\<open>Bounds and fuel.\<close>  No definition uses fuel except the trimming of spaces, which strips at most as many runes as
  the text has bytes.  Loops that wait for the network recurse over the list of what the network
  returns and end when it is used up; the serve loop recurses over the input; the probe loop has a measure
  from the bound \<open>nameCollisionRetries\<close>.  Sequence numbers wrap at 64 bits; the statements about the audit log
  hold up to \<open>2^63\<close> rows.  JSON nesting is bounded by 10000 levels as in the library.

  \<^bold>\<open>Not modelled.\<close>  Logging and diagnostics on standard error; HTTP upgrade and socket options; goroutine scheduling
  below the granularity of the shared accesses of \<open>micro\<close> and of the events of \<open>Modes\<close>; the busy retries and file
  handling of SQLite; the closing of the input, which only unblocks a read; the text of diagnostics.  The
  timing of \<open>time.After\<close> is a choice: a wait may end by reply, cancellation or timeout.
\<close>

section \<open>From sender to recipient\<close>

text \<open>The envelope that \<open>Send\<close> builds.\<close>

definition sent_envelope :: "client \<Rightarrow> string \<Rightarrow> string \<Rightarrow> string \<Rightarrow> string \<Rightarrow> bytes \<Rightarrow> envelope" where
  "sent_envelope c i to ts source body =
     \<lparr>env_ProtocolVersion = ProtocolVersion, env_ID = i, env_From = ccf_Name (cl_cfg c), env_To = to, env_TS = ts,
      env_Source = source, env_Kind = KindMsg, env_Body = body, env_HMAC = []\<rparr>"

definition good_message :: "client \<Rightarrow> string \<Rightarrow> string \<Rightarrow> string \<Rightarrow> string \<Rightarrow> bytes \<Rightarrow> bool" where
  "good_message c i to ts source body \<longleftrightarrow> conn c \<and> MinSecretLen \<le> length (ccf_HMACSecret (cl_cfg c)) \<and>
     list_all valid_utf8 [i, ccf_Name (cl_cfg c), to, ts, source] \<and> body_fits 2 body \<and>
     i \<noteq> [] \<and> to \<noteq> [] \<and> to \<noteq> ''*''"

lemma sent_envelope_simps [simp]:
  "env_ID (sent_envelope c i to ts source body) = i" "env_To (sent_envelope c i to ts source body) = to"
  "env_From (sent_envelope c i to ts source body) = ccf_Name (cl_cfg c)"
  "env_Body (sent_envelope c i to ts source body) = body" "env_Kind (sent_envelope c i to ts source body) = KindMsg"
  by (simp_all add: sent_envelope_def)

lemma good_message_wf:
  "good_message c i to ts source body \<Longrightarrow> wf_strings (sent_envelope c i to ts source body)"
  by (simp add: good_message_def wf_strings_def sent_envelope_def ProtocolVersion_def KindMsg_def valid_utf8_Cons_ascii)

text \<open>What \<open>Send\<close> writes, and what the broker makes of the frame.\<close>

lemma send_frame:
  assumes "good_message c i to ts source body"
  shows "\<exists>sg fr. SignEnvelope (ccf_HMACSecret (cl_cfg c)) (sent_envelope c i to ts source body) = Inr sg \<and>
    marshal_envelope sg = Some fr \<and> Send Written i to ts source body c = (Inr (), c\<lparr>cl_sent := cl_sent c @ [fr]\<rparr>) \<and>
    (\<forall>env ca s. routeFrame env ca fr s = routeEnvelope env (pc_name (sv_conns s ca)) (norm_envelope sg) s)"
proof -
  have "sendable c (sent_envelope c i to ts source body)"
    using assms good_message_wf [OF assms] by (simp add: sendable_def good_message_def)
  from signed_frame [OF this] show ?thesis by (auto simp: Send_def sent_envelope_def)
qed

text \<open>The row that stores the frame is delivered as a frame from which \<open>Recv\<close> gets the message.\<close>

lemma stored_frame_received:
  assumes "good_message c i to ts source body"
    "SignEnvelope (ccf_HMACSecret (cl_cfg c)) (sent_envelope c i to ts source body) = Inr sg"
    "marshal_envelope (norm_envelope sg) = Some raw" "msg_Envelope m = raw" "msg_ID m = i"
  shows "\<exists>fr. deliver_bytes m = Some fr \<and>
    (length fr \<le> MaxFrameBytes \<longrightarrow> (\<forall>cr rs. conn cr \<and> ccf_HMACSecret (cl_cfg cr) = ccf_HMACSecret (cl_cfg c) \<longrightarrow>
       (\<exists>del. Recv (TextMsg fr # rs) cr = (Some (Inr del), cr, rs) \<and> del_DeliveryKey del = i \<and>
          del_Envelope del = norm_envelope sg)))"
proof -
  have "valid_utf8 (msg_ID m)" "msg_ID m \<noteq> []" "body_fits 2 (env_Body (sent_envelope c i to ts source body))"
    using assms(1,5) by (simp_all add: good_message_def)
  note R = signed_row_received [OF _ good_message_wf [OF assms(1)] this(3) assms(3,4) this(1,2)]
  have "conn c" using assms(1) by (simp add: good_message_def)
  then obtain fr where fr: "deliver_bytes m = Some fr" using R [OF assms(2)] by blast
  show ?thesis using R assms(2,5) fr by (intro exI [of _ fr]) auto
qed

text \<open>With the recipient online: what \<open>Send\<close> writes reaches the recipient's connection as one new frame, and
  reading it \<open>Recv\<close> verifies the signature and returns the message.\<close>

lemma online_delivery:
  assumes "good_message c i to ts source body" "ccf_Name (cl_cfg c) = from"
    "pc_name (sv_conns s ca) = from" "from \<noteq> []" "env_good env" "\<not> st_closed (sv_store s)"
    "to \<in> peer_name ` set (st_peers (sv_store s))" "i \<notin> msg_ID ` set (st_messages (sv_store s))"
    "Get to (sv_registry s) = Some cb" "\<not> pc_closed (sv_conns s cb)"
    "conn cr" "ccf_HMACSecret (cl_cfg cr) = ccf_HMACSecret (cl_cfg c)"
  shows "\<exists>fr fr'. Send Written i to ts source body c = (Inr (), c\<lparr>cl_sent := cl_sent c @ [fr]\<rparr>) \<and>
    pc_out (sv_conns (routeFrame env ca fr s) cb) = pc_out (sv_conns s cb) @ [fr'] \<and> \<not> st_closed (sv_store (routeFrame env ca fr s)) \<and>
    (\<exists>m. message_row (sv_store (routeFrame env ca fr s)) i = Some m \<and> msg_Delivered m) \<and>
    (length fr' \<le> MaxFrameBytes \<longrightarrow>
       (\<exists>del. Recv (TextMsg fr' # rs) cr = (Some (Inr del), cr, rs) \<and> del_DeliveryKey del = i \<and>
          inbound_of (del_Envelope del) = \<lparr>in_ID = i, in_From = from, in_Source = source, in_Body = norm_body body\<rparr> \<and>
          channel_inbound (del_Envelope del) = \<lparr>ib_ID = i, ib_From = from, ib_Source = source, ib_Kind = KindMsg, ib_Body = norm_body body\<rparr>))"
proof -
  obtain sg fr where s: "SignEnvelope (ccf_HMACSecret (cl_cfg c)) (sent_envelope c i to ts source body) = Inr sg"
    "marshal_envelope sg = Some fr" "Send Written i to ts source body c = (Inr (), c\<lparr>cl_sent := cl_sent c @ [fr]\<rparr>)"
    "routeFrame env ca fr s = routeEnvelope env from (norm_envelope sg) s"
    using send_frame [OF assms(1)] assms(3) by blast
  note k = hm.sign_keeps [OF s(1)]
  have raw: "marshal_envelope (norm_envelope sg) = Some fr"
    using marshal_norm_envelope [of 2 sg] k(3) s(2) assms(1) by (simp add: good_message_def)
  let ?m = "mk_message i from to fr"
  have g: "i \<noteq> []" "to \<noteq> []" "to \<noteq> ''*''" "KindMsg \<noteq> KindBroadcast" "db_good env"
    using assms(1,5) by (simp_all add: good_message_def KindMsg_def KindBroadcast_def env_good_def)
  have r: "routeFrame env ca fr s = deliverTo env to ?m (after_enqueue env from (norm_envelope sg) fr s)"
    using routeEnvelope_direct [of env s "from" "norm_envelope sg" fr] raw k g assms(4,6-8) s(4) by simp
  obtain fr' where fr': "deliver_bytes ?m = Some fr'"
    "length fr' \<le> MaxFrameBytes \<Longrightarrow> \<exists>del. Recv (TextMsg fr' # rs) cr = (Some (Inr del), cr, rs) \<and> del_DeliveryKey del = i \<and>
        del_Envelope del = norm_envelope sg"
    using stored_frame_received [OF assms(1) s(1) raw, of ?m] assms(11,12) by auto
  have "pc_out (sv_conns (routeFrame env ca fr s) cb) = pc_out (sv_conns s cb) @ [fr']"
    using deliverTo_online(2) [OF assms(5), of "after_enqueue env from (norm_envelope sg) fr s" to cb ?m fr'] assms(6,9,10) fr'(1) r
    by simp
  moreover have "\<not> st_closed (sv_store (routeFrame env ca fr s))" using assms(6) r by (simp add: deliverTo_keeps(3))
  moreover have "\<exists>m. message_row (sv_store (routeFrame env ca fr s)) i = Some m \<and> msg_Delivered m"
  proof -
    let ?row = "fresh_row (be_db env (sv_tick s)) (mk_message i from to fr) (sv_store s)"
    have "st_messages (sv_store (routeFrame env ca fr s)) = map (set_delivered i) (st_messages (sv_store s) @ [?row])"
      using deliverTo_online(1) [OF assms(5), of "after_enqueue env from (norm_envelope sg) fr s" to cb ?m fr'] assms(6,9,10) fr'(1) r k(4,6) by simp
    moreover have "find (\<lambda>m. msg_ID m = i) (map (set_delivered i) (st_messages (sv_store s))) = None"
      using assms(8) by (auto simp: find_None_iff)
    ultimately show ?thesis by (simp add: message_row_def find_append) (simp add: set_delivered_def)
  qed
  moreover obtain h where "sg = (sent_envelope c i to ts source body)\<lparr>env_HMAC := h\<rparr>" using hm.sign_tags [OF s(1)] by blast
  then have "env_Source sg = source" "env_Kind sg = KindMsg" by (simp_all add: sent_envelope_def)
  then have "inbound_of (norm_envelope sg) = \<lparr>in_ID = i, in_From = from, in_Source = source, in_Body = norm_body body\<rparr>"
    "channel_inbound (norm_envelope sg) = \<lparr>ib_ID = i, ib_From = from, ib_Source = source, ib_Kind = KindMsg, ib_Body = norm_body body\<rparr>"
    using k(3-5) assms(2) by (simp_all add: inbound_of_def channel_inbound_def)
  ultimately show ?thesis using s(3) fr'(2) by fastforce
qed

text \<open>The sending adapter: a host's request to send makes its client write the frame.\<close>

lemma host_sends:
  assumes "rc_cur (g_rc sa) = Some c" "e = orc (bs_calls (ms_bus sa))" "bv_write e = Written"
    "Send Written (newMsgID (bv_rand e)) to (bv_ts e) defaultSource body c = (Inr (), c')"
    "json_text m rid" "json_text m body" "valid_utf8 to" "to \<noteq> []" "m + 3 \<le> maxNestingDepth"
  shows "rc_cur (g_rc (mcp_dispatch et (genericBus ct orc) (send_request rid to body) sa)) = Some c'"
  using assms requested_send [OF assms(5-9)]
  by (simp add: dispatch_bus genericBus_def Send_bus_def bus_result_def on_client_def Client_of_def Let_def)

text \<open>C1: Host to host, recipient online, the whole way: when a host calls \<open>bus.send\<close>, its adapter's client writes one frame; the
  broker, with a working database and socket, turns it into exactly one new frame on the recipient's
  connection; reading that frame, the recipient's adapter verifies it, appends the message to the
  buffer its host drains, with the sender's name, a fresh id and the body as it was given,
  compacted, and writes one acknowledgement; once the broker has read that, the message is never pending again,
  whatever happens later, restarts and crashes included.\<close>

theorem host_to_host:
  assumes "rc_cur (g_rc sa) = Some c" "e = orc (bs_calls (ms_bus sa))" "bv_write e = Written" "i = newMsgID (bv_rand e)"
    "json_text m rid" "json_text m body" "m + 3 \<le> maxNestingDepth"
    "good_message c i to (bv_ts e) defaultSource body" "ccf_Name (cl_cfg c) = from"
    "pc_name (sv_conns s ca) = from" "from \<noteq> []" "env_good env" "\<not> st_closed (sv_store s)"
    "to \<in> peer_name ` set (st_peers (sv_store s))" "i \<notin> msg_ID ` set (st_messages (sv_store s))"
    "Get to (sv_registry s) = Some cb" "\<not> pc_closed (sv_conns s cb)"
    "rc_cur (g_rc sb) = Some cr" "conn cr" "ccf_HMACSecret (cl_cfg cr) = ccf_HMACSecret (cl_cfg c)"
    "dedupe_inv (rc_dedupe (g_rc sb))" "i \<notin> set (dd_ll (rc_dedupe (g_rc sb)))"
    "store_inv (sv_store s)" "aw (rc_tick (g_rc sb)) = Written" "db_good env2"
  shows "\<exists>fr fr' fa.
    rc_cur (g_rc (mcp_dispatch et (genericBus ct orc) (send_request rid to body) sa)) = Some (c\<lparr>cl_sent := cl_sent c @ [fr]\<rparr>) \<and>
    pc_out (sv_conns (routeFrame env ca fr s) cb) = pc_out (sv_conns s cb) @ [fr'] \<and>
    (length fr' \<le> MaxFrameBytes \<longrightarrow>
       (let sb' = generic_step et' ct' orc' aw (Frame (TextMsg fr')) sb in
        rc_host (g_rc sb') = rc_host (g_rc sb) @ [\<lparr>in_ID = i, in_From = from, in_Source = defaultSource, in_Body = norm_body body\<rparr>] \<and>
        rc_cur (g_rc sb') = Some (cr\<lparr>cl_sent := cl_sent cr @ [fa]\<rparr>))) \<and>
    (\<forall>b3 g s' g' d n ms. (broker_run b3)\<^sup>*\<^sup>* (routeFrame env2 cb fa (routeFrame env ca fr s), g) (s', g') \<and>
       fst (PendingFor d n (sv_store s')) = Inr ms \<longrightarrow> i \<notin> msg_ID ` set ms)"
proof -
  obtain fr fr' row where f: "Send Written i to (bv_ts e) defaultSource body c = (Inr (), c\<lparr>cl_sent := cl_sent c @ [fr]\<rparr>)"
    "pc_out (sv_conns (routeFrame env ca fr s) cb) = pc_out (sv_conns s cb) @ [fr']"
    "length fr' \<le> MaxFrameBytes \<longrightarrow> (\<exists>del. Recv (TextMsg fr' # []) cr = (Some (Inr del), cr, []) \<and> del_DeliveryKey del = i \<and>
       inbound_of (del_Envelope del) = \<lparr>in_ID = i, in_From = from, in_Source = defaultSource, in_Body = norm_body body\<rparr>)"
    "\<not> st_closed (sv_store (routeFrame env ca fr s))" "message_row (sv_store (routeFrame env ca fr s)) i = Some row" "msg_Delivered row"
    using online_delivery [OF assms(8-17,19,20), of "[]"] by blast
  have u: "valid_utf8 to" "to \<noteq> []" "valid_utf8 i" "i \<noteq> []" using assms(8) by (simp_all add: good_message_def)
  then have "rc_cur (g_rc (mcp_dispatch et (genericBus ct orc) (send_request rid to body) sa)) = Some (c\<lparr>cl_sent := cl_sent c @ [fr]\<rparr>)"
    using host_sends [of sa c e orc to body _ m rid et ct] assms(1-7) f(1) by simp
  moreover have "let sb' = generic_step et' ct' orc' aw (Frame (TextMsg fr')) sb in
      rc_host (g_rc sb') = rc_host (g_rc sb) @ [\<lparr>in_ID = i, in_From = from, in_Source = defaultSource, in_Body = norm_body body\<rparr>] \<and>
      rc_cur (g_rc sb') = Some (cr\<lparr>cl_sent := cl_sent cr @ [ack_bytes i]\<rparr>)" if l: "length fr' \<le> MaxFrameBytes"
  proof -
    obtain del where d: "Recv [TextMsg fr'] cr = (Some (Inr del), cr, [])" "del_DeliveryKey del = i"
      "inbound_of (del_Envelope del) = \<lparr>in_ID = i, in_From = from, in_Source = defaultSource, in_Body = norm_body body\<rparr>"
      using f(3) l by auto
    then have "env_ID (del_Envelope del) = i" by (simp add: inbound_of_def)
    then show ?thesis unfolding Let_def
      using frame_buffered [OF assms(18,19) d(1) assms(21)] frame_acked [where aw = aw, OF assms(18,19) d(1) assms(24)] assms(22) d(2,3) by simp
  qed
  moreover have "store_inv (sv_store (routeFrame env ca fr s))" by (rule store_steps_inv [OF routeFrame_store assms(23)])
  note settles = ack_settles [OF assms(25) f(4) this f(5,6) u(3,4)]
  ultimately show ?thesis using f(2) by (intro exI [of _ fr] exI [of _ fr'] exI [of _ "ack_bytes i"]) (blast intro: settles)
qed

text \<open>The host of a cc adapter calls the same tool.\<close>

lemma cc_host_sends:
  assumes "rc_cur (cc_rc w) = Some c" "e = orc (bs_calls (ms_bus (cw_srv w)))" "bv_write e = Written"
    "Send Written (newMsgID (bv_rand e)) to (bv_ts e) defaultSource body c = (Inr (), c')"
    "json_text m rid" "json_text m body" "valid_utf8 to" "to \<noteq> []" "m + 3 \<le> maxNestingDepth"
  shows "rc_cur (cc_rc (cc_step et ct orc aw (CcHost (send_request rid to body)) w)) = Some c'"
  using assms requested_send [OF assms(5-9)]
  by (simp add: cc_rc_def dispatch_bus busAdapter_def ccBus_def Send_bus_def bus_result_def on_client_def Client_of_def Let_def)

text \<open>C3: From one Claude session to another, both online: when the host of a cc adapter calls \<open>bus.send\<close>, its client writes one frame;
  the broker, with a working database and socket, turns it into exactly one new frame on the recipient's
  connection; and reading that frame, the recipient's cc adapter writes exactly one line to its host, from which the host decodes
  the push notification with the rendered text of the body and the sender, the source, the kind and the fresh id.\<close>

theorem session_to_session:
  assumes "rc_cur (cc_rc wa) = Some c" "e = orc (bs_calls (ms_bus (cw_srv wa)))" "bv_write e = Written" "i = newMsgID (bv_rand e)"
    "json_text m rid" "json_text m body" "m + 3 \<le> maxNestingDepth"
    "good_message c i to (bv_ts e) defaultSource body" "ccf_Name (cl_cfg c) = from"
    "pc_name (sv_conns s ca) = from" "from \<noteq> []" "env_good env" "\<not> st_closed (sv_store s)"
    "to \<in> peer_name ` set (st_peers (sv_store s))" "i \<notin> msg_ID ` set (st_messages (sv_store s))"
    "Get to (sv_registry s) = Some cb" "\<not> pc_closed (sv_conns s cb)"
    "rc_cur (cc_rc wb) = Some cr" "conn cr" "ccf_HMACSecret (cl_cfg cr) = ccf_HMACSecret (cl_cfg c)" "rc_host (cc_rc wb) = []"
    "dedupe_inv (rc_dedupe (cc_rc wb))" "i \<notin> set (dd_ll (rc_dedupe (cc_rc wb)))" "valid_utf8 (decodeBody (norm_body body))"
    "ib = \<lparr>ib_ID = i, ib_From = from, ib_Source = defaultSource, ib_Kind = KindMsg, ib_Body = norm_body body\<rparr>"
  shows "\<exists>fr fr'.
    rc_cur (cc_rc (cc_step et ct orc aw (CcHost (send_request rid to body)) wa)) = Some (c\<lparr>cl_sent := cl_sent c @ [fr]\<rparr>) \<and>
    pc_out (sv_conns (routeFrame env ca fr s) cb) = pc_out (sv_conns s cb) @ [fr'] \<and>
    (length fr' \<le> MaxFrameBytes \<longrightarrow>
       (\<exists>line. ms_out (cw_srv (cc_step et' ct' orc' aw' (CcFrame (TextMsg fr')) wb)) = ms_out (cw_srv wb) @ [line @ [LF]] \<and>
          unmarshal_notification line = Inr \<lparr>pn_JSONRPC = ''2.0'', pn_Method = PushMethod,
            pn_Params = \<lparr>pp_Content = formatInbound ib, pp_Meta = push_meta ib\<rparr>\<rparr>))"
proof -
  obtain fr fr' where f: "Send Written i to (bv_ts e) defaultSource body c = (Inr (), c\<lparr>cl_sent := cl_sent c @ [fr]\<rparr>)"
    "pc_out (sv_conns (routeFrame env ca fr s) cb) = pc_out (sv_conns s cb) @ [fr']"
    "length fr' \<le> MaxFrameBytes \<longrightarrow> (\<exists>del. Recv (TextMsg fr' # []) cr = (Some (Inr del), cr, []) \<and> channel_inbound (del_Envelope del) = ib)"
    unfolding assms(25) using online_delivery [OF assms(8-17,19,20), of "[]"] by blast
  have u: "valid_utf8 to" "to \<noteq> []" "list_all valid_utf8 [ib_ID ib, ib_From ib, ib_Source ib, ib_Kind ib, decodeBody (ib_Body ib)]"
    using assms(8,9,24,25) by (auto simp: good_message_def KindMsg_def valid_utf8_Cons_ascii)
  then have "rc_cur (cc_rc (cc_step et ct orc aw (CcHost (send_request rid to body)) wa)) = Some (c\<lparr>cl_sent := cl_sent c @ [fr]\<rparr>)"
    using cc_host_sends [of wa c e orc to body _ m rid et ct aw] assms(1-7) f(1) by simp
  moreover have "\<exists>line. ms_out (cw_srv (cc_step et' ct' orc' aw' (CcFrame (TextMsg fr')) wb)) = ms_out (cw_srv wb) @ [line @ [LF]] \<and>
      unmarshal_notification line = Inr \<lparr>pn_JSONRPC = ''2.0'', pn_Method = PushMethod,
        pn_Params = \<lparr>pp_Content = formatInbound ib, pp_Meta = push_meta ib\<rparr>\<rparr>" if l: "length fr' \<le> MaxFrameBytes"
  proof -
    obtain del where d: "Recv [TextMsg fr'] cr = (Some (Inr del), cr, [])" "channel_inbound (del_Envelope del) = ib" using f(3) l by auto
    then have "env_ID (del_Envelope del) = i" by (auto simp: channel_inbound_def assms(25))
    then show ?thesis using frame_pushed [OF assms(18,19) d(1) assms(21,22) _ d(2) u(3)] assms(23) by simp
  qed
  ultimately show ?thesis using f(2) by blast
qed

text \<open>The envelope that \<open>Broadcast\<close> of the client builds.\<close>

definition broadcast_envelope :: "client \<Rightarrow> string \<Rightarrow> string \<Rightarrow> string \<Rightarrow> bytes \<Rightarrow> envelope" where
  "broadcast_envelope c i ts source body =
     \<lparr>env_ProtocolVersion = ProtocolVersion, env_ID = i, env_From = ccf_Name (cl_cfg c), env_To = ''*'', env_TS = ts,
      env_Source = source, env_Kind = KindBroadcast, env_Body = body, env_HMAC = []\<rparr>"

text \<open>C4: Broadcast, host to hosts: when a host calls \<open>bus.broadcast\<close>, its client writes one frame; whatever peers are
  registered at the broker at that moment, the connection of each of them but the sender gets exactly one new frame
  if it is open, and reading it, the peer's adapter appends the message to the buffer of its host, with the
  sender's name, the broadcast's id and the body as it was given, compacted.\<close>

theorem broadcast_to_hosts:
  assumes "rc_cur (g_rc sa) = Some c" "e = orc (bs_calls (ms_bus sa))" "bv_write e = Written" "i = newMsgID (bv_rand e)"
    "json_text m rid" "json_text m body" "m + 3 \<le> maxNestingDepth"
    "sendable c (broadcast_envelope c i (bv_ts e) defaultSource body)" "ccf_Name (cl_cfg c) = from"
    "(broker_run b3)\<^sup>*\<^sup>* (initial tokens st) (s, g)" "store_inv st" "log_ok b3 st" "env_good env" "\<not> st_closed (sv_store s)"
    "pc_name (sv_conns s ca) = from" "from \<noteq> []" "\<forall>r. row_id i r \<notin> msg_ID ` set (st_messages (sv_store s))"
  shows "\<exists>fr. rc_cur (g_rc (mcp_dispatch et (genericBus ct orc) (tool_request rid ''bus.broadcast'' (print_object [(''body'', body)])) sa)) =
      Some (c\<lparr>cl_sent := cl_sent c @ [fr]\<rparr>) \<and>
    (\<forall>r cb sb cr. Get r (sv_registry s) = Some cb \<and> r \<noteq> from \<and> valid_utf8 r \<and> \<not> pc_closed (sv_conns s cb) \<and>
       rc_cur (g_rc sb) = Some cr \<and> conn cr \<and> ccf_HMACSecret (cl_cfg cr) = ccf_HMACSecret (cl_cfg c) \<and>
       dedupe_inv (rc_dedupe (g_rc sb)) \<and> i \<notin> set (dd_ll (rc_dedupe (g_rc sb))) \<longrightarrow>
       (\<exists>fr'. pc_out (sv_conns (routeFrame env ca fr s) cb) = pc_out (sv_conns s cb) @ [fr'] \<and>
          (length fr' \<le> MaxFrameBytes \<longrightarrow>
             rc_host (g_rc (generic_step et' ct' orc' aw (Frame (TextMsg fr')) sb)) =
               rc_host (g_rc sb) @ [\<lparr>in_ID = i, in_From = from, in_Source = defaultSource, in_Body = norm_body body\<rparr>])))"
proof -
  let ?e = "broadcast_envelope c i (bv_ts e) defaultSource body" and ?args = "print_object [(''body'', body)]"
  obtain sg fr where s: "SignEnvelope (ccf_HMACSecret (cl_cfg c)) ?e = Inr sg" "marshal_envelope (norm_envelope sg) = Some fr"
    "sendEnvelope Written ?e c = (Inr (), c\<lparr>cl_sent := cl_sent c @ [fr]\<rparr>)"
    "routeFrame env ca fr s = routeEnvelope env from (norm_envelope sg) s"
    using signed_frame [OF assms(8)] assms(15) by blast
  obtain h where sg: "sg = ?e\<lparr>env_HMAC := h\<rparr>" using hm.sign_tags [OF s(1)] by blast
  have f: "env_ID sg = i" "env_To sg = ''*''" "env_Kind sg = KindBroadcast" "inbound_of (norm_envelope sg) =
      \<lparr>in_ID = i, in_From = from, in_Source = defaultSource, in_Body = norm_body body\<rparr>"
    using assms(9) by (simp_all add: sg broadcast_envelope_def inbound_of_def norm_envelope_def)
  have loop: "routeFrame env ca fr s = broadcast_loop env from (norm_envelope sg) fr (List (sv_registry s)) s"
    using s(2,4) f by (simp add: routeEnvelope_def routeBroadcast_def)
  have "bus_Broadcast (genericBus ct orc) body (ms_bus sa) =
      (Inr (), (ms_bus sa)\<lparr>bs_rc := (g_rc sa)\<lparr>rc_cur := Some (c\<lparr>cl_sent := cl_sent c @ [fr]\<rparr>)\<rparr>, bs_calls := Suc (bs_calls (ms_bus sa))\<rparr>)"
    using s(3) assms(1-4)
    by (simp add: genericBus_def Broadcast_bus_def Broadcast_def broadcast_envelope_def bus_result_def on_client_def Client_of_def Let_def)
  from callTool_broadcast [OF assms(6) _ this, of et] assms(7)
  have call: "callTool et (genericBus ct orc) ''bus.broadcast'' ?args (ms_bus sa) = (Inr (toolResult (Some (print_map [(''broadcast'', print_bool True)]))),
      (ms_bus sa)\<lparr>bs_rc := (g_rc sa)\<lparr>rc_cur := Some (c\<lparr>cl_sent := cl_sent c @ [fr]\<rparr>)\<rparr>, bs_calls := Suc (bs_calls (ms_bus sa))\<rparr>)" by simp
  have "json_text (m + 1) ?args" "valid_utf8 ''bus.broadcast''" using json_text_object [of m "[(''body'', body)]"] assms(6)
    by (simp_all add: valid_utf8_ascii)
  from dispatch_tool_request [OF assms(5) this _ assms(7) call]
  have "rc_cur (g_rc (mcp_dispatch et (genericBus ct orc) (tool_request rid ''bus.broadcast'' ?args) sa)) = Some (c\<lparr>cl_sent := cl_sent c @ [fr]\<rparr>)"
    by simp
  moreover have "\<exists>fr'. pc_out (sv_conns (routeFrame env ca fr s) cb) = pc_out (sv_conns s cb) @ [fr'] \<and>
      (length fr' \<le> MaxFrameBytes \<longrightarrow> rc_host (g_rc (generic_step et' ct' orc' aw (Frame (TextMsg fr')) sb)) =
         rc_host (g_rc sb) @ [\<lparr>in_ID = i, in_From = from, in_Source = defaultSource, in_Body = norm_body body\<rparr>])"
    if r: "Get r (sv_registry s) = Some cb" "r \<noteq> from" "valid_utf8 r" "\<not> pc_closed (sv_conns s cb)"
      "rc_cur (g_rc sb) = Some cr" "conn cr" "ccf_HMACSecret (cl_cfg cr) = ccf_HMACSecret (cl_cfg c)"
      "dedupe_inv (rc_dedupe (g_rc sb))" "i \<notin> set (dd_ll (rc_dedupe (g_rc sb)))" for r cb sb cr
  proof -
    let ?m = "mk_message (row_id i r) from r fr"
    have wf: "wf_strings ?e" "body_fits 2 (env_Body ?e)" "valid_utf8 i" using assms(8) by (simp_all add: sendable_def wf_strings_def broadcast_envelope_def)
    have id: "valid_utf8 (msg_ID ?m)" "msg_ID ?m \<noteq> []" using wf(3) r(3) by (simp_all add: row_id_valid)
    have "msg_Envelope ?m = fr" by simp
    from signed_row_received [OF s(1) [folded r(7)] wf(1,2) s(2) this id r(6)]
    obtain fr' where fr': "deliver_bytes ?m = Some fr'"
      "length fr' \<le> MaxFrameBytes \<longrightarrow> (\<exists>del. Recv [TextMsg fr'] cr = (Some (Inr del), cr, []) \<and> del_Envelope del = norm_envelope sg)"
      by blast
    note reg = reachable_registry [OF assms(10-12)]
    have "pc_out (sv_conns (routeFrame env ca fr s) cb) = pc_out (sv_conns s cb) @ [fr']"
      unfolding loop
      by (rule broadcast_loop_online [OF assms(13,16) marshal_envelope_nonempty [OF s(2)] assms(14)])
        (use reg r(1,2,4) fr'(1) f(1) assms(17) List_props [OF reg(1)] in simp_all)
    moreover have "rc_host (g_rc (generic_step et' ct' orc' aw (Frame (TextMsg fr')) sb)) =
        rc_host (g_rc sb) @ [\<lparr>in_ID = i, in_From = from, in_Source = defaultSource, in_Body = norm_body body\<rparr>]" if "length fr' \<le> MaxFrameBytes"
    proof -
      obtain del where d: "Recv [TextMsg fr'] cr = (Some (Inr del), cr, [])" "del_Envelope del = norm_envelope sg" using fr'(2) \<open>length fr' \<le> MaxFrameBytes\<close> by blast
      then show ?thesis using frame_buffered [OF r(5,6) d(1) r(8)] r(9) f(1,4) by simp
    qed
    ultimately show ?thesis by blast
  qed
  ultimately show ?thesis by blast
qed

text \<open>C5: The list of peers, from the broker's registry to the host: when a host calls \<open>bus.peers\<close>, its adapter writes the
  request; the broker answers on the same connection with the names registered at that moment; and when the answer is
  read before the wait ends, the host's response holds the adapter's own name and exactly the other names, in order.\<close>

theorem host_lists_peers:
  assumes "rc_cur (g_rc sa) = Some c" "conn c" "e = orc (bs_calls (ms_bus sa))" "bv_write e = Written"
    "json_text m rid" "m + 3 \<le> maxNestingDepth" "env_good env" "\<not> pc_closed (sv_conns s ca)"
    "\<forall>n\<in>set (List (sv_registry s)). valid_utf8 n" "self = ccf_Name (rc_cfg (g_rc sa))" "self \<noteq> []"
    "bv_frames e = drop (length (pc_out (sv_conns s ca))) (pc_out (sv_conns (routeFrame env ca peers_request s) ca))"
    "sa' = mcp_dispatch et (genericBus ct orc) (tool_request rid ''bus.peers'' (print_object [])) sa"
  shows "rc_cur (g_rc sa') = Some (c\<lparr>cl_sent := cl_sent c @ [peers_request], cl_sink := None\<rparr>) \<and>
    (\<exists>resp. marshal_result rid (toolResult (Some (print_map [(''self'', json_quote self),
        (''peers'', print_array (map json_quote (filter (\<lambda>n. n \<noteq> self) (List (sv_registry s)))))]))) = Some resp \<and>
      ms_out sa' = ms_out sa @ [resp @ [LF]])"
proof -
  have "bv_frames e = [peers_reply s]" using assms(12) peers_answered [OF assms(7,8)] by simp
  note P = Peers_bus_answered [of "ms_bus sa" c e orc s ct, OF assms(1-4) this assms(9)]
  have "bus_Peers (genericBus ct orc) (ms_bus sa) = Peers_bus ct orc (ms_bus sa)" by (simp add: genericBus_def)
  note call = callTool_peers [OF this [unfolded P], of et "print_object []"]
  have "json_text (m + 1) (print_object [])" "valid_utf8 ''bus.peers''" using json_text_object [of m "[]"] by (simp_all add: valid_utf8_ascii)
  note d = dispatch_tool_request [OF assms(5) this _ assms(6) call]
  have "rpc_id rid = Some [(''id'', norm_body rid)]"
    using json_text_head [OF assms(5)] rid_marshals [OF assms(5)] assms(6) by (simp add: rpc_id_def)
  then show ?thesis using assms(10,11,13) d
    by (simp add: ms_out_writeResult marshal_result_def toolResult_def Let_def Name_of_def filterSelf_def)
qed

text \<open>Two peers: \<open>alice\<close> on connection 2 sends to \<open>bob\<close>, who is on connection 0 or away.\<close>

definition demo_alice :: client where
  "demo_alice = demo_conn\<lparr>cl_cfg := demo_client\<lparr>ccf_Name := ''alice''\<rparr>\<rparr>"

definition with_alice :: "server \<Rightarrow> server" where
  "with_alice s = upd_conn 2 (\<lambda>p. p\<lparr>pc_name := ''alice''\<rparr>) s"

lemma with_alice_simps [simp]:
  "pc_name (sv_conns (with_alice s) 2) = ''alice''" "sv_store (with_alice s) = sv_store s" "sv_auth (with_alice s) = sv_auth s"
  "sv_registry (with_alice s) = sv_registry s" "sv_conns (with_alice s) 0 = sv_conns s 0"
  by (simp_all add: with_alice_def)

lemma demo_alice_message: "good_message demo_alice ''m2'' ''bob'' ''t'' ''s'' ''[1, 2]''"
  using demo_envelope_ok(3)
  by (simp add: good_message_def demo_alice_def demo_conn_def conn_def demo_client_def demo_secret_def MinSecretLen_def
      valid_utf8_Cons_ascii demo_envelope_def)

lemma demo_peers_share_secret: "conn demo_conn" "ccf_HMACSecret (cl_cfg demo_conn) = ccf_HMACSecret (cl_cfg demo_alice)"
  "ccf_Name (cl_cfg demo_alice) = ''alice''"
  by (simp_all add: demo_conn_def conn_def demo_alice_def demo_client_def)

definition demo_bus_env :: bus_env where
  "demo_bus_env = \<lparr>bv_rand = replicate 16 (CHR 0x07), bv_ts = ''t'', bv_write = Written, bv_frames = [], bv_cancelled = False\<rparr>"

definition demo_adapter :: "client \<Rightarrow> generic_bus mcp_server" where
  "demo_adapter c = NewMcpServer \<lparr>bs_rc = (NewResumingClient (cl_cfg c) 8 [])\<lparr>rc_cur := Some c\<rparr>, bs_calls = 0\<rparr>"

lemma demo_send:
  fixes s :: server and i :: string
  defines "s \<equiv> with_alice demo_online" and "i \<equiv> newMsgID (bv_rand demo_bus_env)"
  shows "good_message demo_alice i ''bob'' (bv_ts demo_bus_env) defaultSource ''[1,2]''"
    "pc_name (sv_conns s 2) = ''alice''" "''alice'' \<noteq> []" "\<not> st_closed (sv_store s)"
    "''bob'' \<in> peer_name ` set (st_peers (sv_store s))" "i \<notin> msg_ID ` set (st_messages (sv_store s))"
    "Get ''bob'' (sv_registry s) = Some 0" "\<not> pc_closed (sv_conns s 0)"
    "json_text 2 ''8''" "json_text 2 ''[1,2]''" "2 + 3 \<le> maxNestingDepth" "bv_write demo_bus_env = Written"
    "cl_sent demo_alice @ [fr] = [fr]"
proof -
  have i: "i = concat (replicate 16 ''07'')" unfolding i_def by code_simp
  have "valid_utf8 i" "i \<noteq> []" "i \<noteq> ''m1''" unfolding i by code_simp+
  moreover have "body_fits 2 ''[1,2]''" by code_simp
  ultimately show "good_message demo_alice i ''bob'' (bv_ts demo_bus_env) defaultSource ''[1,2]''"
    "i \<notin> msg_ID ` set (st_messages (sv_store s))"
    using demo_alice_message valid_utf8_ascii [of defaultSource] demo_online_simps
    by (simp_all add: good_message_def demo_bus_env_def defaultSource_def s_def)
  show "json_text 2 ''8''" "json_text 2 ''[1,2]''" "2 + 3 \<le> maxNestingDepth" by code_simp+
qed (use demo_online_simps in \<open>simp_all add: s_def demo_online_def Get_def newPeerConn_def demo_bus_env_def demo_alice_def demo_conn_def\<close>)

theorem host_to_host_witness:
  "\<exists>fr fr'. rc_cur (g_rc (mcp_dispatch (\<lambda>_. []) (genericBus (\<lambda>_. []) (\<lambda>_. demo_bus_env)) (send_request ''8'' ''bob'' ''[1,2]'') (demo_adapter demo_alice))) =
      Some (demo_alice\<lparr>cl_sent := [fr]\<rparr>) \<and>
    pc_out (sv_conns (routeFrame demo_benv 2 fr (with_alice demo_online)) 0) = pc_out (sv_conns (with_alice demo_online) 0) @ [fr']"
proof -
  have b: "rc_cur (g_rc (demo_adapter c)) = Some c" "dedupe_inv (rc_dedupe (g_rc (demo_adapter c)))"
    "i \<notin> set (dd_ll (rc_dedupe (g_rc (demo_adapter c))))" for c i
    by (simp_all add: demo_adapter_def NewMcpServer_def NewResumingClient_def)
  have st: "store_inv (sv_store (with_alice demo_online))" using demo_store_ok(1) demo_online_simps(1) by simp
  have db: "db_good demo_benv" using demo_benv_good by (simp add: env_good_def)
  from host_to_host [where et = "\<lambda>_. []" and ct = "\<lambda>_. []" and aw = "\<lambda>_. Written", OF b(1) refl demo_send(12) refl demo_send(9-11,1) demo_peers_share_secret(3) demo_send(2,3) demo_benv_good demo_send(4-8)
      b(1) demo_peers_share_secret(1,2) b(2,3) st refl db, unfolded demo_send(13)]
  show ?thesis by blast
qed

definition demo_cc :: "client \<Rightarrow> cc_world" where
  "demo_cc c = \<lparr>cw_srv = NewChannelServer \<lparr>bs_rc = (NewResumingClient (cl_cfg c) 8 [])\<lparr>rc_cur := Some c\<rparr>, bs_calls = 0\<rparr>, cw_announced = 0\<rparr>"

theorem session_to_session_witness:
  "\<exists>fr fr'. rc_cur (cc_rc (cc_step (\<lambda>_. []) (\<lambda>_. []) (\<lambda>_. demo_bus_env) (\<lambda>_. Written) (CcHost (send_request ''8'' ''bob'' ''[1,2]'')) (demo_cc demo_alice))) =
      Some (demo_alice\<lparr>cl_sent := [fr]\<rparr>) \<and>
    pc_out (sv_conns (routeFrame demo_benv 2 fr (with_alice demo_online)) 0) = pc_out (sv_conns (with_alice demo_online) 0) @ [fr']"
proof -
  have b: "rc_cur (cc_rc (demo_cc c)) = Some c" "dedupe_inv (rc_dedupe (cc_rc (demo_cc c)))" "rc_host (cc_rc (demo_cc c)) = []"
    "i \<notin> set (dd_ll (rc_dedupe (cc_rc (demo_cc c))))" for c i
    by (simp_all add: demo_cc_def cc_rc_def NewChannelServer_def WithChannelCapability_def WithoutDrain_def WithServerName_def NewMcpServer_def NewResumingClient_def)
  have v: "valid_utf8 (decodeBody (norm_body ''[1,2]''))" by code_simp
  from session_to_session [OF b(1) refl demo_send(12) refl demo_send(9-11,1) demo_peers_share_secret(3) demo_send(2,3) demo_benv_good demo_send(4-8)
      b(1) demo_peers_share_secret(1,2) b(3,2,4) v refl, where et = "\<lambda>_. []" and ct = "\<lambda>_. []" and aw = "\<lambda>_. Written", unfolded demo_send(13)]
  show ?thesis by blast
qed

text \<open>Both peers online, reached by binding their names.\<close>

definition demo_known :: server where
  "demo_known = snd (db_call demo_benv (\<lambda>d. Register d ''alice'') demo_server)"

definition demo_both :: server where
  "demo_both = with_alice (demo_known\<lparr>sv_registry := [(''alice'', \<lparr>bind_conn = 2, bind_token = ''tok''\<rparr>), (''bob'', \<lparr>bind_conn = 0, bind_token = ''tok''\<rparr>)]\<rparr>)"

lemma demo_known_simps [simp]:
  "sv_registry demo_known = []" "sv_auth demo_known = [''tok'']" "sv_conns demo_known c = newPeerConn"
  "st_messages (sv_store demo_known) = st_messages demo_store" "\<not> st_closed (sv_store demo_known)"
  "''alice'' \<in> peer_name ` set (st_peers (sv_store demo_known))" "''bob'' \<in> peer_name ` set (st_peers (sv_store demo_known))"
proof -
  have "''bob'' \<in> peer_name ` set (st_peers demo_store)" by code_simp
  then show "''alice'' \<in> peer_name ` set (st_peers (sv_store demo_known))" "''bob'' \<in> peer_name ` set (st_peers (sv_store demo_known))"
    "st_messages (sv_store demo_known) = st_messages demo_store" "\<not> st_closed (sv_store demo_known)"
    using good_register [OF demo_benv_good, of demo_server "''alice''"] demo_store_ok(3)
    by (simp_all add: demo_known_def names_upsert_peer_set)
qed (simp_all add: demo_known_def)

lemma demo_both_reached:
  "(broker_run demo_digest)\<^sup>*\<^sup>* (initial [''tok''] demo_store) (demo_both, (\<lambda>_. None)(2 := Some ''alice'', 0 := Some ''bob''))"
proof -
  let ?g = "\<lambda>_. None" and ?ra = "[(''alice'', \<lparr>bind_conn = 2, bind_token = ''tok''\<rparr>)]"
  let ?rb = "?ra @ [(''bob'', \<lparr>bind_conn = 0, bind_token = ''tok''\<rparr>)]"
  have b: "Bind ''alice'' ''tok'' 2 [] = (Inr None, ?ra)" "Bind ''bob'' ''tok'' 0 ?ra = (Inr None, ?rb)" by (simp_all add: Bind_def)
  have "micro demo_benv (demo_server, ?g) (demo_known, ?g)" unfolding demo_known_def by (rule m_register)
  moreover have "micro demo_benv (demo_known, ?g) (demo_known\<lparr>sv_registry := ?ra\<rparr>, ?g(2 := Some ''alice''))"
    using b(1) by (intro m_bind) (simp_all add: Valid_iff)
  moreover have "micro demo_benv (demo_known\<lparr>sv_registry := ?ra\<rparr>, ?g(2 := Some ''alice''))
      (demo_known\<lparr>sv_registry := ?rb\<rparr>, ?g(2 := Some ''alice'', 0 := Some ''bob''))"
    using b(2) m_bind [of "''bob''" "demo_known\<lparr>sv_registry := ?ra\<rparr>" "''tok''" "?g(2 := Some ''alice'')" 0 None ?rb demo_benv] by (simp add: Valid_iff)
  moreover have "micro demo_benv (demo_known\<lparr>sv_registry := ?rb\<rparr>, ?g(2 := Some ''alice'', 0 := Some ''bob'')) (demo_both, ?g(2 := Some ''alice'', 0 := Some ''bob''))"
    unfolding demo_both_def with_alice_def append.simps by (rule m_name) simp_all
  moreover have "initial [''tok''] demo_store = (demo_server, ?g)" by (simp add: demo_server_def initial_def)
  ultimately have "(micro demo_benv)\<^sup>*\<^sup>* (initial [''tok''] demo_store) (demo_both, ?g(2 := Some ''alice'', 0 := Some ''bob''))"
    by (simp only: converse_rtranclp_into_rtranclp rtranclp.rtrancl_refl)
  then show ?thesis using micros_run [of demo_benv] by (metis benv.select_convs(1) demo_benv_def)
qed

lemma demo_both_simps: "st_messages (sv_store demo_both) = st_messages demo_store" "pc_name (sv_conns demo_both 2) = ''alice''"
  "sv_conns demo_both 0 = newPeerConn" "Get ''bob'' (sv_registry demo_both) = Some 0" "List (sv_registry demo_both) = [''alice'', ''bob'']"
  "\<not> pc_closed (sv_conns demo_both 2)" "\<not> st_closed (sv_store demo_both)"
proof -
  have "sort [''alice'', ''bob''] = [''alice'', ''bob'']" by code_simp
  then show "List (sv_registry demo_both) = [''alice'', ''bob'']" by (simp add: demo_both_def List_def)
qed (simp_all add: demo_both_def Get_def with_alice_def newPeerConn_def)

theorem broadcast_to_hosts_witness:
  "\<exists>fr fr'. rc_cur (g_rc (mcp_dispatch (\<lambda>_. []) (genericBus (\<lambda>_. []) (\<lambda>_. demo_bus_env))
      (tool_request ''8'' ''bus.broadcast'' (print_object [(''body'', ''[1,2]'')])) (demo_adapter demo_alice))) = Some (demo_alice\<lparr>cl_sent := [fr]\<rparr>) \<and>
    pc_out (sv_conns (routeFrame demo_benv 2 fr demo_both) 0) = [fr']"
proof -
  let ?i = "newMsgID (bv_rand demo_bus_env)"
  have i: "?i = concat (replicate 16 ''07'')" by code_simp
  have "valid_utf8 ?i" "?i \<noteq> []" "hd ?i \<noteq> CHR ''m''" unfolding i by code_simp+
  moreover have "body_fits 2 ''[1,2]''" by code_simp
  ultimately have g: "sendable demo_alice (broadcast_envelope demo_alice ?i (bv_ts demo_bus_env) defaultSource ''[1,2]'')"
    using demo_alice_message valid_utf8_ascii [of defaultSource]
    by (simp add: sendable_def good_message_def broadcast_envelope_def wf_strings_def demo_bus_env_def defaultSource_def
        ProtocolVersion_def KindBroadcast_def valid_utf8_Cons_ascii)
  have fresh: "\<forall>r. row_id ?i r \<notin> msg_ID ` set (st_messages (sv_store demo_both))"
    using demo_online_simps(1,6) \<open>?i \<noteq> []\<close> \<open>hd ?i \<noteq> CHR ''m''\<close> demo_both_simps(1) by (cases ?i) (auto simp: row_id_def)
  have t: "json_text 2 ''8''" "json_text 2 ''[1,2]''" "2 + 3 \<le> maxNestingDepth" by code_simp+
  have b: "rc_cur (g_rc (demo_adapter c)) = Some c" "dedupe_inv (rc_dedupe (g_rc (demo_adapter c)))"
    "?i \<notin> set (dd_ll (rc_dedupe (g_rc (demo_adapter c))))" for c
    by (simp_all add: demo_adapter_def NewMcpServer_def NewResumingClient_def)
  have w: "bv_write demo_bus_env = Written" by (simp add: demo_bus_env_def)
  have sent: "cl_sent demo_alice @ [fr] = [fr]" for fr by (simp add: demo_alice_def demo_conn_def)
  have s: "\<not> st_closed (sv_store demo_both)" "''alice'' \<noteq> []" using demo_both_simps(7) by simp_all
  have bob: "''bob'' \<noteq> ''alice''" "valid_utf8 ''bob''" "\<not> pc_closed (sv_conns demo_both 0)" "pc_out (sv_conns demo_both 0) = []"
    using demo_both_simps(3) by (simp_all add: valid_utf8_Cons_ascii newPeerConn_def)
  from broadcast_to_hosts [OF b(1) refl w refl t g demo_peers_share_secret(3) demo_both_reached demo_store_ok(1,2) demo_benv_good s(1)
      demo_both_simps(2) s(2) fresh, where et = "\<lambda>_. []" and ct = "\<lambda>_. []" and aw = "\<lambda>_. Written", unfolded sent]
    demo_both_simps(4) bob b demo_peers_share_secret(1,2)
  show ?thesis by (metis append_Nil)
qed

theorem host_lists_peers_witness:
  "\<exists>resp. marshal_result ''8'' (toolResult (Some (print_map [(''self'', json_quote ''alice''), (''peers'', print_array [json_quote ''bob''])]))) = Some resp \<and>
    ms_out (mcp_dispatch (\<lambda>_. []) (genericBus (\<lambda>_. []) (\<lambda>_. demo_bus_env\<lparr>bv_frames := [peers_reply demo_both]\<rparr>))
      (tool_request ''8'' ''bus.peers'' (print_object [])) (demo_adapter demo_alice)) = [resp @ [LF]]"
proof -
  let ?e = "demo_bus_env\<lparr>bv_frames := [peers_reply demo_both]\<rparr>"
  have t: "json_text 2 ''8''" "2 + 3 \<le> maxNestingDepth" by code_simp+
  have b: "rc_cur (g_rc (demo_adapter demo_alice)) = Some demo_alice" "conn demo_alice"
    "''alice'' = ccf_Name (rc_cfg (g_rc (demo_adapter demo_alice)))" "ms_out (demo_adapter demo_alice) = []"
    by (simp_all add: demo_adapter_def NewMcpServer_def NewResumingClient_def demo_alice_def demo_conn_def conn_def)
  have u: "\<forall>n\<in>set (List (sv_registry demo_both)). valid_utf8 n" by (simp add: demo_both_simps(5) valid_utf8_Cons_ascii)
  have f: "bv_frames ?e = drop (length (pc_out (sv_conns demo_both 2))) (pc_out (sv_conns (routeFrame demo_benv 2 peers_request demo_both) 2))"
    using peers_answered [OF demo_benv_good demo_both_simps(6)] by simp
  have w: "bv_write ?e = Written" by (simp add: demo_bus_env_def)
  from host_lists_peers [OF b(1,2) refl w t demo_benv_good demo_both_simps(6) u b(3) _ f refl, of "\<lambda>_. []" "\<lambda>_. []"] b(4)
  show ?thesis by (simp add: demo_both_simps(5))
qed

text \<open>Routing a message whose recipient is away stores it; the row is still there, unless it was
  delivered and acknowledged, after any interleaving with any faults.\<close>

lemma routed_offline:
  assumes "good_message c i to ts source body" "ccf_Name (cl_cfg c) = from" "pc_name (sv_conns s ca) = from" "from \<noteq> []"
    "db_good env" "\<not> st_closed (sv_store s)" "to \<in> peer_name ` set (st_peers (sv_store s))"
    "i \<notin> msg_ID ` set (st_messages (sv_store s))" "Get to (sv_registry s) = None"
    "Send Written i to ts source body c = (Inr (), c')" "cl_sent c' = cl_sent c @ [fr]"
  shows "\<exists>sg. routeFrame env ca fr s = after_enqueue env from (norm_envelope sg) fr s \<and> env_ID sg = i \<and> env_To sg = to \<and>
    SignEnvelope (ccf_HMACSecret (cl_cfg c)) (sent_envelope c i to ts source body) = Inr sg \<and>
    marshal_envelope (norm_envelope sg) = Some fr \<and>
    (store_inv (sv_store s) \<longrightarrow> store_inv (sv_store (routeFrame env ca fr s)))"
proof -
  obtain sg fr0 where s: "SignEnvelope (ccf_HMACSecret (cl_cfg c)) (sent_envelope c i to ts source body) = Inr sg"
    "marshal_envelope sg = Some fr0" "Send Written i to ts source body c = (Inr (), c\<lparr>cl_sent := cl_sent c @ [fr0]\<rparr>)"
    "routeFrame env ca fr0 s = routeEnvelope env from (norm_envelope sg) s"
    using send_frame [OF assms(1)] assms(3) by blast
  have fr: "fr0 = fr" using s(3) assms(10,11) by auto
  note k = hm.sign_keeps [OF s(1)]
  have raw: "marshal_envelope (norm_envelope sg) = Some fr"
    using marshal_norm_envelope [of 2 sg] k(3) s(2) fr assms(1) by (simp add: good_message_def)
  have g: "i \<noteq> []" "to \<noteq> []" "to \<noteq> ''*''" "KindMsg \<noteq> KindBroadcast"
    using assms(1) by (simp_all add: good_message_def KindMsg_def KindBroadcast_def)
  have "routeFrame env ca fr s = deliverTo env to (mk_message i from to fr) (after_enqueue env from (norm_envelope sg) fr s)"
    using routeEnvelope_direct [of env s "from" "norm_envelope sg" fr] raw k g assms(4-8) s(4) fr by simp
  then have r: "routeFrame env ca fr s = after_enqueue env from (norm_envelope sg) fr s" using assms(9) by (simp add: deliverTo_def)
  have "fst (Enqueue (be_db env (sv_tick s)) (mk_message i from to fr) (sv_store s)) = Inr ()"
    using good_enqueue [OF assms(5), of s "mk_message i from to fr"] g assms(4,6-8) marshal_envelope_nonempty [OF raw]
      db_call_simps(6) [of env "\<lambda>d. Enqueue d (mk_message i from to fr)" s] by simp
  then have "store_inv (sv_store s) \<Longrightarrow> store_inv (sv_store (after_enqueue env from (norm_envelope sg) fr s))"
    unfolding after_enqueue_def using k(4,6) by (intro store_steps_inv [OF auditEvent_store]) (simp add: store_inv_enqueued)
  then show ?thesis using s(1) raw k(4,6) r by auto
qed

lemma routed_row_survives:
  assumes "i \<notin> msg_ID ` set (st_messages (sv_store s))" "env_ID sg = i" "env_To sg = to"
    "(broker_run b3)\<^sup>*\<^sup>* (after_enqueue env from (norm_envelope sg) fr s, g) (s', g')"
  shows "\<exists>m. message_row (sv_store s') i = Some m \<and> msg_To m = to \<and> msg_Envelope m = fr"
proof -
  let ?row = "fresh_row (be_db env (sv_tick s)) (mk_message i from to fr) (sv_store s)"
  have "find (\<lambda>m. msg_ID m = i) (st_messages (sv_store s)) = None" using assms(1) by (auto simp: find_None_iff)
  then have "broker_row (after_enqueue env from (norm_envelope sg) fr s, g) i = Some ?row"
    using assms(2,3) by (simp add: broker_row_def message_row_def find_append)
  then obtain m where "broker_row (s', g') i = Some m" "row_le ?row m"
    using brow.steps_row [OF assms(4)] by blast
  then show ?thesis by (auto simp: broker_row_def row_le_def)
qed

text \<open>C2: End to end, recipient away: a message routed while its recipient is known but not
  connected reaches it later.  Whatever interleaving of other connections, whatever
  faults and whatever restarts and crashes of the broker lie in between, when the peer registers again and the message has not been
  both delivered and acknowledged, the handshake succeeds and one of the frames written is
  the delivery from which \<open>Recv\<close> gets the verified envelope of the sender.\<close>

theorem offline_message_delivered_on_return:
  assumes "good_message c i to ts source body" "ccf_Name (cl_cfg c) = from" "pc_name (sv_conns s ca) = from" "from \<noteq> []"
    "db_good env" "\<not> st_closed (sv_store s)" "to \<in> peer_name ` set (st_peers (sv_store s))"
    "i \<notin> msg_ID ` set (st_messages (sv_store s))" "Get to (sv_registry s) = None"
    "Send Written i to ts source body c = (Inr (), c')" "cl_sent c' = cl_sent c @ [fr]"
    "(broker_run b3)\<^sup>*\<^sup>* (routeFrame env ca fr s, g) (s', g')" "store_inv (sv_store s)" "\<not> st_closed (sv_store s')"
    "\<forall>m. message_row (sv_store s') i = Some m \<longrightarrow> \<not> (msg_Delivered m \<and> msg_Acked m)"
    "env_good env2" "sv_conns s' cb = newPeerConn" "length data \<le> MaxFrameBytes" "unmarshal_register data = Inr reg"
    "reg_Type reg = ControlRegister" "reg_ProtocolVersion reg = ProtocolVersion" "reg_Name reg = to"
    "Valid (sv_auth s') (reg_Token reg)"
    "\<forall>b. map_of (sv_registry s') to = Some b \<longrightarrow> bind_token b = reg_Token reg \<and> bind_conn b \<noteq> cb"
    "\<forall>m\<in>set (st_messages (sv_store s')). msg_To m = to \<longrightarrow> deliver_bytes m \<noteq> None"
    "conn cr" "ccf_HMACSecret (cl_cfg cr) = ccf_HMACSecret (cl_cfg c)"
  shows "\<exists>s'' fr'. handshake env2 cb (limited (ReadText data)) s' = (Some to, s'') \<and> fr' \<in> set (pc_out (sv_conns s'' cb)) \<and>
    (length fr' \<le> MaxFrameBytes \<longrightarrow>
       (\<exists>del. Recv (TextMsg fr' # rs) cr = (Some (Inr del), cr, rs) \<and> del_DeliveryKey del = i \<and>
          env_ID (del_Envelope del) = i \<and> env_From (del_Envelope del) = from \<and> env_Body (del_Envelope del) = norm_body body))"
proof -
  obtain sg where r: "routeFrame env ca fr s = after_enqueue env from (norm_envelope sg) fr s" "env_ID sg = i" "env_To sg = to"
    and sg: "SignEnvelope (ccf_HMACSecret (cl_cfg c)) (sent_envelope c i to ts source body) = Inr sg"
    "marshal_envelope (norm_envelope sg) = Some fr" and inv: "store_inv (sv_store (routeFrame env ca fr s))"
    using assms(13) routed_offline [OF assms(1-11)] by blast
  obtain m where m: "message_row (sv_store s') i = Some m" "msg_To m = to" "msg_Envelope m = fr"
    using routed_row_survives [OF assms(8) r(2,3) assms(12) [unfolded r(1)]] by blast
  have mi: "m \<in> set (st_messages (sv_store s'))" "msg_ID m = i" using m(1) message_row_in [OF store_steps_inv [OF broker_runs_store [OF assms(12), unfolded fst_conv] inv]] by auto
  obtain fr' where f: "deliver_bytes m = Some fr'" "length fr' \<le> MaxFrameBytes \<Longrightarrow>
      \<exists>del. Recv (TextMsg fr' # rs) cr = (Some (Inr del), cr, rs) \<and> del_DeliveryKey del = i \<and> del_Envelope del = norm_envelope sg"
    using stored_frame_received [OF assms(1) sg m(3) mi(2)] assms(26,27) by auto
  have "to \<noteq> []" using assms(1) by (simp add: good_message_def)
  then obtain s'' names where h: "handshake env2 cb (limited (ReadText data)) s' = (Some to, s'')"
    "pc_out (sv_conns s'' cb) = marshal_peers \<lparr>peers_ProtocolVersion = ProtocolVersion, peers_Type = ControlPeers, peers_Names = names\<rparr>
      # map (the \<circ> deliver_bytes) (select_pending to (map (set_requeued to) (st_messages (sv_store s'))))"
    using reconnect_handshake [OF assms(16,17,14,18-22) _ assms(23-25) refl] by blast
  have "set_requeued to m \<in> set (select_pending to (map (set_requeued to) (st_messages (sv_store s'))))"
    using mi m(1,2) assms(15) by (auto simp: set_requeued_pending)
  from imageI [OF this, of "the \<circ> deliver_bytes"]
  have "(the \<circ> deliver_bytes) (set_requeued to m) \<in> set (pc_out (sv_conns s'' cb))"
    unfolding h(2) list.set set_map by (rule insertI2)
  then show ?thesis using h(1) f hm.sign_keeps(3-5) [OF sg(1)] assms(2) by fastforce
qed

theorem offline_message_delivered_on_return_witness:
  "\<exists>s fr. handshake demo_benv 0 (limited (ReadText (marshal_register demo_register)))
       (reborn [''tok''] (routeFrame demo_benv 2 (the (marshal_envelope (projr (SignEnvelope demo_secret
          (sent_envelope demo_alice ''m2'' ''bob'' ''t'' ''s'' ''[1, 2]''))))) (with_alice demo_server))) = (Some ''bob'', s) \<and>
     fr \<in> set (pc_out (sv_conns s 0))"
proof -
  let ?s = "with_alice demo_server" and ?c' = "\<lambda>fr. demo_alice\<lparr>cl_sent := cl_sent demo_alice @ [fr]\<rparr>"
  obtain sg fr where f: "SignEnvelope (ccf_HMACSecret (cl_cfg demo_alice)) (sent_envelope demo_alice ''m2'' ''bob'' ''t'' ''s'' ''[1, 2]'') = Inr sg"
    "marshal_envelope sg = Some fr" "Send Written ''m2'' ''bob'' ''t'' ''s'' ''[1, 2]'' demo_alice = (Inr (), ?c' fr)"
    using send_frame [OF demo_alice_message] by blast
  have store: "\<not> st_closed demo_store" "''bob'' \<in> peer_name ` set (st_peers demo_store)" "''m2'' \<notin> msg_ID ` set (st_messages demo_store)"
    "Get ''bob'' [] = None" "db_good demo_benv"
    using demo_online_simps demo_benv_good by (simp_all add: demo_online_def Get_def env_good_def)
  have ca: "pc_name (sv_conns ?s 2) = ''alice''" "''alice'' \<noteq> []" "cl_sent (?c' fr) = cl_sent demo_alice @ [fr]" by simp_all
  have sv: "sv_store ?s = demo_store" "sv_registry ?s = []" "sv_conns ?s 0 = newPeerConn" "sv_auth ?s = [''tok'']" by simp_all
  obtain sg' where r: "routeFrame demo_benv 2 fr ?s = after_enqueue demo_benv ''alice'' (norm_envelope sg') fr ?s"
    "env_ID sg' = ''m2''" "env_To sg' = ''bob''"
    "SignEnvelope (ccf_HMACSecret (cl_cfg demo_alice)) (sent_envelope demo_alice ''m2'' ''bob'' ''t'' ''s'' ''[1, 2]'') = Inr sg'"
    "marshal_envelope (norm_envelope sg') = Some fr"
    using routed_offline [OF demo_alice_message demo_peers_share_secret(3) ca(1,2) store(5) _ _ _ _ f(3) ca(3)] store(1-4) sv(1,2) by auto
  let ?s1 = "after_enqueue demo_benv ''alice'' (norm_envelope sg') fr ?s"
  let ?row = "fresh_row (be_db demo_benv (sv_tick ?s)) (mk_message ''m2'' ''alice'' ''bob'' fr) demo_store"
  have ms: "set (st_messages (sv_store ?s1)) = {demo_row, ?row}" using demo_store_ok(4) r(2,3) sv(1) by (simp add: demo_row_def)
  have "\<exists>fr'. deliver_bytes ?row = Some fr'"
    using stored_frame_received [OF demo_alice_message r(4,5), of ?row] by auto
  then have del: "\<forall>m\<in>set (st_messages (sv_store (reborn [''tok''] (routeFrame demo_benv 2 fr ?s)))). msg_To m = ''bob'' \<longrightarrow> deliver_bytes m \<noteq> None"
    unfolding r(1) reborn_simps ms using demo_deliverable by (simp add: demo_row_def)
  have "length (marshal_register demo_register) \<le> 200" by code_simp
  then have len: "length (marshal_register demo_register) \<le> MaxFrameBytes" by (simp add: MaxFrameBytes_def)
  have find: "find (\<lambda>m. msg_ID m = ''m2'') (st_messages demo_store) = None" unfolding find_None_iff using store(3) by (metis image_eqI)
  have row: "\<forall>m. message_row (sv_store (reborn [''tok''] (routeFrame demo_benv 2 fr ?s))) ''m2'' = Some m \<longrightarrow> \<not> (msg_Delivered m \<and> msg_Acked m)"
    unfolding r(1) using r(2,3) find by (simp add: message_row_def find_append)
  note W = offline_message_delivered_on_return [OF demo_alice_message demo_peers_share_secret(3) ca(1,2) store(5), unfolded sv(1,2),
      OF store(1-4) f(3) ca(3) r_into_rtranclp [of "broker_run demo_digest", OF reborn_run] demo_store_ok(1) _ row demo_benv_good _ len demo_register_parsed _ _ _ _ _ del
        demo_peers_share_secret(1,2)]
  have "the (marshal_envelope (projr (SignEnvelope demo_secret (sent_envelope demo_alice ''m2'' ''bob'' ''t'' ''s'' ''[1, 2]'')))) = fr"
    using f(1,2) by (simp add: demo_alice_def demo_conn_def demo_client_def)
  moreover have "Valid [''tok''] (reg_Token demo_register)" by (simp add: demo_register_def Valid_iff)
  moreover have "reg_Type demo_register = ControlRegister" "reg_ProtocolVersion demo_register = ProtocolVersion"
    "reg_Name demo_register = ''bob''" by (simp_all add: demo_register_def)
  ultimately show ?thesis using W [of 0 "[]"] by auto
qed

end
